theory Spec2Isabelle
  imports Main "HOL-Library.Sublist" "HOL-Library.Word"
begin

section \<open>RFC822 address parsing (lib/address.cc)\<close>

text \<open>
  A shallow embedding of the tokenizer, the quoting transforms and the grammar
  matcher of \<^verbatim>\<open>lib/address.cc\<close>.

  \<^item> A \<^verbatim>\<open>const char*\<close> cursor into a NUL-terminated buffer is the list of the
    characters from the cursor up to (excluding) the terminator; reading the
    character under the cursor is \<open>peek\<close>, which yields NUL at the end of the list.
  \<^item> The linked chain of \<^verbatim>\<open>anode\<close>s is a list of tokens; an \<^verbatim>\<open>anode*\<close> is the
    suffix of the chain that starts at that node, and the null pointer is \<open>[]\<close>.
  \<^item> Dereferencing the null pointer and running off a buffer are undefined in
    C++; here they are the explicit outcome \<open>Inl\<close> of a \<open>fault\<close>.
\<close>

subsection \<open>Characters\<close>

definition NUL :: char where "NUL = CHR 0x00"
definition LSQBRACKET :: char where "LSQBRACKET = CHR ''[''"
definition RSQBRACKET :: char where "RSQBRACKET = CHR '']''"
definition QUOTE :: char where "QUOTE = CHR 0x22"
definition CR :: char where "CR = CHR 0x0A"
definition LPAREN :: char where "LPAREN = CHR ''(''"
definition RPAREN :: char where "RPAREN = CHR '')''"

datatype node_type =
    EMPTY
  | ATOM | QUOTED_STRING | DOMAIN_LITERAL | COMMENT
  | LABRACKET | RABRACKET | AT | COMMA | SEMICOLON | COLON | ESCAPE | PERIOD
  | EOT

text \<open>The enumerators are character codes: \<^verbatim>\<open>LABRACKET = '<'\<close> and so on.\<close>

fun enum_char :: "node_type \<Rightarrow> char" where
  "enum_char EMPTY = CHR 0x00"
| "enum_char ATOM = CHR ''A''"
| "enum_char QUOTED_STRING = CHR ''Q''"
| "enum_char DOMAIN_LITERAL = CHR ''D''"
| "enum_char COMMENT = CHR ''C''"
| "enum_char LABRACKET = CHR ''<''"
| "enum_char RABRACKET = CHR ''>''"
| "enum_char AT = CHR ''@''"
| "enum_char COMMA = CHR '',''"
| "enum_char SEMICOLON = CHR '';''"
| "enum_char COLON = CHR '':''"
| "enum_char ESCAPE = CHR 0x5C"
| "enum_char PERIOD = CHR ''.''"
| "enum_char EOT = CHR ''$''"

definition issymbol :: "char \<Rightarrow> bool" where
  "issymbol c \<longleftrightarrow>
     c = LPAREN \<or> c = RPAREN \<or>
     c = enum_char LABRACKET \<or> c = enum_char RABRACKET \<or>
     c = LSQBRACKET \<or> c = RSQBRACKET \<or>
     c = enum_char AT \<or> c = enum_char COMMA \<or>
     c = enum_char SEMICOLON \<or> c = enum_char COLON \<or>
     c = enum_char ESCAPE \<or> c = QUOTE \<or> c = enum_char PERIOD"

definition isctl :: "char \<Rightarrow> bool" where
  "isctl c \<longleftrightarrow> (of_char c :: nat) \<le> 31 \<or> (of_char c :: nat) = 127"

text \<open>
  \<^verbatim>\<open>isspace\<close> of \<^verbatim>\<open>ctype.h\<close> in the C locale: space, and the five characters
  from horizontal tab (9) to carriage return (13).
\<close>

definition isspace :: "char \<Rightarrow> bool" where
  "isspace c \<longleftrightarrow> (of_char c :: nat) = 32 \<or> (9 \<le> (of_char c :: nat) \<and> (of_char c :: nat) \<le> 13)"

definition isqtext :: "char \<Rightarrow> bool" where
  "isqtext c \<longleftrightarrow> c \<noteq> NUL \<and> c \<noteq> QUOTE \<and> c \<noteq> enum_char ESCAPE \<and> c \<noteq> CR"

definition isdtext :: "char \<Rightarrow> bool" where
  "isdtext c \<longleftrightarrow> c \<noteq> NUL \<and> c \<noteq> LSQBRACKET \<and> c \<noteq> RSQBRACKET \<and>
     c \<noteq> enum_char ESCAPE \<and> c \<noteq> CR"

fun peek :: "string \<Rightarrow> char" where
  "peek [] = NUL"
| "peek (c # cs) = c"

text \<open>\<^verbatim>\<open>isqpair(ptr)\<close>: an escape followed by any character but the terminator.\<close>

fun isqpair :: "string \<Rightarrow> bool" where
  "isqpair [] = False"
| "isqpair (c # cs) = (c \<noteq> NUL \<and> c = enum_char ESCAPE \<and> peek cs \<noteq> NUL)"

definition isatom :: "char \<Rightarrow> bool" where
  "isatom ch \<longleftrightarrow> \<not> (isspace ch \<or> issymbol ch \<or> isctl ch)"

subsection \<open>Tokens\<close>

record token =
  ttype :: node_type
  tstr :: string

text \<open>
  \<^verbatim>\<open>anode(t)\<close> has empty text; \<^verbatim>\<open>anode(t, start, end)\<close> holds the characters from
  \<^verbatim>\<open>start\<close> up to \<^verbatim>\<open>end\<close>, both cursors into the same buffer.
\<close>

definition anode0 :: "node_type \<Rightarrow> token" where
  "anode0 t = \<lparr>ttype = t, tstr = []\<rparr>"

definition anode :: "node_type \<Rightarrow> string \<Rightarrow> string \<Rightarrow> token" where
  "anode t start end = \<lparr>ttype = t, tstr = take (length start - length end) start\<rparr>"

subsection \<open>Tokenizer\<close>

text \<open>
  Each scanner returns \<open>None\<close> where the C++ returns the null pointer, and
  otherwise the new token with the advanced cursor.
\<close>

fun skipspace :: "string \<Rightarrow> string" where
  "skipspace [] = []"
| "skipspace (c # cs) = (if isspace c then skipspace cs else c # cs)"

fun skipatom :: "string \<Rightarrow> string" where
  "skipatom [] = []"
| "skipatom (c # cs) = (if isatom c then skipatom cs else c # cs)"

fun tokenize_atom :: "string \<Rightarrow> (token \<times> string) option" where
  "tokenize_atom [] = None"
| "tokenize_atom (c # cs) =
     (if \<not> isatom c then None
      else let ptr = skipatom cs in Some (anode ATOM (c # cs) ptr, ptr))"

text \<open>
  The loop of \<^verbatim>\<open>tokenize_comment\<close>; \<open>count\<close> is an \<^verbatim>\<open>unsigned\<close>. The result is the
  cursor after the closing parenthesis.
\<close>

fun comment_loop :: "string \<Rightarrow> 32 word \<Rightarrow> string option" where
  "comment_loop [] count = None"
| "comment_loop (ch # cs) count =
     (if ch = NUL then None
      else if isqpair (ch # cs) then comment_loop (tl cs) count
      else if ch = LPAREN then comment_loop cs (count + 1)
      else if ch = RPAREN then
        (if count - 1 = 0 then Some cs else comment_loop cs (count - 1))
      else if ch = CR then None
      else comment_loop cs count)"

definition tokenize_comment :: "string \<Rightarrow> (token \<times> string) option" where
  "tokenize_comment ptr =
     (if peek ptr \<noteq> LPAREN then None
      else case comment_loop ptr 0 of
             None \<Rightarrow> None
           | Some ptr' \<Rightarrow> Some (anode COMMENT ptr ptr', ptr'))"

fun dtext_loop :: "string \<Rightarrow> string" where
  "dtext_loop [] = []"
| "dtext_loop (c # cs) =
     (if c = NUL then c # cs
      else if isdtext c then dtext_loop cs
      else if isqpair (c # cs) then dtext_loop (tl cs)
      else c # cs)"

text \<open>
  On success the cursor is left on the closing bracket, and the token text
  stops before it.
\<close>

fun tokenize_domain_literal :: "string \<Rightarrow> (token \<times> string) option" where
  "tokenize_domain_literal [] = None"
| "tokenize_domain_literal (c # cs) =
     (if c \<noteq> LSQBRACKET then None
      else let ptr = skipspace (dtext_loop (skipspace cs)) in
        if peek ptr \<noteq> RSQBRACKET then None
        else Some (anode DOMAIN_LITERAL (c # cs) ptr, ptr))"

fun qtext_loop :: "string \<Rightarrow> string" where
  "qtext_loop [] = []"
| "qtext_loop (c # cs) =
     (if c = NUL then c # cs
      else if isqtext c then qtext_loop cs
      else if isqpair (c # cs) then qtext_loop (tl cs)
      else c # cs)"

fun tokenize_quoted_string :: "string \<Rightarrow> (token \<times> string) option" where
  "tokenize_quoted_string [] = None"
| "tokenize_quoted_string (c # cs) =
     (if c \<noteq> QUOTE then None
      else let ptr = qtext_loop cs in
        if peek ptr \<noteq> QUOTE then None
        else Some (anode QUOTED_STRING (c # cs) (tl ptr), tl ptr))"

text \<open>The cast \<^verbatim>\<open>(node_type)ch\<close> on the eight one-character tokens.\<close>

definition special_type :: "char \<Rightarrow> node_type option" where
  "special_type ch =
     (if ch = enum_char LABRACKET then Some LABRACKET
      else if ch = enum_char RABRACKET then Some RABRACKET
      else if ch = enum_char AT then Some AT
      else if ch = enum_char COMMA then Some COMMA
      else if ch = enum_char SEMICOLON then Some SEMICOLON
      else if ch = enum_char COLON then Some COLON
      else if ch = enum_char ESCAPE then Some ESCAPE
      else if ch = enum_char PERIOD then Some PERIOD
      else None)"

text \<open>\<^verbatim>\<open>static anode* tokenize(const char* &ptr)\<close>: one token.\<close>

definition tokenize1 :: "string \<Rightarrow> (token \<times> string) option" where
  "tokenize1 ptr0 =
     (let ptr = skipspace ptr0; ch = peek ptr in
      if ch = NUL then Some (anode0 EOT, ptr)
      else case special_type ch of
        Some t \<Rightarrow> Some (anode0 t, tl ptr)
      | None \<Rightarrow>
          if ch = LPAREN then tokenize_comment ptr
          else if ch = LSQBRACKET then tokenize_domain_literal ptr
          else if ch = QUOTE then tokenize_quoted_string ptr
          else tokenize_atom ptr)"


lemma length_skipspace: "length (skipspace s) \<le> length s"
  by (induction s) auto

lemma length_skipatom: "length (skipatom s) \<le> length s"
  by (induction s) auto

lemma length_comment_loop: "comment_loop s n = Some p \<Longrightarrow> length p < length s"
proof (induction s n rule: comment_loop.induct)
  case (1 count)
  then show ?case by simp
next
  case (2 ch cs count)
  then show ?case
    by (cases cs) (auto split: if_splits simp: less_Suc_eq)
qed

lemma length_dtext_loop: "length (dtext_loop s) \<le> length s"
proof (induction s rule: dtext_loop.induct)
  case 1
  then show ?case by simp
next
  case (2 c cs)
  then show ?case by (cases cs) (auto simp: le_Suc_eq)
qed

lemma length_qtext_loop: "length (qtext_loop s) \<le> length s"
proof (induction s rule: qtext_loop.induct)
  case 1
  then show ?case by simp
next
  case (2 c cs)
  then show ?case by (cases cs) (auto simp: le_Suc_eq)
qed

lemma length_tokenize_atom: "tokenize_atom s = Some (t, p) \<Longrightarrow> length p < length s"
  using length_skipatom by (cases s) (auto split: if_splits simp: Let_def less_Suc_eq_le)

lemma length_tokenize_comment: "tokenize_comment s = Some (t, p) \<Longrightarrow> length p < length s"
  by (auto simp: tokenize_comment_def split: if_splits option.splits dest: length_comment_loop)

lemma length_tokenize_domain_literal:
  assumes "tokenize_domain_literal s = Some (t, p)"
  shows "length p < length s"
proof (cases s)
  case Nil
  with assms show ?thesis by simp
next
  case (Cons c cs)
  with assms have "p = skipspace (dtext_loop (skipspace cs))"
    by (auto simp: Let_def split: if_splits)
  moreover have "length (skipspace (dtext_loop (skipspace cs))) \<le> length cs"
    using length_skipspace [of "dtext_loop (skipspace cs)"]
      length_dtext_loop [of "skipspace cs"] length_skipspace [of cs] by linarith
  ultimately show ?thesis using Cons by simp
qed

lemma length_tokenize_quoted_string:
  assumes "tokenize_quoted_string s = Some (t, p)"
  shows "length p < length s"
proof (cases s)
  case Nil
  with assms show ?thesis by simp
next
  case (Cons c cs)
  with assms have "p = tl (qtext_loop cs)"
    by (auto simp: Let_def split: if_splits)
  then show ?thesis using Cons length_qtext_loop [of cs] by simp
qed

lemma length_tokenize1:
  assumes "tokenize1 s = Some (t, p)" and "ttype t \<noteq> EOT"
  shows "length p < length s"
proof -
  let ?q = "skipspace s"
  have q: "length ?q \<le> length s" by (rule length_skipspace)
  show ?thesis
  proof (cases "peek ?q = NUL")
    case True
    with assms show ?thesis by (auto simp: tokenize1_def Let_def anode0_def)
  next
    case False
    then have ne: "?q \<noteq> []" by auto
    show ?thesis
    proof (cases "special_type (peek ?q)")
      case (Some ty)
      with False assms have "p = tl ?q" by (simp add: tokenize1_def Let_def)
      with ne q show ?thesis by (cases ?q) auto
    next
      case None
      with False assms have "length p < length ?q"
        by (auto simp: tokenize1_def Let_def split: if_splits
            dest: length_tokenize_comment length_tokenize_domain_literal
              length_tokenize_quoted_string length_tokenize_atom)
      with q show ?thesis by linarith
    qed
  qed
qed

text \<open>
  \<^verbatim>\<open>anode* tokenize(const mystring str)\<close>: the chain, in order, up to and including
  the end marker; \<open>None\<close> is the null pointer returned on a lexical error.
\<close>

function tokenize :: "string \<Rightarrow> token list option" where
  "tokenize ptr =
     (case tokenize1 ptr of
        None \<Rightarrow> None
      | Some (tmp, ptr') \<Rightarrow>
          if ttype tmp = EOT then Some [tmp]
          else (case tokenize ptr' of
                  None \<Rightarrow> None
                | Some rest \<Rightarrow> Some (tmp # rest)))"
  by pat_completeness auto
termination
  by (relation "measure length") (auto dest: length_tokenize1)

declare tokenize.simps [simp del]


subsection \<open>Quoting\<close>

text \<open>
  Undefined behaviour of the C++ is an explicit outcome: a function that may
  dereference the null pointer or leave a buffer returns \<open>fault + 'a\<close>.
\<close>

datatype fault = NullDeref | OutOfBounds

text \<open>
  Modelled from the spec: the string class \<^verbatim>\<open>mystring\<close> (its header is not
  among the sources), the basic string type with concatenation, equality and
  index access, is a list of characters; \<^verbatim>\<open>+\<close> and \<^verbatim>\<open>+=\<close> append, and \<^verbatim>\<open>!s\<close> holds of
  the empty string. A \<^verbatim>\<open>char\<close> array handed to a \<^verbatim>\<open>mystring\<close> is read as a C
  string: up to the first NUL.
\<close>

definition c_string :: "string \<Rightarrow> string" where
  "c_string out = takeWhile (\<lambda>c. c \<noteq> NUL) out"

text \<open>The loop of \<^verbatim>\<open>quote\<close>: the characters written to \<^verbatim>\<open>out\<close>, and \<^verbatim>\<open>quoted\<close>.\<close>

fun quote_loop :: "string \<Rightarrow> string \<times> bool" where
  "quote_loop [] = ([], False)"
| "quote_loop (c # cs) =
     (let (out, quoted) = quote_loop cs in
      if issymbol c then (enum_char ESCAPE # c # out, True) else (c # out, quoted))"

definition quote :: "string \<Rightarrow> string" where
  "quote inp =
     (let (out, quoted) = quote_loop inp in
      if quoted then [QUOTE] @ c_string out @ [QUOTE] else inp)"

text \<open>
  The loop of \<^verbatim>\<open>unquote\<close>. \<open>ptrin\<close> is the cursor into the text of \<^verbatim>\<open>in\<close> (here \<open>inp\<close>) and
  \<open>length\<close> the \<^verbatim>\<open>unsigned\<close> counter. At the end of the list the cursor is on the
  terminator, which may be read; the step after it would read past the buffer.
  A quoted pair on the last counted character takes the counter from 1 to 0
  and the loop step then wraps it to \<open>2^32 - 1\<close>: the loop runs off both
  buffers.
\<close>

fun push :: "char \<Rightarrow> fault + (string \<times> bool) \<Rightarrow> fault + (string \<times> bool)" where
  "push c (Inl e) = Inl e"
| "push c (Inr (out, modified)) = Inr (c # out, modified)"

fun unquote_loop :: "string \<Rightarrow> nat \<Rightarrow> bool \<Rightarrow> fault + (string \<times> bool)" where
  "unquote_loop ptrin 0 modified = Inr ([], modified)"
| "unquote_loop [] (Suc n) modified =
     (if n = 0 then Inr ([NUL], modified) else Inl OutOfBounds)"
| "unquote_loop (c # cs) (Suc n) modified =
     (if isqpair (c # cs) then
        (case n of
           0 \<Rightarrow> Inl OutOfBounds
         | Suc n' \<Rightarrow> push (peek cs) (unquote_loop (tl cs) n' True))
      else push c (unquote_loop cs n modified))"

text \<open>
  \<^verbatim>\<open>in[0]\<close> of the empty string is the terminator. A text that is one quote
  character passes the test and \<^verbatim>\<open>length -= 2\<close> wraps.
\<close>

definition unquote :: "string \<Rightarrow> fault + string" where
  "unquote inp =
     (if peek inp = QUOTE \<and> last inp = QUOTE then
        (if length inp < 2 then Inl OutOfBounds
         else case unquote_loop (tl inp) (length inp - 2) True of
                Inl e \<Rightarrow> Inl e
              | Inr (out, modified) \<Rightarrow> Inr (c_string out))
      else case unquote_loop inp (length inp) False of
             Inl e \<Rightarrow> Inl e
           | Inr (out, modified) \<Rightarrow> Inr (if modified then c_string out else inp))"

subsection \<open>Match results\<close>

record result =
  rnext :: "token list"
  rstr :: string
  rcomment :: string
  raddr :: string

text \<open>\<^verbatim>\<open>FAIL\<close> returns \<^verbatim>\<open>result()\<close>; \<^verbatim>\<open>operator bool\<close> tests the position.\<close>

definition FAILED :: result where
  "FAILED = \<lparr>rnext = [], rstr = [], rcomment = [], raddr = []\<rparr>"

definition ok :: "result \<Rightarrow> bool" where
  "ok r \<longleftrightarrow> rnext r \<noteq> []"

subsection \<open>Grammar rules\<close>

fun skipcomment :: "token list \<Rightarrow> string \<Rightarrow> fault + (token list \<times> string)" where
  "skipcomment [] comment = Inl NullDeref"
| "skipcomment (t # ts) comment =
     (if ttype t = COMMENT then skipcomment ts (comment @ '' '' @ tstr t)
      else Inr (t # ts, comment))"

definition match_sub_domain :: "token list \<Rightarrow> fault + result" where
  "match_sub_domain node0 =
     (case skipcomment node0 [] of
        Inl e \<Rightarrow> Inl e
      | Inr (node, comment) \<Rightarrow>
          (case node of
             [] \<Rightarrow> Inl NullDeref
           | t # nx \<Rightarrow>
               if ttype t = ATOM \<or> ttype t = DOMAIN_LITERAL then
                 Inr \<lparr>rnext = nx, rstr = tstr t, rcomment = comment, raddr = tstr t\<rparr>
               else Inr FAILED))"

text \<open>
  A result is \<open>advanced\<close> from a position when it is the failure value or its
  position is a proper suffix of that position.
\<close>

definition advanced :: "token list \<Rightarrow> result \<Rightarrow> bool" where
  "advanced node r \<longleftrightarrow> r = FAILED \<or> strict_suffix (rnext r) node"

lemma advanced_FAILED [simp]: "advanced node FAILED"
  by (simp add: advanced_def)

lemma ok_FAILED [simp]: "\<not> ok FAILED"
  by (simp add: ok_def FAILED_def)

lemma advanced_length: "advanced node r \<Longrightarrow> ok r \<Longrightarrow> length (rnext r) < length node"
  by (auto simp: advanced_def dest: suffix_length_less)

lemma advanced_suffix:
  "advanced node' r \<Longrightarrow> suffix node' node \<Longrightarrow> advanced node r"
  by (auto simp: advanced_def strict_suffix_def dest: suffix_order.trans suffix_order.antisym)

lemma skipcomment_suffix:
  "skipcomment node c = Inr (node', c') \<Longrightarrow> suffix node' node \<and> node' \<noteq> []"
  by (induction node c rule: skipcomment.induct) (auto split: if_splits intro: suffix_ConsI)

lemma skipcomment_length:
  "skipcomment node c = Inr (node', c') \<Longrightarrow> length node' \<le> length node"
  by (auto dest: skipcomment_suffix suffix_length_le)

lemma advanced_sub_domain: "match_sub_domain node = Inr r \<Longrightarrow> advanced node r"
  by (auto simp: match_sub_domain_def advanced_def
      split: sum.splits list.splits if_splits dest!: skipcomment_suffix suffix_ConsD')

text \<open>
  The loop of \<^verbatim>\<open>match_domain\<close>, on the variables it updates: the result \<open>r\<close> and
  the local \<open>comment\<close>.
\<close>

function domain_loop :: "result \<Rightarrow> string \<Rightarrow> fault + (result \<times> string)" where
  "domain_loop r comment =
     (case skipcomment (rnext r) comment of
        Inl e \<Rightarrow> Inl e
      | Inr (node, comment') \<Rightarrow>
          (case node of
             [] \<Rightarrow> Inl NullDeref
           | t # nx \<Rightarrow>
               if ttype t \<noteq> PERIOD then Inr (r\<lparr>rnext := node\<rparr>, comment')
               else
                 (case match_sub_domain nx of
                    Inl e \<Rightarrow> Inl e
                  | Inr r1 \<Rightarrow>
                      if \<not> ok r1 then Inr (r\<lparr>rnext := node\<rparr>, comment')
                      else domain_loop
                        (r\<lparr>rnext := rnext r1,
                           rstr := rstr r @ [enum_char PERIOD] @ rstr r1,
                           raddr := raddr r @ [enum_char PERIOD] @ raddr r1\<rparr>)
                        (comment' @ rcomment r1))))"
  by pat_completeness auto
termination
proof (relation "measure (\<lambda>(r, comment). length (rnext r))", goal_cases)
  case 1
  then show ?case by simp
next
  case (2 r comment x node comment' t nx r1)
  then have "length (t # nx) \<le> length (rnext r)"
    using skipcomment_length [of "rnext r" comment "t # nx" comment'] by simp
  moreover have "length (rnext r1) < length nx"
    using 2 advanced_sub_domain [of nx r1] by (auto dest: advanced_length)
  ultimately show ?case by simp
qed

definition match_domain :: "token list \<Rightarrow> fault + result" where
  "match_domain node =
     (case match_sub_domain node of
        Inl e \<Rightarrow> Inl e
      | Inr r \<Rightarrow>
          if \<not> ok r then Inr FAILED
          else case domain_loop r [] of
                 Inl e \<Rightarrow> Inl e
               | Inr (r', comment) \<Rightarrow> Inr (r'\<lparr>rcomment := rcomment r' @ comment\<rparr>))"


declare domain_loop.simps [simp del]

lemma domain_loop_suffix:
  "domain_loop r c = Inr (r', c') \<Longrightarrow> suffix (rnext r') (rnext r) \<and> ok r'"
proof (induction r c rule: domain_loop.induct)
  case (1 r comment)
  from "1.prems" obtain node cm where sk: "skipcomment (rnext r) comment = Inr (node, cm)"
    by (subst (asm) domain_loop.simps) (auto split: sum.splits)
  then have node: "suffix node (rnext r)" "node \<noteq> []"
    by (auto dest: skipcomment_suffix)
  then obtain t nx where tnx: "node = t # nx" by (cases node) auto
  show ?case
  proof (cases "ttype t \<noteq> PERIOD")
    case True
    with "1.prems" sk tnx have "r' = r\<lparr>rnext := node\<rparr>"
      by (subst (asm) domain_loop.simps) simp
    with node show ?thesis by (simp add: ok_def)
  next
    case period: False
    with "1.prems" sk tnx obtain r1 where r1: "match_sub_domain nx = Inr r1"
      by (subst (asm) domain_loop.simps) (auto split: sum.splits)
    show ?thesis
    proof (cases "ok r1")
      case False
      with "1.prems" sk tnx r1 period have "r' = r\<lparr>rnext := node\<rparr>"
        by (subst (asm) domain_loop.simps) simp
      with node show ?thesis by (simp add: ok_def)
    next
      case True
      let ?r = "r\<lparr>rnext := rnext r1,
                   rstr := rstr r @ [enum_char PERIOD] @ rstr r1,
                   raddr := raddr r @ [enum_char PERIOD] @ raddr r1\<rparr>"
      from "1.prems" sk tnx r1 True period
      have rec: "domain_loop ?r (cm @ rcomment r1) = Inr (r', c')"
        by (subst (asm) domain_loop.simps) simp
      have ih: "suffix (rnext r') (rnext r1)" "ok r'"
        using "1.IH" [OF sk refl tnx _ r1 _ rec] True period by simp_all
      from advanced_sub_domain [OF r1] True have "strict_suffix (rnext r1) nx"
        by (auto simp: advanced_def)
      then have "suffix (rnext r1) node"
        using tnx by (auto simp: strict_suffix_def intro: suffix_ConsI)
      with ih node show ?thesis by (blast intro: suffix_order.trans)
    qed
  qed
qed

lemma advanced_domain:
  assumes "match_domain node = Inr r"
  shows "advanced node r"
proof -
  from assms obtain r0 where r0: "match_sub_domain node = Inr r0"
    by (auto simp: match_domain_def split: sum.splits)
  show ?thesis
  proof (cases "ok r0")
    case False
    with assms r0 show ?thesis by (simp add: match_domain_def)
  next
    case True
    with assms r0 obtain r' c where l: "domain_loop r0 [] = Inr (r', c)"
      and r: "r = r'\<lparr>rcomment := rcomment r' @ c\<rparr>"
      by (auto simp: match_domain_def split: sum.splits)
    from advanced_sub_domain [OF r0] True have "strict_suffix (rnext r0) node"
      by (auto simp: advanced_def)
    with domain_loop_suffix [OF l] r show ?thesis
      by (auto simp: advanced_def intro: suffix_order.strict_trans1)
  qed
qed


text \<open>
  The loop of \<^verbatim>\<open>match_route\<close>. \<open>None\<close> is the \<^verbatim>\<open>FAIL\<close> taken inside the loop when
  a domain does not match; otherwise the loop ends with the cursor, the
  \<^verbatim>\<open>unsigned\<close> count and the two strings.
\<close>

function route_loop ::
  "token list \<Rightarrow> 32 word \<Rightarrow> string \<Rightarrow> string \<Rightarrow>
   fault + (token list \<times> 32 word \<times> string \<times> string) option" where
  "route_loop node count str comment =
     (case node of
        [] \<Rightarrow> Inl NullDeref
      | t # nx \<Rightarrow>
          if ttype t \<noteq> AT then Inr (Some (node, count, str, comment))
          else
            (case match_domain nx of
               Inl e \<Rightarrow> Inl e
             | Inr r \<Rightarrow>
                 if \<not> ok r then Inr None
                 else route_loop (rnext r) (count + 1)
                        (str @ ''@'' @ rstr r) (comment @ rcomment r)))"
  by pat_completeness auto
termination
proof (relation "measure (\<lambda>(node, count, str, comment). length node)", goal_cases)
  case 1
  then show ?case by simp
next
  case (2 node count str comment t nx r)
  then show ?case
    using advanced_domain [of nx r] by (auto dest: advanced_length)
qed

declare route_loop.simps [simp del]

definition match_route :: "token list \<Rightarrow> fault + result" where
  "match_route node0 =
     (case route_loop node0 0 [] [] of
        Inl e \<Rightarrow> Inl e
      | Inr None \<Rightarrow> Inr FAILED
      | Inr (Some (node, count, str, comment)) \<Rightarrow>
          if count = 0 then Inr FAILED
          else
            (case skipcomment node comment of
               Inl e \<Rightarrow> Inl e
             | Inr (node', comment') \<Rightarrow>
                 (case node' of
                    [] \<Rightarrow> Inl NullDeref
                  | t # nx \<Rightarrow>
                      if ttype t \<noteq> COLON then Inr FAILED
                      else Inr \<lparr>rnext = nx, rstr = str, rcomment = comment', raddr = []\<rparr>)))"

definition match_word :: "token list \<Rightarrow> fault + result" where
  "match_word node0 =
     (case skipcomment node0 [] of
        Inl e \<Rightarrow> Inl e
      | Inr (node, comment) \<Rightarrow>
          (case node of
             [] \<Rightarrow> Inl NullDeref
           | t # nx \<Rightarrow>
               if ttype t = ATOM then
                 Inr \<lparr>rnext = nx, rstr = tstr t, rcomment = comment, raddr = tstr t\<rparr>
               else if ttype t = QUOTED_STRING then
                 (case unquote (tstr t) of
                    Inl e \<Rightarrow> Inl e
                  | Inr addr \<Rightarrow>
                      Inr \<lparr>rnext = nx, rstr = quote addr, rcomment = comment, raddr = addr\<rparr>)
               else Inr FAILED))"

lemma route_loop_suffix:
  "route_loop node n s c = Inr (Some (node', n', s', c')) \<Longrightarrow> suffix node' node \<and> node' \<noteq> []"
proof (induction node n s c rule: route_loop.induct)
  case (1 node count str comment)
  from "1.prems" obtain t nx where tnx: "node = t # nx"
    by (subst (asm) route_loop.simps) (auto split: list.splits)
  show ?case
  proof (cases "ttype t \<noteq> AT")
    case True
    with "1.prems" tnx show ?thesis
      by (subst (asm) route_loop.simps) auto
  next
    case at: False
    with "1.prems" tnx obtain r where r: "match_domain nx = Inr r" and okr: "ok r"
      and rec: "route_loop (rnext r) (count + 1) (str @ ''@'' @ rstr r) (comment @ rcomment r)
                = Inr (Some (node', n', s', c'))"
      by (subst (asm) route_loop.simps) (auto split: sum.splits if_splits)
    have ih: "suffix node' (rnext r)" "node' \<noteq> []"
      using "1.IH" [OF tnx _ r _ rec] at okr by simp_all
    from advanced_domain [OF r] okr have "strict_suffix (rnext r) nx"
      by (auto simp: advanced_def)
    then have "suffix (rnext r) node"
      using tnx by (auto simp: strict_suffix_def intro: suffix_ConsI)
    with ih show ?thesis by (blast intro: suffix_order.trans)
  qed
qed

lemma advanced_route:
  assumes "match_route node = Inr r"
  shows "advanced node r"
proof (cases "r = FAILED")
  case True
  then show ?thesis by simp
next
  case False
  with assms obtain n1 cnt s c n2 c2 t nx
    where l: "route_loop node 0 [] [] = Inr (Some (n1, cnt, s, c))"
      and sk: "skipcomment n1 c = Inr (n2, c2)" and n2: "n2 = t # nx" and r: "rnext r = nx"
    by (auto simp: match_route_def split: sum.splits option.splits list.splits if_splits)
  from sk n2 have "strict_suffix nx n1"
    by (auto dest!: skipcomment_suffix suffix_ConsD')
  with route_loop_suffix [OF l] r show ?thesis
    by (auto simp: advanced_def intro: suffix_order.strict_trans2)
qed

lemma advanced_word: "match_word node = Inr r \<Longrightarrow> advanced node r"
  by (auto simp: match_word_def advanced_def
      split: sum.splits list.splits if_splits dest!: skipcomment_suffix suffix_ConsD')


text \<open>The loop of \<^verbatim>\<open>match_local_part\<close>, on the result \<open>r\<close> it updates.\<close>

function local_part_loop :: "result \<Rightarrow> fault + result" where
  "local_part_loop r =
     (case skipcomment (rnext r) (rcomment r) of
        Inl e \<Rightarrow> Inl e
      | Inr (node, comment) \<Rightarrow>
          (case node of
             [] \<Rightarrow> Inl NullDeref
           | t # nx \<Rightarrow>
               if ttype t \<noteq> PERIOD then Inr (r\<lparr>rnext := node, rcomment := comment\<rparr>)
               else
                 (case match_word nx of
                    Inl e \<Rightarrow> Inl e
                  | Inr r1 \<Rightarrow>
                      if \<not> ok r1 then Inr (r\<lparr>rnext := node, rcomment := comment\<rparr>)
                      else local_part_loop
                        (r\<lparr>rnext := rnext r1,
                           rstr := rstr r @ ''.'' @ rstr r1,
                           rcomment := comment @ rcomment r1,
                           raddr := raddr r @ ''.'' @ raddr r1\<rparr>))))"
  by pat_completeness auto
termination
proof (relation "measure (\<lambda>r. length (rnext r))", goal_cases)
  case 1
  then show ?case by simp
next
  case (2 r x node comment t nx r1)
  then have "length (t # nx) \<le> length (rnext r)"
    using skipcomment_length [of "rnext r" "rcomment r" "t # nx" comment] by simp
  moreover have "length (rnext r1) < length nx"
    using 2 advanced_word [of nx r1] by (auto dest: advanced_length)
  ultimately show ?case by simp
qed

declare local_part_loop.simps [simp del]

definition match_local_part :: "token list \<Rightarrow> fault + result" where
  "match_local_part node =
     (case match_word node of
        Inl e \<Rightarrow> Inl e
      | Inr r \<Rightarrow> if \<not> ok r then Inr FAILED else local_part_loop r)"

lemma local_part_loop_suffix:
  "local_part_loop r = Inr r' \<Longrightarrow> suffix (rnext r') (rnext r) \<and> ok r'"
proof (induction r rule: local_part_loop.induct)
  case (1 r)
  from "1.prems" obtain node cm where sk: "skipcomment (rnext r) (rcomment r) = Inr (node, cm)"
    by (subst (asm) local_part_loop.simps) (auto split: sum.splits)
  then have node: "suffix node (rnext r)" "node \<noteq> []"
    by (auto dest: skipcomment_suffix)
  then obtain t nx where tnx: "node = t # nx" by (cases node) auto
  show ?case
  proof (cases "ttype t \<noteq> PERIOD")
    case True
    with "1.prems" sk tnx have "r' = r\<lparr>rnext := node, rcomment := cm\<rparr>"
      by (subst (asm) local_part_loop.simps) simp
    with node show ?thesis by (simp add: ok_def)
  next
    case period: False
    with "1.prems" sk tnx obtain r1 where r1: "match_word nx = Inr r1"
      by (subst (asm) local_part_loop.simps) (auto split: sum.splits)
    show ?thesis
    proof (cases "ok r1")
      case False
      with "1.prems" sk tnx r1 period have "r' = r\<lparr>rnext := node, rcomment := cm\<rparr>"
        by (subst (asm) local_part_loop.simps) simp
      with node show ?thesis by (simp add: ok_def)
    next
      case True
      let ?r = "r\<lparr>rnext := rnext r1,
                   rstr := rstr r @ ''.'' @ rstr r1,
                   rcomment := cm @ rcomment r1,
                   raddr := raddr r @ ''.'' @ raddr r1\<rparr>"
      from "1.prems" sk tnx r1 True period
      have rec: "local_part_loop ?r = Inr r'"
        by (subst (asm) local_part_loop.simps) simp
      have ih: "suffix (rnext r') (rnext r1)" "ok r'"
        using "1.IH" [OF sk refl tnx _ r1 _ rec] True period by simp_all
      from advanced_word [OF r1] True have "strict_suffix (rnext r1) nx"
        by (auto simp: advanced_def)
      then have "suffix (rnext r1) node"
        using tnx by (auto simp: strict_suffix_def intro: suffix_ConsI)
      with ih node show ?thesis by (blast intro: suffix_order.trans)
    qed
  qed
qed

lemma advanced_local_part:
  assumes "match_local_part node = Inr r"
  shows "advanced node r"
proof -
  from assms obtain r0 where r0: "match_word node = Inr r0"
    by (auto simp: match_local_part_def split: sum.splits)
  show ?thesis
  proof (cases "ok r0")
    case False
    with assms r0 show ?thesis by (simp add: match_local_part_def)
  next
    case True
    with assms r0 have l: "local_part_loop r0 = Inr r"
      by (auto simp: match_local_part_def)
    from advanced_word [OF r0] True have "strict_suffix (rnext r0) node"
      by (auto simp: advanced_def)
    with local_part_loop_suffix [OF l] show ?thesis
      by (auto simp: advanced_def intro: suffix_order.strict_trans1)
  qed
qed

text \<open>
  The loop of \<^verbatim>\<open>match_addr_spec\<close>, on the result \<open>r\<close> and the local \<open>domain\<close>.
  \<^verbatim>\<open>!!domain\<close> holds of a \<^verbatim>\<open>mystring\<close> that is not empty.
\<close>

function addr_spec_loop :: "result \<Rightarrow> string \<Rightarrow> fault + (result \<times> string)" where
  "addr_spec_loop r domain =
     (case skipcomment (rnext r) (rcomment r) of
        Inl e \<Rightarrow> Inl e
      | Inr (node, comment) \<Rightarrow>
          (case node of
             [] \<Rightarrow> Inl NullDeref
           | t # nx \<Rightarrow>
               if ttype t \<noteq> AT then Inr (r\<lparr>rnext := node, rcomment := comment\<rparr>, domain)
               else
                 (case match_domain nx of
                    Inl e \<Rightarrow> Inl e
                  | Inr r2 \<Rightarrow>
                      if \<not> ok r2 then Inr (r\<lparr>rnext := node, rcomment := comment\<rparr>, domain)
                      else addr_spec_loop
                        (r\<lparr>rnext := rnext r2,
                           rstr := (if domain \<noteq> [] then rstr r @ ''@'' @ domain else rstr r),
                           rcomment := comment @ rcomment r2,
                           raddr := (if domain \<noteq> [] then raddr r @ ''@'' @ domain else raddr r)\<rparr>)
                        (raddr r2))))"
  by pat_completeness auto
termination
proof (relation "measure (\<lambda>(r, domain). length (rnext r))", goal_cases)
  case 1
  then show ?case by simp
next
  case (2 r domain x node comment t nx r2)
  then have "length (t # nx) \<le> length (rnext r)"
    using skipcomment_length [of "rnext r" "rcomment r" "t # nx" comment] by simp
  moreover have "length (rnext r2) < length nx"
    using 2 advanced_domain [of nx r2] by (auto dest: advanced_length)
  ultimately show ?case by simp
qed

declare addr_spec_loop.simps [simp del]

text \<open>
  The parameter \<open>canon\<close> is \<^verbatim>\<open>canonicalize\<close> of \<^verbatim>\<open>canonicalize.h\<close> (not among the
  sources), which rewrites the domain in place and always returns.
\<close>

definition match_addr_spec :: "(string \<Rightarrow> string) \<Rightarrow> token list \<Rightarrow> fault + result" where
  "match_addr_spec canon node =
     (case match_local_part node of
        Inl e \<Rightarrow> Inl e
      | Inr r0 \<Rightarrow>
          if \<not> ok r0 then Inr FAILED
          else
            (case addr_spec_loop r0 [] of
               Inl e \<Rightarrow> Inl e
             | Inr (r, domain) \<Rightarrow>
                 Inr \<lparr>rnext = rnext r,
                      rstr = rstr r @ ''@'' @ canon domain,
                      rcomment = rcomment r,
                      raddr = raddr r @ ''@'' @ canon domain @ [CHR 0x0A]\<rparr>))"

lemma addr_spec_loop_suffix:
  "addr_spec_loop r d = Inr (r', d') \<Longrightarrow> suffix (rnext r') (rnext r) \<and> ok r'"
proof (induction r d rule: addr_spec_loop.induct)
  case (1 r domain)
  from "1.prems" obtain node cm where sk: "skipcomment (rnext r) (rcomment r) = Inr (node, cm)"
    by (subst (asm) addr_spec_loop.simps) (auto split: sum.splits)
  then have node: "suffix node (rnext r)" "node \<noteq> []"
    by (auto dest: skipcomment_suffix)
  then obtain t nx where tnx: "node = t # nx" by (cases node) auto
  show ?case
  proof (cases "ttype t \<noteq> AT")
    case True
    with "1.prems" sk tnx have "r' = r\<lparr>rnext := node, rcomment := cm\<rparr>"
      by (subst (asm) addr_spec_loop.simps) simp
    with node show ?thesis by (simp add: ok_def)
  next
    case at: False
    with "1.prems" sk tnx obtain r2 where r2: "match_domain nx = Inr r2"
      by (subst (asm) addr_spec_loop.simps) (auto split: sum.splits)
    show ?thesis
    proof (cases "ok r2")
      case False
      with "1.prems" sk tnx r2 at have "r' = r\<lparr>rnext := node, rcomment := cm\<rparr>"
        by (subst (asm) addr_spec_loop.simps) simp
      with node show ?thesis by (simp add: ok_def)
    next
      case True
      let ?r = "r\<lparr>rnext := rnext r2,
                   rstr := (if domain \<noteq> [] then rstr r @ ''@'' @ domain else rstr r),
                   rcomment := cm @ rcomment r2,
                   raddr := (if domain \<noteq> [] then raddr r @ ''@'' @ domain else raddr r)\<rparr>"
      from "1.prems" sk tnx r2 True at
      have rec: "addr_spec_loop ?r (raddr r2) = Inr (r', d')"
        by (subst (asm) addr_spec_loop.simps) simp
      have ih: "suffix (rnext r') (rnext r2)" "ok r'"
        using "1.IH" [OF sk refl tnx _ r2 _ rec] True at by simp_all
      from advanced_domain [OF r2] True have "strict_suffix (rnext r2) nx"
        by (auto simp: advanced_def)
      then have "suffix (rnext r2) node"
        using tnx by (auto simp: strict_suffix_def intro: suffix_ConsI)
      with ih node show ?thesis by (blast intro: suffix_order.trans)
    qed
  qed
qed

lemma advanced_addr_spec:
  assumes "match_addr_spec canon node = Inr r"
  shows "advanced node r"
proof -
  from assms obtain r0 where r0: "match_local_part node = Inr r0"
    by (auto simp: match_addr_spec_def split: sum.splits)
  show ?thesis
  proof (cases "ok r0")
    case False
    with assms r0 show ?thesis by (simp add: match_addr_spec_def)
  next
    case True
    with assms r0 obtain r' d where l: "addr_spec_loop r0 [] = Inr (r', d)"
      and r: "rnext r = rnext r'"
      by (auto simp: match_addr_spec_def split: sum.splits)
    from advanced_local_part [OF r0] True have "strict_suffix (rnext r0) node"
      by (auto simp: advanced_def)
    with addr_spec_loop_suffix [OF l] r show ?thesis
      by (auto simp: advanced_def intro: suffix_order.strict_trans1)
  qed
qed


definition match_route_addr :: "(string \<Rightarrow> string) \<Rightarrow> token list \<Rightarrow> fault + result" where
  "match_route_addr canon node0 =
     (case skipcomment node0 [] of
        Inl e \<Rightarrow> Inl e
      | Inr (node1, comment1) \<Rightarrow>
          (case node1 of
             [] \<Rightarrow> Inl NullDeref
           | t # node2 \<Rightarrow>
               if ttype t \<noteq> LABRACKET then Inr FAILED
               else
                 (case match_route node2 of
                    Inl e \<Rightarrow> Inl e
                  | Inr r1 \<Rightarrow>
                      let node3 = (if ok r1 then rnext r1 else node2);
                          comment2 = comment1 @ rcomment r1
                      in
                        (case match_addr_spec canon node3 of
                           Inl e \<Rightarrow> Inl e
                         | Inr r2 \<Rightarrow>
                             if \<not> ok r2 then Inr FAILED
                             else
                               (case skipcomment (rnext r2) (comment2 @ rcomment r2) of
                                  Inl e \<Rightarrow> Inl e
                                | Inr (node4, comment3) \<Rightarrow>
                                    (case node4 of
                                       [] \<Rightarrow> Inl NullDeref
                                     | t' # node5 \<Rightarrow>
                                         if ttype t' \<noteq> RABRACKET then Inr FAILED
                                         else Inr \<lparr>rnext = node5,
                                                   rstr = ''<'' @ rstr r2 @ ''>'' @ comment3,
                                                   rcomment = [],
                                                   raddr = raddr r2\<rparr>))))))"

text \<open>The loop of \<^verbatim>\<open>match_phrase\<close>, on the result \<open>r1\<close> it updates.\<close>

function phrase_loop :: "result \<Rightarrow> fault + result" where
  "phrase_loop r1 =
     (case match_word (rnext r1) of
        Inl e \<Rightarrow> Inl e
      | Inr r2 \<Rightarrow>
          if \<not> ok r2 then Inr r1
          else phrase_loop
            (r1\<lparr>rnext := rnext r2,
                rstr := rstr r1 @ '' '' @ rstr r2,
                rcomment := rcomment r1 @ rcomment r2\<rparr>))"
  by pat_completeness auto
termination
proof (relation "measure (\<lambda>r. length (rnext r))", goal_cases)
  case 1
  then show ?case by simp
next
  case (2 r1 r2)
  then show ?case
    using advanced_word [of "rnext r1" r2] by (auto dest: advanced_length)
qed

declare phrase_loop.simps [simp del]

definition match_phrase :: "token list \<Rightarrow> fault + result" where
  "match_phrase node =
     (case match_word node of
        Inl e \<Rightarrow> Inl e
      | Inr r1 \<Rightarrow> if \<not> ok r1 then Inr FAILED else phrase_loop r1)"

definition match_route_spec :: "(string \<Rightarrow> string) \<Rightarrow> token list \<Rightarrow> fault + result" where
  "match_route_spec canon node =
     (case match_phrase node of
        Inl e \<Rightarrow> Inl e
      | Inr r1 \<Rightarrow>
          (case match_route_addr canon (if ok r1 then rnext r1 else node) of
             Inl e \<Rightarrow> Inl e
           | Inr r2 \<Rightarrow>
               if \<not> ok r2 then Inr FAILED
               else if \<not> ok r1 then Inr r2
               else Inr (r2\<lparr>rstr := rstr r1 @ rcomment r1 @ '' '' @ rstr r2 @ rcomment r2\<rparr>)))"

text \<open>\<^verbatim>\<open>OR_RULE(route_spec, addr_spec)\<close>.\<close>

definition match_mailbox :: "(string \<Rightarrow> string) \<Rightarrow> token list \<Rightarrow> fault + result" where
  "match_mailbox canon node =
     (case match_route_spec canon node of
        Inl e \<Rightarrow> Inl e
      | Inr r \<Rightarrow>
          if ok r then Inr r
          else
            (case match_addr_spec canon node of
               Inl e \<Rightarrow> Inl e
             | Inr r' \<Rightarrow> if ok r' then Inr r' else Inr FAILED))"

lemma advanced_route_addr:
  assumes "match_route_addr canon node = Inr r"
  shows "advanced node r"
proof (cases "r = FAILED")
  case True
  then show ?thesis by simp
next
  case False
  with assms obtain n1 c1 t n2 r1 r2 n4 c3 t' n5
    where sk1: "skipcomment node [] = Inr (n1, c1)" and n1: "n1 = t # n2"
      and r1: "match_route n2 = Inr r1"
      and r2: "match_addr_spec canon (if ok r1 then rnext r1 else n2) = Inr r2" and okr2: "ok r2"
      and sk2: "skipcomment (rnext r2) (c1 @ rcomment r1 @ rcomment r2) = Inr (n4, c3)"
      and n4: "n4 = t' # n5" and r: "rnext r = n5"
    by (auto simp: match_route_addr_def Let_def
        split: sum.splits list.splits if_splits)
  from sk1 n1 have a: "strict_suffix n2 node"
    by (auto dest!: skipcomment_suffix suffix_ConsD')
  have b: "suffix (if ok r1 then rnext r1 else n2) n2"
    using advanced_route [OF r1] by (auto simp: advanced_def strict_suffix_def)
  from advanced_addr_spec [OF r2] okr2
  have c: "strict_suffix (rnext r2) (if ok r1 then rnext r1 else n2)"
    by (auto simp: advanced_def)
  from sk2 n4 have d: "strict_suffix n5 (rnext r2)"
    by (auto dest!: skipcomment_suffix suffix_ConsD')
  from a b c d have "strict_suffix n5 node"
    by (meson suffix_order.strict_trans suffix_order.strict_trans2)
  with r show ?thesis by (simp add: advanced_def)
qed

lemma phrase_loop_suffix:
  "phrase_loop r = Inr r' \<Longrightarrow> ok r \<Longrightarrow> suffix (rnext r') (rnext r) \<and> ok r'"
proof (induction r rule: phrase_loop.induct)
  case (1 r1)
  from "1.prems" obtain r2 where r2: "match_word (rnext r1) = Inr r2"
    by (subst (asm) phrase_loop.simps) (auto split: sum.splits)
  show ?case
  proof (cases "ok r2")
    case False
    with "1.prems" r2 have "r' = r1"
      by (subst (asm) phrase_loop.simps) simp
    with "1.prems" show ?thesis by simp
  next
    case True
    let ?r = "r1\<lparr>rnext := rnext r2,
                  rstr := rstr r1 @ '' '' @ rstr r2,
                  rcomment := rcomment r1 @ rcomment r2\<rparr>"
    from "1.prems" r2 True have rec: "phrase_loop ?r = Inr r'"
      by (subst (asm) phrase_loop.simps) simp
    have "ok ?r" using True by (simp add: ok_def)
    then have ih: "suffix (rnext r') (rnext r2)" "ok r'"
      using "1.IH" [OF r2 _ rec] True by simp_all
    from advanced_word [OF r2] True have "suffix (rnext r2) (rnext r1)"
      by (auto simp: advanced_def strict_suffix_def)
    with ih show ?thesis by (blast intro: suffix_order.trans)
  qed
qed

lemma advanced_phrase:
  assumes "match_phrase node = Inr r"
  shows "advanced node r"
proof -
  from assms obtain r0 where r0: "match_word node = Inr r0"
    by (auto simp: match_phrase_def split: sum.splits)
  show ?thesis
  proof (cases "ok r0")
    case False
    with assms r0 show ?thesis by (simp add: match_phrase_def)
  next
    case True
    with assms r0 have l: "phrase_loop r0 = Inr r"
      by (auto simp: match_phrase_def)
    from advanced_word [OF r0] True have "strict_suffix (rnext r0) node"
      by (auto simp: advanced_def)
    with phrase_loop_suffix [OF l True] show ?thesis
      by (auto simp: advanced_def intro: suffix_order.strict_trans1)
  qed
qed

lemma advanced_route_spec:
  assumes "match_route_spec canon node = Inr r"
  shows "advanced node r"
proof (cases "r = FAILED")
  case True
  then show ?thesis by simp
next
  case False
  with assms obtain r1 r2
    where r1: "match_phrase node = Inr r1"
      and r2: "match_route_addr canon (if ok r1 then rnext r1 else node) = Inr r2"
      and okr2: "ok r2" and r: "rnext r = rnext r2"
    by (auto simp: match_route_spec_def split: sum.splits if_splits)
  have "suffix (if ok r1 then rnext r1 else node) node"
    using advanced_phrase [OF r1] by (auto simp: advanced_def strict_suffix_def)
  moreover from advanced_route_addr [OF r2] okr2
  have "strict_suffix (rnext r2) (if ok r1 then rnext r1 else node)"
    by (auto simp: advanced_def)
  ultimately have "strict_suffix (rnext r2) node"
    by (rule suffix_order.strict_trans2 [rotated])
  with r show ?thesis by (simp add: advanced_def)
qed

lemma advanced_mailbox: "match_mailbox canon node = Inr r \<Longrightarrow> advanced node r"
  by (auto simp: match_mailbox_def split: sum.splits if_splits
      dest: advanced_route_spec advanced_addr_spec)


text \<open>
  The inner loop of \<^verbatim>\<open>match_mailboxes\<close> and \<^verbatim>\<open>match_addresses\<close>: comments, whose text
  goes to the display string, and commas.
\<close>

function comma_loop :: "token list \<Rightarrow> string \<Rightarrow> fault + (token list \<times> string)" where
  "comma_loop node str =
     (case skipcomment node str of
        Inl e \<Rightarrow> Inl e
      | Inr (node', str') \<Rightarrow>
          (case node' of
             [] \<Rightarrow> Inl NullDeref
           | t # nx \<Rightarrow>
               if ttype t = COMMA then comma_loop nx str' else Inr (node', str')))"
  by pat_completeness auto
termination
proof (relation "measure (\<lambda>(node, str). length node)", goal_cases)
  case 1
  then show ?case by simp
next
  case (2 node str x node' str' t nx)
  then show ?case
    using skipcomment_length [of node str "t # nx" str'] by simp
qed

declare comma_loop.simps [simp del]

lemma comma_loop_suffix:
  "comma_loop node s = Inr (node', s') \<Longrightarrow> suffix node' node \<and> node' \<noteq> []"
proof (induction node s rule: comma_loop.induct)
  case (1 node str)
  from "1.prems" obtain n1 s1 where sk: "skipcomment node str = Inr (n1, s1)"
    by (subst (asm) comma_loop.simps) (auto split: sum.splits)
  then have n1: "suffix n1 node" "n1 \<noteq> []"
    by (auto dest: skipcomment_suffix)
  then obtain t nx where tnx: "n1 = t # nx" by (cases n1) auto
  show ?case
  proof (cases "ttype t = COMMA")
    case False
    with "1.prems" sk tnx have "node' = n1"
      by (subst (asm) comma_loop.simps) simp
    with n1 show ?thesis by simp
  next
    case True
    with "1.prems" sk tnx have rec: "comma_loop nx s1 = Inr (node', s')"
      by (subst (asm) comma_loop.simps) simp
    have ih: "suffix node' nx" "node' \<noteq> []"
      using "1.IH" [OF sk refl tnx True rec] by simp_all
    from n1 tnx have "suffix nx node"
      by (auto dest: suffix_ConsD)
    with ih show ?thesis by (blast intro: suffix_order.trans)
  qed
qed

text \<open>
  The outer loop of \<^verbatim>\<open>match_mailboxes\<close>, on the result \<open>r1\<close>; it ends with \<open>r1\<close> and
  the cursor \<open>node\<close>.
\<close>

function mailboxes_loop ::
  "(string \<Rightarrow> string) \<Rightarrow> result \<Rightarrow> fault + (result \<times> token list)" where
  "mailboxes_loop canon r1 =
     (case comma_loop (rnext r1) (rstr r1) of
        Inl e \<Rightarrow> Inl e
      | Inr (node, str) \<Rightarrow>
          (case node of
             [] \<Rightarrow> Inl NullDeref
           | t # nx \<Rightarrow>
               if ttype t = EOT then Inr (r1\<lparr>rstr := str\<rparr>, node)
               else
                 (case match_mailbox canon node of
                    Inl e \<Rightarrow> Inl e
                  | Inr r2 \<Rightarrow>
                      if \<not> ok r2 then Inr (r1\<lparr>rstr := str\<rparr>, node)
                      else mailboxes_loop canon
                        (r1\<lparr>rnext := rnext r2,
                            rstr := str @ '', '' @ rstr r2 @ rcomment r2,
                            raddr := raddr r1 @ raddr r2\<rparr>))))"
  by pat_completeness auto
termination
proof (relation "measure (\<lambda>(canon, r). length (rnext r))", goal_cases)
  case 1
  then show ?case by simp
next
  case (2 canon r1 x node str t nx r2)
  then have "length node \<le> length (rnext r1)"
    using comma_loop_suffix [of "rnext r1" "rstr r1" node str] by (auto dest: suffix_length_le)
  moreover have "length (rnext r2) < length node"
    using 2 advanced_mailbox [of canon node r2] by (auto dest: advanced_length)
  ultimately show ?case by simp
qed

declare mailboxes_loop.simps [simp del]

definition match_mailboxes :: "(string \<Rightarrow> string) \<Rightarrow> token list \<Rightarrow> fault + result" where
  "match_mailboxes canon node0 =
     (case match_mailbox canon node0 of
        Inl e \<Rightarrow> Inl e
      | Inr r0 \<Rightarrow>
          if \<not> ok r0 then Inr FAILED
          else
            (case mailboxes_loop canon (r0\<lparr>rstr := rstr r0 @ rcomment r0, rcomment := []\<rparr>) of
               Inl e \<Rightarrow> Inl e
             | Inr (r1, node) \<Rightarrow>
                 (case skipcomment node (rstr r1) of
                    Inl e \<Rightarrow> Inl e
                  | Inr (node', str) \<Rightarrow> Inr (r1\<lparr>rnext := node', rstr := str\<rparr>))))"

definition match_group :: "(string \<Rightarrow> string) \<Rightarrow> token list \<Rightarrow> fault + result" where
  "match_group canon node0 =
     (case match_phrase node0 of
        Inl e \<Rightarrow> Inl e
      | Inr r1 \<Rightarrow>
          if \<not> ok r1 then Inr FAILED
          else
            (case rnext r1 of
               [] \<Rightarrow> Inl NullDeref
             | t # node1 \<Rightarrow>
                 if ttype t \<noteq> COLON then Inr FAILED
                 else
                   (case match_mailboxes canon node1 of
                      Inl e \<Rightarrow> Inl e
                    | Inr r2 \<Rightarrow>
                        (case skipcomment (if ok r2 then rnext r2 else node1) [] of
                           Inl e \<Rightarrow> Inl e
                         | Inr (node2, comment) \<Rightarrow>
                             (case node2 of
                                [] \<Rightarrow> Inl NullDeref
                              | t' # node3 \<Rightarrow>
                                  if ttype t' \<noteq> SEMICOLON then Inr FAILED
                                  else Inr \<lparr>rnext = node3,
                                            rstr = rstr r1 @ '': '' @ rstr r2 @ rcomment r2
                                                   @ comment @ '';'',
                                            rcomment = [],
                                            raddr = raddr r2\<rparr>)))))"

text \<open>\<^verbatim>\<open>OR_RULE(group, mailbox)\<close>.\<close>

definition match_address :: "(string \<Rightarrow> string) \<Rightarrow> token list \<Rightarrow> fault + result" where
  "match_address canon node =
     (case match_group canon node of
        Inl e \<Rightarrow> Inl e
      | Inr r \<Rightarrow>
          if ok r then Inr r
          else
            (case match_mailbox canon node of
               Inl e \<Rightarrow> Inl e
             | Inr r' \<Rightarrow> if ok r' then Inr r' else Inr FAILED))"


lemma mailboxes_loop_suffix:
  "mailboxes_loop canon r = Inr (r', node') \<Longrightarrow>
     suffix node' (rnext r) \<and> node' \<noteq> [] \<and> suffix (rnext r') (rnext r) \<and> (ok r \<longrightarrow> ok r')"
proof (induction canon r rule: mailboxes_loop.induct)
  case (1 canon r1)
  from "1.prems" obtain node s1 where cl: "comma_loop (rnext r1) (rstr r1) = Inr (node, s1)"
    by (subst (asm) mailboxes_loop.simps) (auto split: sum.splits)
  then have node: "suffix node (rnext r1)" "node \<noteq> []"
    by (auto dest: comma_loop_suffix)
  then obtain t nx where tnx: "node = t # nx" by (cases node) auto
  show ?case
  proof (cases "ttype t = EOT")
    case True
    with "1.prems" cl tnx have "r' = r1\<lparr>rstr := s1\<rparr>" "node' = node"
      by (subst (asm) mailboxes_loop.simps, simp)+
    with node show ?thesis by (simp add: ok_def)
  next
    case noteot: False
    with "1.prems" cl tnx obtain r2 where r2: "match_mailbox canon node = Inr r2"
      by (subst (asm) mailboxes_loop.simps) (auto split: sum.splits)
    show ?thesis
    proof (cases "ok r2")
      case False
      with "1.prems" cl tnx r2 noteot have "r' = r1\<lparr>rstr := s1\<rparr>" "node' = node"
        by (subst (asm) mailboxes_loop.simps, simp)+
      with node show ?thesis by (simp add: ok_def)
    next
      case True
      let ?r = "r1\<lparr>rnext := rnext r2,
                    rstr := s1 @ '', '' @ rstr r2 @ rcomment r2,
                    raddr := raddr r1 @ raddr r2\<rparr>"
      from "1.prems" cl tnx r2 True noteot
      have rec: "mailboxes_loop canon ?r = Inr (r', node')"
        by (subst (asm) mailboxes_loop.simps) simp
      have ih: "suffix node' (rnext r2)" "node' \<noteq> []" "suffix (rnext r') (rnext r2)" "ok r'"
        using "1.IH" [OF cl refl tnx noteot _ _ rec] True r2 tnx by (simp_all add: ok_def)
      from advanced_mailbox [OF r2] True have "suffix (rnext r2) node"
        by (auto simp: advanced_def strict_suffix_def)
      with node have "suffix (rnext r2) (rnext r1)"
        by (blast intro: suffix_order.trans)
      with ih show ?thesis by (blast intro: suffix_order.trans)
    qed
  qed
qed

lemma advanced_mailboxes:
  assumes "match_mailboxes canon node = Inr r"
  shows "advanced node r"
proof -
  from assms obtain r0 where r0: "match_mailbox canon node = Inr r0"
    by (auto simp: match_mailboxes_def split: sum.splits)
  show ?thesis
  proof (cases "ok r0")
    case False
    with assms r0 show ?thesis by (simp add: match_mailboxes_def)
  next
    case True
    let ?r0 = "r0\<lparr>rstr := rstr r0 @ rcomment r0, rcomment := []\<rparr>"
    from True assms r0 obtain r1 n1 n2 s2
      where l: "mailboxes_loop canon ?r0 = Inr (r1, n1)"
        and sk: "skipcomment n1 (rstr r1) = Inr (n2, s2)" and r: "rnext r = n2"
      by (auto simp: match_mailboxes_def split: sum.splits)
    from advanced_mailbox [OF r0] True have "strict_suffix (rnext r0) node"
      by (auto simp: advanced_def)
    moreover from mailboxes_loop_suffix [OF l] have "suffix n1 (rnext r0)" by simp
    moreover from sk have "suffix n2 n1" by (auto dest: skipcomment_suffix)
    ultimately have "strict_suffix n2 node"
      by (meson suffix_order.strict_trans1 suffix_order.trans)
    with r show ?thesis by (simp add: advanced_def)
  qed
qed

lemma advanced_group:
  assumes "match_group canon node = Inr r"
  shows "advanced node r"
proof (cases "r = FAILED")
  case True
  then show ?thesis by simp
next
  case False
  with assms obtain r1 t n1 r2 n2 c t' n3
    where r1: "match_phrase node = Inr r1" and okr1: "ok r1" and n1: "rnext r1 = t # n1"
      and r2: "match_mailboxes canon n1 = Inr r2"
      and sk: "skipcomment (if ok r2 then rnext r2 else n1) [] = Inr (n2, c)"
      and n2: "n2 = t' # n3" and r: "rnext r = n3"
    by (auto simp: match_group_def split: sum.splits list.splits if_splits)
  from advanced_phrase [OF r1] okr1 n1 have "suffix (t # n1) node"
    by (auto simp: advanced_def strict_suffix_def)
  then have a: "strict_suffix n1 node"
    by (rule suffix_ConsD')
  have b: "suffix (if ok r2 then rnext r2 else n1) n1"
    using advanced_mailboxes [OF r2] by (auto simp: advanced_def strict_suffix_def)
  from sk n2 have c: "strict_suffix n3 (if ok r2 then rnext r2 else n1)"
    by (auto dest!: skipcomment_suffix suffix_ConsD')
  from a b c have "strict_suffix n3 node"
    by (meson suffix_order.strict_trans suffix_order.strict_trans2)
  with r show ?thesis by (simp add: advanced_def)
qed

lemma advanced_address: "match_address canon node = Inr r \<Longrightarrow> advanced node r"
  by (auto simp: match_address_def split: sum.splits if_splits
      dest: advanced_group advanced_mailbox)

text \<open>The outer loop of \<^verbatim>\<open>match_addresses\<close>.\<close>

function addresses_loop ::
  "(string \<Rightarrow> string) \<Rightarrow> result \<Rightarrow> fault + (result \<times> token list)" where
  "addresses_loop canon r1 =
     (case comma_loop (rnext r1) (rstr r1) of
        Inl e \<Rightarrow> Inl e
      | Inr (node, str) \<Rightarrow>
          (case node of
             [] \<Rightarrow> Inl NullDeref
           | t # nx \<Rightarrow>
               if ttype t = EOT then Inr (r1\<lparr>rstr := str\<rparr>, node)
               else
                 (case match_address canon node of
                    Inl e \<Rightarrow> Inl e
                  | Inr r2 \<Rightarrow>
                      if \<not> ok r2 then Inr (r1\<lparr>rstr := str\<rparr>, node)
                      else addresses_loop canon
                        (r1\<lparr>rnext := rnext r2,
                            rstr := str @ '', '' @ rstr r2 @ rcomment r2,
                            raddr := raddr r1 @ raddr r2\<rparr>))))"
  by pat_completeness auto
termination
proof (relation "measure (\<lambda>(canon, r). length (rnext r))", goal_cases)
  case 1
  then show ?case by simp
next
  case (2 canon r1 x node str t nx r2)
  then have "length node \<le> length (rnext r1)"
    using comma_loop_suffix [of "rnext r1" "rstr r1" node str] by (auto dest: suffix_length_le)
  moreover have "length (rnext r2) < length node"
    using 2 advanced_address [of canon node r2] by (auto dest: advanced_length)
  ultimately show ?case by simp
qed

declare addresses_loop.simps [simp del]

text \<open>
  After the loop the cursor must be on the last node of the chain
  (\<^verbatim>\<open>if(node->next) FAIL\<close>); the position of the result stays where the last
  address ended.
\<close>

definition match_addresses :: "(string \<Rightarrow> string) \<Rightarrow> token list \<Rightarrow> fault + result" where
  "match_addresses canon node0 =
     (case match_address canon node0 of
        Inl e \<Rightarrow> Inl e
      | Inr r0 \<Rightarrow>
          if \<not> ok r0 then Inr FAILED
          else
            (case addresses_loop canon (r0\<lparr>rstr := rstr r0 @ rcomment r0, rcomment := []\<rparr>) of
               Inl e \<Rightarrow> Inl e
             | Inr (r1, node) \<Rightarrow>
                 (case skipcomment node (rstr r1) of
                    Inl e \<Rightarrow> Inl e
                  | Inr (node', str) \<Rightarrow>
                      (case node' of
                         [] \<Rightarrow> Inl NullDeref
                       | t # nx \<Rightarrow>
                           if nx \<noteq> [] then Inr FAILED else Inr (r1\<lparr>rstr := str\<rparr>)))))"

subsection \<open>Entry point\<close>

text \<open>
  \<^verbatim>\<open>parse_addresses(line, list)\<close> updates its two reference parameters; the model
  returns the flag with their values at return.
\<close>

definition parse_addresses ::
  "(string \<Rightarrow> string) \<Rightarrow> string \<Rightarrow> string \<Rightarrow> fault + (bool \<times> string \<times> string)" where
  "parse_addresses canon line list =
     (case tokenize line of
        None \<Rightarrow> Inr (False, line, list)
      | Some tokenlist \<Rightarrow>
          (case match_addresses canon tokenlist of
             Inl e \<Rightarrow> Inl e
           | Inr r \<Rightarrow>
               if ok r then Inr (True, rstr r, raddr r) else Inr (False, line, list)))"


section \<open>Well-formed token chains\<close>

text \<open>
  The chain that \<^verbatim>\<open>tokenize\<close> builds is not empty and ends in the end marker, and
  the text of each of its quoted strings is one that \<^verbatim>\<open>unquote\<close> handles inside
  its buffers. On such a chain no rule dereferences the null pointer.
\<close>

lemma rnext_FAILED [simp]: "rnext FAILED = []"
  by (simp add: FAILED_def)

definition well_formed :: "token list \<Rightarrow> bool" where
  "well_formed node \<longleftrightarrow>
     node \<noteq> [] \<and> ttype (last node) = EOT \<and>
     (\<forall>t \<in> set node. ttype t = QUOTED_STRING \<longrightarrow> \<not> isl (unquote (tstr t)))"

lemma well_formed_suffix:
  "well_formed node \<Longrightarrow> suffix n node \<Longrightarrow> n \<noteq> [] \<Longrightarrow> well_formed n"
  by (auto simp: well_formed_def suffix_def)

lemma well_formed_tl:
  "well_formed (t # nx) \<Longrightarrow> ttype t \<noteq> EOT \<Longrightarrow> well_formed nx"
  by (cases nx) (auto simp: well_formed_def)

lemma well_formed_advanced:
  "well_formed node \<Longrightarrow> advanced node r \<Longrightarrow> r = FAILED \<or> ok r \<Longrightarrow>
     r = FAILED \<or> well_formed (rnext r)"
  by (auto simp: advanced_def ok_def strict_suffix_def intro: well_formed_suffix)

lemma well_formed_ok: "well_formed (rnext r) \<Longrightarrow> ok r"
  by (simp add: well_formed_def ok_def)

lemma skipcomment_wf:
  "well_formed node \<Longrightarrow> \<exists>n c'. skipcomment node c = Inr (n, c') \<and> well_formed n"
proof (induction node c rule: skipcomment.induct)
  case (1 comment)
  then show ?case by (simp add: well_formed_def)
next
  case (2 t ts comment)
  show ?case
  proof (cases "ttype t = COMMENT")
    case True
    with "2.prems" have "well_formed ts" by (auto intro: well_formed_tl)
    with "2.IH" True show ?thesis by simp
  next
    case False
    with "2.prems" show ?thesis by simp
  qed
qed

lemma skipcomment_deref:
  assumes "well_formed node"
  obtains t nx c' where "skipcomment node c = Inr (t # nx, c')" "well_formed (t # nx)"
proof -
  from skipcomment_wf [OF assms] obtain n c' where sk: "skipcomment node c = Inr (n, c')"
    and wf: "well_formed n" by blast
  then obtain t nx where "n = t # nx" by (cases n) (auto simp: well_formed_def)
  with sk wf that show thesis by blast
qed

lemma sub_domain_wf:
  assumes "well_formed node"
  shows "\<exists>r. match_sub_domain node = Inr r \<and> (r = FAILED \<or> well_formed (rnext r))"
proof -
  obtain t nx c where "skipcomment node [] = Inr (t # nx, c)" "well_formed (t # nx)"
    using assms by (rule skipcomment_deref)
  then show ?thesis
    by (auto simp: match_sub_domain_def intro: well_formed_tl)
qed

lemma domain_loop_wf:
  "well_formed (rnext r) \<Longrightarrow> \<exists>r' c'. domain_loop r c = Inr (r', c')"
proof (induction r c rule: domain_loop.induct)
  case (1 r comment)
  obtain t nx cm where sk: "skipcomment (rnext r) comment = Inr (t # nx, cm)"
    and wf: "well_formed (t # nx)"
    using "1.prems" by (rule skipcomment_deref)
  show ?case
  proof (cases "ttype t \<noteq> PERIOD")
    case True
    with sk show ?thesis by (subst domain_loop.simps) simp
  next
    case period: False
    with wf have "well_formed nx" by (auto intro: well_formed_tl)
    from sub_domain_wf [OF this] obtain r1 where r1: "match_sub_domain nx = Inr r1"
      and r1wf: "r1 = FAILED \<or> well_formed (rnext r1)" by blast
    show ?thesis
    proof (cases "ok r1")
      case False
      with sk r1 period show ?thesis by (subst domain_loop.simps) simp
    next
      case True
      with r1wf have "well_formed (rnext r1)" by auto
      with "1.IH" [OF sk refl refl _ r1] True period sk r1 show ?thesis
        by (subst domain_loop.simps) simp
    qed
  qed
qed

lemma domain_wf:
  assumes "well_formed node"
  shows "\<exists>r. match_domain node = Inr r \<and> (r = FAILED \<or> well_formed (rnext r))"
proof -
  from sub_domain_wf [OF assms] obtain r0 where r0: "match_sub_domain node = Inr r0"
    and r0wf: "r0 = FAILED \<or> well_formed (rnext r0)" by blast
  show ?thesis
  proof (cases "ok r0")
    case False
    with r0 show ?thesis by (simp add: match_domain_def)
  next
    case True
    with r0wf have wf0: "well_formed (rnext r0)" by auto
    from domain_loop_wf [OF this] obtain r' c where l: "domain_loop r0 [] = Inr (r', c)"
      by blast
    from domain_loop_suffix [OF l] wf0 have "well_formed (rnext r')"
      by (auto simp: ok_def intro: well_formed_suffix)
    with r0 True l show ?thesis by (simp add: match_domain_def)
  qed
qed


lemma route_loop_wf:
  "well_formed node \<Longrightarrow> \<exists>x. route_loop node n s c = Inr x"
proof (induction node n s c rule: route_loop.induct)
  case (1 node count str comment)
  then obtain t nx where tnx: "node = t # nx" by (cases node) (auto simp: well_formed_def)
  show ?case
  proof (cases "ttype t \<noteq> AT")
    case True
    with tnx show ?thesis by (subst route_loop.simps) simp
  next
    case at: False
    with "1.prems" tnx have "well_formed nx" by (auto intro: well_formed_tl)
    from domain_wf [OF this] obtain r where r: "match_domain nx = Inr r"
      and rwf: "r = FAILED \<or> well_formed (rnext r)" by blast
    show ?thesis
    proof (cases "ok r")
      case False
      with tnx r at show ?thesis by (subst route_loop.simps) simp
    next
      case True
      with rwf have "well_formed (rnext r)" by auto
      with "1.IH" [OF tnx _ r] True at tnx r show ?thesis
        by (subst route_loop.simps) simp
    qed
  qed
qed

lemma route_wf:
  assumes "well_formed node"
  shows "\<exists>r. match_route node = Inr r \<and> (r = FAILED \<or> well_formed (rnext r))"
proof -
  from route_loop_wf [OF assms] obtain x where l: "route_loop node 0 [] [] = Inr x" by blast
  show ?thesis
  proof (cases x)
    case None
    with l show ?thesis by (simp add: match_route_def)
  next
    case (Some y)
    then obtain n1 cnt s c where y: "x = Some (n1, cnt, s, c)" by (cases y) auto
    from route_loop_suffix [OF l [unfolded y]] assms have "well_formed n1"
      by (auto intro: well_formed_suffix)
    then obtain t nx c' where "skipcomment n1 c = Inr (t # nx, c')" "well_formed (t # nx)"
      by (rule skipcomment_deref)
    with l y show ?thesis
      by (auto simp: match_route_def intro: well_formed_tl)
  qed
qed

lemma word_wf:
  assumes "well_formed node"
  shows "\<exists>r. match_word node = Inr r \<and> (r = FAILED \<or> well_formed (rnext r))"
proof -
  obtain t nx c where sk: "skipcomment node [] = Inr (t # nx, c)" and wf: "well_formed (t # nx)"
    using assms by (rule skipcomment_deref)
  show ?thesis
  proof (cases "ttype t = QUOTED_STRING")
    case True
    with wf obtain a where "unquote (tstr t) = Inr a"
      by (cases "unquote (tstr t)") (auto simp: well_formed_def)
    with sk wf True show ?thesis
      by (auto simp: match_word_def intro: well_formed_tl)
  next
    case False
    with sk wf show ?thesis
      by (auto simp: match_word_def intro: well_formed_tl)
  qed
qed

lemma local_part_loop_wf:
  "well_formed (rnext r) \<Longrightarrow> \<exists>r'. local_part_loop r = Inr r'"
proof (induction r rule: local_part_loop.induct)
  case (1 r)
  obtain t nx cm where sk: "skipcomment (rnext r) (rcomment r) = Inr (t # nx, cm)"
    and wf: "well_formed (t # nx)"
    using "1.prems" by (rule skipcomment_deref)
  show ?case
  proof (cases "ttype t \<noteq> PERIOD")
    case True
    with sk show ?thesis by (subst local_part_loop.simps) simp
  next
    case period: False
    with wf have "well_formed nx" by (auto intro: well_formed_tl)
    from word_wf [OF this] obtain r1 where r1: "match_word nx = Inr r1"
      and r1wf: "r1 = FAILED \<or> well_formed (rnext r1)" by blast
    show ?thesis
    proof (cases "ok r1")
      case False
      with sk r1 period show ?thesis by (subst local_part_loop.simps) simp
    next
      case True
      with r1wf have "well_formed (rnext r1)" by auto
      with "1.IH" [OF sk refl refl _ r1] True period sk r1 show ?thesis
        by (subst local_part_loop.simps) simp
    qed
  qed
qed

lemma local_part_wf:
  assumes "well_formed node"
  shows "\<exists>r. match_local_part node = Inr r \<and> (r = FAILED \<or> well_formed (rnext r))"
proof -
  from word_wf [OF assms] obtain r0 where r0: "match_word node = Inr r0"
    and r0wf: "r0 = FAILED \<or> well_formed (rnext r0)" by blast
  show ?thesis
  proof (cases "ok r0")
    case False
    with r0 show ?thesis by (simp add: match_local_part_def)
  next
    case True
    with r0wf have wf0: "well_formed (rnext r0)" by auto
    from local_part_loop_wf [OF this] obtain r' where l: "local_part_loop r0 = Inr r'"
      by blast
    from local_part_loop_suffix [OF l] wf0 have "well_formed (rnext r')"
      by (auto simp: ok_def intro: well_formed_suffix)
    with r0 True l show ?thesis by (simp add: match_local_part_def)
  qed
qed

lemma addr_spec_loop_wf:
  "well_formed (rnext r) \<Longrightarrow> \<exists>r' d'. addr_spec_loop r d = Inr (r', d')"
proof (induction r d rule: addr_spec_loop.induct)
  case (1 r domain)
  obtain t nx cm where sk: "skipcomment (rnext r) (rcomment r) = Inr (t # nx, cm)"
    and wf: "well_formed (t # nx)"
    using "1.prems" by (rule skipcomment_deref)
  show ?case
  proof (cases "ttype t \<noteq> AT")
    case True
    with sk show ?thesis by (subst addr_spec_loop.simps) simp
  next
    case at: False
    with wf have "well_formed nx" by (auto intro: well_formed_tl)
    from domain_wf [OF this] obtain r2 where r2: "match_domain nx = Inr r2"
      and r2wf: "r2 = FAILED \<or> well_formed (rnext r2)" by blast
    show ?thesis
    proof (cases "ok r2")
      case False
      with sk r2 at show ?thesis by (subst addr_spec_loop.simps) simp
    next
      case True
      with r2wf have "well_formed (rnext r2)" by auto
      with "1.IH" [OF sk refl refl _ r2] True at sk r2 show ?thesis
        by (subst addr_spec_loop.simps) simp
    qed
  qed
qed

lemma addr_spec_wf:
  assumes "well_formed node"
  shows "\<exists>r. match_addr_spec canon node = Inr r \<and> (r = FAILED \<or> well_formed (rnext r))"
proof -
  from local_part_wf [OF assms] obtain r0 where r0: "match_local_part node = Inr r0"
    and r0wf: "r0 = FAILED \<or> well_formed (rnext r0)" by blast
  show ?thesis
  proof (cases "ok r0")
    case False
    with r0 show ?thesis by (simp add: match_addr_spec_def)
  next
    case True
    with r0wf have wf0: "well_formed (rnext r0)" by auto
    from addr_spec_loop_wf [OF this] obtain r' d where l: "addr_spec_loop r0 [] = Inr (r', d)"
      by blast
    from addr_spec_loop_suffix [OF l] wf0 have "well_formed (rnext r')"
      by (auto simp: ok_def intro: well_formed_suffix)
    with r0 True l show ?thesis by (simp add: match_addr_spec_def)
  qed
qed

lemma route_addr_wf:
  assumes "well_formed node"
  shows "\<exists>r. match_route_addr canon node = Inr r \<and> (r = FAILED \<or> well_formed (rnext r))"
proof -
  obtain t n2 c1 where sk1: "skipcomment node [] = Inr (t # n2, c1)"
    and wf1: "well_formed (t # n2)"
    using assms by (rule skipcomment_deref)
  show ?thesis
  proof (cases "ttype t \<noteq> LABRACKET")
    case True
    with sk1 show ?thesis by (simp add: match_route_addr_def)
  next
    case la: False
    with wf1 have wf2: "well_formed n2" by (auto intro: well_formed_tl)
    from route_wf [OF this] obtain r1 where r1: "match_route n2 = Inr r1"
      and r1wf: "r1 = FAILED \<or> well_formed (rnext r1)" by blast
    let ?n3 = "if ok r1 then rnext r1 else n2"
    from r1wf wf2 have "well_formed ?n3" by auto
    from addr_spec_wf [OF this] obtain r2 where r2: "match_addr_spec canon ?n3 = Inr r2"
      and r2wf: "r2 = FAILED \<or> well_formed (rnext r2)" by blast
    show ?thesis
    proof (cases "ok r2")
      case False
      with sk1 la r1 r2 show ?thesis by (simp add: match_route_addr_def Let_def)
    next
      case True
      with r2wf have "well_formed (rnext r2)" by auto
      then obtain t' n5 c3
        where sk2: "skipcomment (rnext r2) ((c1 @ rcomment r1) @ rcomment r2) = Inr (t' # n5, c3)"
          and wf5: "well_formed (t' # n5)"
        by (rule skipcomment_deref)
      with sk1 la r1 r2 True show ?thesis
        by (auto simp: match_route_addr_def Let_def intro: well_formed_tl)
    qed
  qed
qed

lemma phrase_loop_wf:
  "well_formed (rnext r) \<Longrightarrow> \<exists>r'. phrase_loop r = Inr r'"
proof (induction r rule: phrase_loop.induct)
  case (1 r1)
  from word_wf [OF "1.prems"] obtain r2 where r2: "match_word (rnext r1) = Inr r2"
    and r2wf: "r2 = FAILED \<or> well_formed (rnext r2)" by blast
  show ?case
  proof (cases "ok r2")
    case False
    with r2 show ?thesis by (subst phrase_loop.simps) simp
  next
    case True
    with r2wf have "well_formed (rnext r2)" by auto
    with "1.IH" [OF r2] True r2 show ?thesis
      by (subst phrase_loop.simps) simp
  qed
qed

lemma phrase_wf:
  assumes "well_formed node"
  shows "\<exists>r. match_phrase node = Inr r \<and> (r = FAILED \<or> well_formed (rnext r))"
proof -
  from word_wf [OF assms] obtain r0 where r0: "match_word node = Inr r0"
    and r0wf: "r0 = FAILED \<or> well_formed (rnext r0)" by blast
  show ?thesis
  proof (cases "ok r0")
    case False
    with r0 show ?thesis by (simp add: match_phrase_def)
  next
    case True
    with r0wf have wf0: "well_formed (rnext r0)" by auto
    from phrase_loop_wf [OF this] obtain r' where l: "phrase_loop r0 = Inr r'"
      by blast
    from phrase_loop_suffix [OF l True] wf0 have "well_formed (rnext r')"
      by (auto simp: ok_def intro: well_formed_suffix)
    with r0 True l show ?thesis by (simp add: match_phrase_def)
  qed
qed

lemma route_spec_wf:
  assumes "well_formed node"
  shows "\<exists>r. match_route_spec canon node = Inr r \<and> (r = FAILED \<or> well_formed (rnext r))"
proof -
  from phrase_wf [OF assms] obtain r1 where r1: "match_phrase node = Inr r1"
    and r1wf: "r1 = FAILED \<or> well_formed (rnext r1)" by blast
  let ?n = "if ok r1 then rnext r1 else node"
  from r1wf assms have "well_formed ?n" by auto
  from route_addr_wf [OF this] obtain r2 where r2: "match_route_addr canon ?n = Inr r2"
    and r2wf: "r2 = FAILED \<or> well_formed (rnext r2)" by blast
  from r1 r2 r2wf show ?thesis
    by (auto simp: match_route_spec_def)
qed

lemma mailbox_wf:
  assumes "well_formed node"
  shows "\<exists>r. match_mailbox canon node = Inr r \<and> (r = FAILED \<or> well_formed (rnext r))"
proof -
  from route_spec_wf [OF assms] obtain r1 where r1: "match_route_spec canon node = Inr r1"
    and r1wf: "r1 = FAILED \<or> well_formed (rnext r1)" by blast
  from addr_spec_wf [OF assms] obtain r2 where r2: "match_addr_spec canon node = Inr r2"
    and r2wf: "r2 = FAILED \<or> well_formed (rnext r2)" by blast
  from r1 r2 r1wf r2wf show ?thesis
    by (auto simp: match_mailbox_def)
qed


lemma comma_loop_wf:
  "well_formed node \<Longrightarrow> \<exists>n s'. comma_loop node s = Inr (n, s') \<and> well_formed n"
proof (induction node s rule: comma_loop.induct)
  case (1 node str)
  obtain t nx s1 where sk: "skipcomment node str = Inr (t # nx, s1)"
    and wf: "well_formed (t # nx)"
    using "1.prems" by (rule skipcomment_deref)
  show ?case
  proof (cases "ttype t = COMMA")
    case False
    with sk wf show ?thesis by (subst comma_loop.simps) simp
  next
    case True
    with wf have "well_formed nx" by (auto intro: well_formed_tl)
    with "1.IH" [OF sk refl refl True] sk True show ?thesis
      by (subst comma_loop.simps) simp
  qed
qed

lemma comma_loop_deref:
  assumes "well_formed node"
  obtains t nx s' where "comma_loop node s = Inr (t # nx, s')" "well_formed (t # nx)"
proof -
  from comma_loop_wf [OF assms] obtain n s' where sk: "comma_loop node s = Inr (n, s')"
    and wf: "well_formed n" by blast
  then obtain t nx where "n = t # nx" by (cases n) (auto simp: well_formed_def)
  with sk wf that show thesis by blast
qed

lemma mailboxes_loop_wf:
  "well_formed (rnext r) \<Longrightarrow> \<exists>r' n. mailboxes_loop canon r = Inr (r', n)"
proof (induction canon r rule: mailboxes_loop.induct)
  case (1 canon r1)
  obtain t nx s1 where cl: "comma_loop (rnext r1) (rstr r1) = Inr (t # nx, s1)"
    and wf: "well_formed (t # nx)"
    using "1.prems" by (rule comma_loop_deref)
  show ?case
  proof (cases "ttype t = EOT")
    case True
    with cl show ?thesis by (subst mailboxes_loop.simps) simp
  next
    case noteot: False
    from mailbox_wf [OF wf] obtain r2 where r2: "match_mailbox canon (t # nx) = Inr r2"
      and r2wf: "r2 = FAILED \<or> well_formed (rnext r2)" by blast
    show ?thesis
    proof (cases "ok r2")
      case False
      with cl r2 noteot show ?thesis by (subst mailboxes_loop.simps) simp
    next
      case True
      with r2wf have "well_formed (rnext r2)" by auto
      with "1.IH" [OF cl refl refl noteot r2] True noteot cl r2 show ?thesis
        by (subst mailboxes_loop.simps) simp
    qed
  qed
qed

lemma mailboxes_wf:
  assumes "well_formed node"
  shows "\<exists>r. match_mailboxes canon node = Inr r \<and> (r = FAILED \<or> well_formed (rnext r))"
proof -
  from mailbox_wf [OF assms] obtain r0 where r0: "match_mailbox canon node = Inr r0"
    and r0wf: "r0 = FAILED \<or> well_formed (rnext r0)" by blast
  show ?thesis
  proof (cases "ok r0")
    case False
    with r0 show ?thesis by (simp add: match_mailboxes_def)
  next
    case True
    let ?r0 = "r0\<lparr>rstr := rstr r0 @ rcomment r0, rcomment := []\<rparr>"
    from True r0wf have wf0: "well_formed (rnext ?r0)" by auto
    from mailboxes_loop_wf [OF this] obtain r1 n1
      where l: "mailboxes_loop canon ?r0 = Inr (r1, n1)" by blast
    from mailboxes_loop_suffix [OF l] wf0 have "well_formed n1"
      by (auto intro: well_formed_suffix)
    from skipcomment_wf [OF this] obtain n2 s2
      where "skipcomment n1 (rstr r1) = Inr (n2, s2)" "well_formed n2" by blast
    with r0 True l show ?thesis by (simp add: match_mailboxes_def)
  qed
qed

lemma group_wf:
  assumes "well_formed node"
  shows "\<exists>r. match_group canon node = Inr r \<and> (r = FAILED \<or> well_formed (rnext r))"
proof -
  from phrase_wf [OF assms] obtain r1 where r1: "match_phrase node = Inr r1"
    and r1wf: "r1 = FAILED \<or> well_formed (rnext r1)" by blast
  show ?thesis
  proof (cases "ok r1")
    case False
    with r1 show ?thesis by (simp add: match_group_def)
  next
    case True
    with r1wf have wf1: "well_formed (rnext r1)" by auto
    then obtain t n1 where n1: "rnext r1 = t # n1"
      by (cases "rnext r1") (auto simp: well_formed_def)
    show ?thesis
    proof (cases "ttype t \<noteq> COLON")
      case True
      with r1 \<open>ok r1\<close> n1 show ?thesis by (simp add: match_group_def)
    next
      case colon: False
      with wf1 n1 have wfn1: "well_formed n1" by (auto intro: well_formed_tl)
      from mailboxes_wf [OF this] obtain r2 where r2: "match_mailboxes canon n1 = Inr r2"
        and r2wf: "r2 = FAILED \<or> well_formed (rnext r2)" by blast
      let ?n = "if ok r2 then rnext r2 else n1"
      from r2wf wfn1 have "well_formed ?n" by auto
      then obtain t' n3 c where "skipcomment ?n [] = Inr (t' # n3, c)" "well_formed (t' # n3)"
        by (rule skipcomment_deref)
      with r1 True n1 colon r2 show ?thesis
        by (auto simp: match_group_def intro: well_formed_tl)
    qed
  qed
qed

lemma address_wf:
  assumes "well_formed node"
  shows "\<exists>r. match_address canon node = Inr r \<and> (r = FAILED \<or> well_formed (rnext r))"
proof -
  from group_wf [OF assms] obtain r1 where r1: "match_group canon node = Inr r1"
    and r1wf: "r1 = FAILED \<or> well_formed (rnext r1)" by blast
  from mailbox_wf [OF assms] obtain r2 where r2: "match_mailbox canon node = Inr r2"
    and r2wf: "r2 = FAILED \<or> well_formed (rnext r2)" by blast
  from r1 r2 r1wf r2wf show ?thesis
    by (auto simp: match_address_def)
qed

lemma addresses_loop_wf:
  "well_formed (rnext r) \<Longrightarrow> \<exists>r' n. addresses_loop canon r = Inr (r', n)"
proof (induction canon r rule: addresses_loop.induct)
  case (1 canon r1)
  obtain t nx s1 where cl: "comma_loop (rnext r1) (rstr r1) = Inr (t # nx, s1)"
    and wf: "well_formed (t # nx)"
    using "1.prems" by (rule comma_loop_deref)
  show ?case
  proof (cases "ttype t = EOT")
    case True
    with cl show ?thesis by (subst addresses_loop.simps) simp
  next
    case noteot: False
    from address_wf [OF wf] obtain r2 where r2: "match_address canon (t # nx) = Inr r2"
      and r2wf: "r2 = FAILED \<or> well_formed (rnext r2)" by blast
    show ?thesis
    proof (cases "ok r2")
      case False
      with cl r2 noteot show ?thesis by (subst addresses_loop.simps) simp
    next
      case True
      with r2wf have "well_formed (rnext r2)" by auto
      with "1.IH" [OF cl refl refl noteot r2] True noteot cl r2 show ?thesis
        by (subst addresses_loop.simps) simp
    qed
  qed
qed

lemma addresses_loop_suffix:
  "addresses_loop canon r = Inr (r', node') \<Longrightarrow>
     suffix node' (rnext r) \<and> node' \<noteq> [] \<and> suffix (rnext r') (rnext r) \<and> (ok r \<longrightarrow> ok r')"
proof (induction canon r rule: addresses_loop.induct)
  case (1 canon r1)
  from "1.prems" obtain node s1 where cl: "comma_loop (rnext r1) (rstr r1) = Inr (node, s1)"
    by (subst (asm) addresses_loop.simps) (auto split: sum.splits)
  then have node: "suffix node (rnext r1)" "node \<noteq> []"
    by (auto dest: comma_loop_suffix)
  then obtain t nx where tnx: "node = t # nx" by (cases node) auto
  show ?case
  proof (cases "ttype t = EOT")
    case True
    with "1.prems" cl tnx have "r' = r1\<lparr>rstr := s1\<rparr>" "node' = node"
      by (subst (asm) addresses_loop.simps, simp)+
    with node show ?thesis by (simp add: ok_def)
  next
    case noteot: False
    with "1.prems" cl tnx obtain r2 where r2: "match_address canon node = Inr r2"
      by (subst (asm) addresses_loop.simps) (auto split: sum.splits)
    show ?thesis
    proof (cases "ok r2")
      case False
      with "1.prems" cl tnx r2 noteot have "r' = r1\<lparr>rstr := s1\<rparr>" "node' = node"
        by (subst (asm) addresses_loop.simps, simp)+
      with node show ?thesis by (simp add: ok_def)
    next
      case True
      let ?r = "r1\<lparr>rnext := rnext r2,
                    rstr := s1 @ '', '' @ rstr r2 @ rcomment r2,
                    raddr := raddr r1 @ raddr r2\<rparr>"
      from "1.prems" cl tnx r2 True noteot
      have rec: "addresses_loop canon ?r = Inr (r', node')"
        by (subst (asm) addresses_loop.simps) simp
      have ih: "suffix node' (rnext r2)" "node' \<noteq> []" "suffix (rnext r') (rnext r2)" "ok r'"
        using "1.IH" [OF cl refl tnx noteot _ _ rec] True r2 tnx by (simp_all add: ok_def)
      from advanced_address [OF r2] True have "suffix (rnext r2) node"
        by (auto simp: advanced_def strict_suffix_def)
      with node have "suffix (rnext r2) (rnext r1)"
        by (blast intro: suffix_order.trans)
      with ih show ?thesis by (blast intro: suffix_order.trans)
    qed
  qed
qed

lemma advanced_addresses:
  assumes "match_addresses canon node = Inr r"
  shows "advanced node r"
proof -
  from assms obtain r0 where r0: "match_address canon node = Inr r0"
    by (auto simp: match_addresses_def split: sum.splits)
  show ?thesis
  proof (cases "ok r0 \<and> r \<noteq> FAILED")
    case False
    with assms r0 show ?thesis by (auto simp: match_addresses_def)
  next
    case True
    let ?r0 = "r0\<lparr>rstr := rstr r0 @ rcomment r0, rcomment := []\<rparr>"
    from True assms r0 obtain r1 n1
      where l: "addresses_loop canon ?r0 = Inr (r1, n1)" and r: "rnext r = rnext r1"
      by (auto simp: match_addresses_def split: sum.splits list.splits if_splits)
    from advanced_address [OF r0] True have "strict_suffix (rnext r0) node"
      by (auto simp: advanced_def)
    moreover from addresses_loop_suffix [OF l] have "suffix (rnext r1) (rnext r0)" by simp
    ultimately have "strict_suffix (rnext r1) node"
      by (meson suffix_order.strict_trans1)
    with r show ?thesis by (simp add: advanced_def)
  qed
qed

lemma addresses_wf:
  assumes "well_formed node"
  shows "\<exists>r. match_addresses canon node = Inr r \<and> (r = FAILED \<or> well_formed (rnext r))"
proof -
  from address_wf [OF assms] obtain r0 where r0: "match_address canon node = Inr r0"
    and r0wf: "r0 = FAILED \<or> well_formed (rnext r0)" by blast
  show ?thesis
  proof (cases "ok r0")
    case False
    with r0 show ?thesis by (simp add: match_addresses_def)
  next
    case True
    let ?r0 = "r0\<lparr>rstr := rstr r0 @ rcomment r0, rcomment := []\<rparr>"
    from True r0wf have wf0: "well_formed (rnext ?r0)" by auto
    from addresses_loop_wf [OF this] obtain r1 n1
      where l: "addresses_loop canon ?r0 = Inr (r1, n1)" by blast
    from addresses_loop_suffix [OF l] wf0 have wf1: "well_formed n1" "well_formed (rnext r1)"
      using True by (auto simp: ok_def intro: well_formed_suffix)
    then obtain t nx s2
      where "skipcomment n1 (rstr r1) = Inr (t # nx, s2)"
      using skipcomment_deref by blast
    with r0 True l wf1 show ?thesis by (simp add: match_addresses_def)
  qed
qed

text \<open>The text between the quotes of a quoted string: quoted-text characters and quoted pairs.\<close>

fun well_quoted :: "string \<Rightarrow> bool" where
  "well_quoted [] = True"
| "well_quoted [c] = isqtext c"
| "well_quoted (c # d # cs) =
     (if isqtext c then well_quoted (d # cs)
      else c = enum_char ESCAPE \<and> d \<noteq> NUL \<and> well_quoted cs)"

lemma isqtext_not_isqpair: "isqtext c \<Longrightarrow> \<not> isqpair (c # cs)"
  by (simp add: isqtext_def)

lemma isqpair_ESCAPE: "d \<noteq> NUL \<Longrightarrow> isqpair (enum_char ESCAPE # d # cs)"
  by (simp add: NUL_def)

lemma qtext_loop_split: "\<exists>body. cs = body @ qtext_loop cs \<and> well_quoted body"
proof (induction cs rule: qtext_loop.induct)
  case 1
  show ?case by simp
next
  case (2 c cs)
  show ?case
  proof (cases "c = NUL")
    case True
    then have "c # cs = [] @ qtext_loop (c # cs) \<and> well_quoted []" by simp
    then show ?thesis by blast
  next
    case nn: False
    show ?thesis
    proof (cases "isqtext c")
      case True
      with nn "2.IH"(1) obtain body where b: "cs = body @ qtext_loop cs" "well_quoted body"
        by blast
      have "well_quoted (c # body)" using True b(2) by (cases body) auto
      moreover have "c # cs = (c # body) @ qtext_loop (c # cs)" using nn True b(1) by simp
      ultimately show ?thesis by blast
    next
      case nq: False
      show ?thesis
      proof (cases "isqpair (c # cs)")
        case True
        then obtain d ds where cs: "cs = d # ds" and d: "d \<noteq> NUL" and c: "c = enum_char ESCAPE"
          by (cases cs) auto
        from "2.IH"(2) [OF nn nq True] cs obtain body
          where b: "ds = body @ qtext_loop ds" "well_quoted body" by auto
        have "well_quoted (c # d # body)" using nq c d b(2) by simp
        moreover have "c # cs = (c # d # body) @ qtext_loop (c # cs)"
          using nn nq True cs b(1) by (simp del: isqpair.simps)
        ultimately show ?thesis by blast
      next
        case False
        with nn nq have "c # cs = [] @ qtext_loop (c # cs) \<and> well_quoted []"
          by (simp del: isqpair.simps)
        then show ?thesis by blast
      qed
    qed
  qed
qed

lemma unquote_loop_well_quoted:
  "well_quoted body \<Longrightarrow> \<exists>out. unquote_loop (body @ rest) (length body) m = Inr out"
proof (induction body arbitrary: m rule: well_quoted.induct)
  case 1
  then show ?case by simp
next
  case (2 c)
  then have "\<not> isqpair (c # rest)" by (simp del: isqpair.simps add: isqtext_not_isqpair)
  then show ?case by (simp del: isqpair.simps)
next
  case (3 c d cs)
  show ?case
  proof (cases "isqtext c")
    case True
    then have nq: "\<not> isqpair (c # (d # cs) @ rest)" by (rule isqtext_not_isqpair)
    from 3 True obtain out where "unquote_loop ((d # cs) @ rest) (length (d # cs)) m = Inr out"
      by fastforce
    with nq show ?thesis by (cases out) (simp del: isqpair.simps)
  next
    case False
    with "3.prems" have c: "c = enum_char ESCAPE" "d \<noteq> NUL" "well_quoted cs" by auto
    then have q: "isqpair (c # (d # cs) @ rest)" by (auto simp: NUL_def)
    from "3.IH"(2) [OF False] c obtain out where "unquote_loop (cs @ rest) (length cs) True = Inr out"
      by blast
    with q show ?thesis by (cases out) (simp del: isqpair.simps)
  qed
qed

lemma tokenize_quoted_string_unquote:
  assumes "tokenize_quoted_string s = Some (t, p)"
  shows "ttype t = QUOTED_STRING \<and> \<not> isl (unquote (tstr t))"
proof -
  from assms obtain cs where s: "s = QUOTE # cs" and pk: "peek (qtext_loop cs) = QUOTE"
    and t: "t = anode QUOTED_STRING s (tl (qtext_loop cs))"
    by (cases s) (auto simp: Let_def split: if_splits)
  from qtext_loop_split [of cs] obtain body where b: "cs = body @ qtext_loop cs" "well_quoted body"
    by blast
  from pk obtain rest where r: "qtext_loop cs = QUOTE # rest"
    by (cases "qtext_loop cs") (auto simp: QUOTE_def NUL_def)
  have "length s - length rest = Suc (Suc (length body))"
    using s b(1) r by (metis add_diff_cancel_right' length_Cons length_append add_Suc_right add_Suc)
  moreover have "s = (QUOTE # body @ [QUOTE]) @ rest" using s b(1) r by simp
  ultimately have str: "tstr t = QUOTE # body @ [QUOTE]"
    using t r by (simp add: anode_def)
  from unquote_loop_well_quoted [OF b(2), of "[QUOTE]" True]
  obtain out where "unquote_loop (body @ [QUOTE]) (length body) True = Inr out" by blast
  then have "\<not> isl (unquote (tstr t))"
    unfolding str by (cases out) (simp add: unquote_def)
  with t show ?thesis by (simp add: anode_def)
qed


lemma ttype_anode [simp]: "ttype (anode ty a b) = ty"
  by (simp add: anode_def)

lemma ttype_anode0 [simp]: "ttype (anode0 ty) = ty"
  by (simp add: anode0_def)

lemma special_type_not_quoted: "special_type ch = Some ty \<Longrightarrow> ty \<noteq> QUOTED_STRING"
  by (auto simp: special_type_def split: if_splits)

lemma tokenize1_quoted:
  assumes "tokenize1 s = Some (t, p)" and "ttype t = QUOTED_STRING"
  shows "\<not> isl (unquote (tstr t))"
proof -
  let ?q = "skipspace s"
  from assms have nn: "peek ?q \<noteq> NUL"
    by (auto simp: tokenize1_def Let_def)
  show ?thesis
  proof (cases "special_type (peek ?q)")
    case (Some ty)
    with nn assms show ?thesis
      by (auto simp: tokenize1_def Let_def dest: special_type_not_quoted)
  next
    case None
    with nn assms have "tokenize_quoted_string ?q = Some (t, p)"
      by (cases ?q)
        (auto simp: tokenize1_def Let_def tokenize_comment_def split: if_splits option.splits)
    then show ?thesis by (simp add: tokenize_quoted_string_unquote)
  qed
qed

lemma tokenize_well_formed: "tokenize s = Some ts \<Longrightarrow> well_formed ts"
proof (induction s arbitrary: ts rule: tokenize.induct)
  case (1 ptr)
  from "1.prems" obtain tmp ptr' where t1: "tokenize1 ptr = Some (tmp, ptr')"
    by (subst (asm) tokenize.simps) (auto split: option.splits)
  have q: "ttype tmp = QUOTED_STRING \<longrightarrow> \<not> isl (unquote (tstr tmp))"
    using tokenize1_quoted [OF t1] by blast
  show ?case
  proof (cases "ttype tmp = EOT")
    case True
    with "1.prems" t1 have "ts = [tmp]"
      by (subst (asm) tokenize.simps) simp
    with True show ?thesis by (simp add: well_formed_def)
  next
    case False
    with "1.prems" t1 obtain rest where rest: "tokenize ptr' = Some rest" and ts: "ts = tmp # rest"
      by (subst (asm) tokenize.simps) (auto split: option.splits)
    from "1.IH" [OF t1 refl False rest] have "well_formed rest" .
    with ts q show ?thesis by (auto simp: well_formed_def)
  qed
qed

lemma parse_addresses_returns:
  "\<exists>b line' list'. parse_addresses canon line list = Inr (b, line', list')"
proof (cases "tokenize line")
  case None
  then show ?thesis by (auto simp: parse_addresses_def)
next
  case (Some ts)
  from addresses_wf [OF tokenize_well_formed [OF Some]] obtain r
    where "match_addresses canon ts = Inr r" by blast
  with Some show ?thesis by (auto simp: parse_addresses_def)
qed

section \<open>Auxiliary notions for the properties\<close>

text \<open>
  A rule keeps the end marker when it returns without a fault and its result
  is the failure value or has a position that is not null, is a suffix of the
  position the rule started from, and still ends with the same last node.
\<close>

definition keeps_end_marker :: "token list \<Rightarrow> fault + result \<Rightarrow> bool" where
  "keeps_end_marker node m \<longleftrightarrow>
     (case m of
        Inl e \<Rightarrow> False
      | Inr r \<Rightarrow> r = FAILED \<or>
          (rnext r \<noteq> [] \<and> suffix (rnext r) node \<and> last (rnext r) = last node))"

lemma keeps_end_markerI:
  assumes "well_formed node"
    and "\<exists>r. m = Inr r \<and> (r = FAILED \<or> well_formed (rnext r))"
    and "\<And>r. m = Inr r \<Longrightarrow> advanced node r"
  shows "keeps_end_marker node m"
proof -
  from assms(2) obtain r where m: "m = Inr r" and r: "r = FAILED \<or> well_formed (rnext r)"
    by blast
  show ?thesis
  proof (cases "r = FAILED")
    case True
    with m show ?thesis by (simp add: keeps_end_marker_def)
  next
    case False
    with r have wf: "well_formed (rnext r)" by simp
    from assms(3) [OF m] False have s: "suffix (rnext r) node"
      by (auto simp: advanced_def strict_suffix_def)
    from wf have ne: "rnext r \<noteq> []" by (simp add: well_formed_def)
    with s have "last (rnext r) = last node"
      by (auto simp: suffix_def)
    with m ne s show ?thesis by (simp add: keeps_end_marker_def)
  qed
qed

text \<open>Tokens that the loops of the list rules step over.\<close>

definition separator :: "token \<Rightarrow> bool" where
  "separator t \<longleftrightarrow> ttype t = COMMA \<or> ttype t = COMMENT"

lemma skipcomment_separators:
  "skipcomment node c = Inr (node', c') \<Longrightarrow> \<exists>pre. node = pre @ node' \<and> list_all separator pre"
proof (induction node c rule: skipcomment.induct)
  case (1 comment)
  then show ?case by simp
next
  case (2 t ts comment)
  show ?case
  proof (cases "ttype t = COMMENT")
    case True
    with 2 obtain pre where "ts = pre @ node'" "list_all separator pre" by auto
    with True have "t # ts = (t # pre) @ node' \<and> list_all separator (t # pre)"
      by (simp add: separator_def)
    then show ?thesis by blast
  next
    case False
    with "2.prems" have "t # ts = [] @ node' \<and> list_all separator []" by simp
    then show ?thesis by blast
  qed
qed

lemma comma_loop_separators:
  "comma_loop node s = Inr (node', s') \<Longrightarrow> \<exists>pre. node = pre @ node' \<and> list_all separator pre"
proof (induction node s rule: comma_loop.induct)
  case (1 node str)
  from "1.prems" obtain n1 s1 where sk: "skipcomment node str = Inr (n1, s1)"
    by (subst (asm) comma_loop.simps) (auto split: sum.splits)
  from skipcomment_separators [OF sk] obtain pre1
    where p1: "node = pre1 @ n1" "list_all separator pre1" by blast
  from skipcomment_suffix [OF sk] obtain t nx where tnx: "n1 = t # nx" by (cases n1) auto
  show ?case
  proof (cases "ttype t = COMMA")
    case False
    with "1.prems" sk tnx have "node' = n1"
      by (subst (asm) comma_loop.simps) simp
    with p1 show ?thesis by blast
  next
    case True
    with "1.prems" sk tnx have rec: "comma_loop nx s1 = Inr (node', s')"
      by (subst (asm) comma_loop.simps) simp
    from "1.IH" [OF sk refl tnx True rec] obtain pre2
      where p2: "nx = pre2 @ node'" "list_all separator pre2" by blast
    from p1 p2 tnx True
    have "node = (pre1 @ t # pre2) @ node' \<and> list_all separator (pre1 @ t # pre2)"
      by (simp add: separator_def)
    then show ?thesis by blast
  qed
qed

lemma addresses_loop_separators:
  "addresses_loop canon r = Inr (r', node') \<Longrightarrow>
     \<exists>pre. rnext r' = pre @ node' \<and> list_all separator pre"
proof (induction canon r rule: addresses_loop.induct)
  case (1 canon r1)
  from "1.prems" obtain node s1 where cl: "comma_loop (rnext r1) (rstr r1) = Inr (node, s1)"
    by (subst (asm) addresses_loop.simps) (auto split: sum.splits)
  from comma_loop_suffix [OF cl] obtain t nx where tnx: "node = t # nx" by (cases node) auto
  have stop: "r' = r1\<lparr>rstr := s1\<rparr> \<and> node' = node \<Longrightarrow> ?case"
    using comma_loop_separators [OF cl] by simp
  show ?case
  proof (cases "ttype t = EOT")
    case True
    with "1.prems" cl tnx have "r' = r1\<lparr>rstr := s1\<rparr> \<and> node' = node"
      by (subst (asm) addresses_loop.simps) simp
    then show ?thesis by (rule stop)
  next
    case noteot: False
    with "1.prems" cl tnx obtain r2 where r2: "match_address canon node = Inr r2"
      by (subst (asm) addresses_loop.simps) (auto split: sum.splits)
    show ?thesis
    proof (cases "ok r2")
      case False
      with "1.prems" cl tnx r2 noteot have "r' = r1\<lparr>rstr := s1\<rparr> \<and> node' = node"
        by (subst (asm) addresses_loop.simps) simp
      then show ?thesis by (rule stop)
    next
      case True
      let ?r = "r1\<lparr>rnext := rnext r2,
                    rstr := s1 @ '', '' @ rstr r2 @ rcomment r2,
                    raddr := raddr r1 @ raddr r2\<rparr>"
      from "1.prems" cl tnx r2 True noteot
      have rec: "addresses_loop canon ?r = Inr (r', node')"
        by (subst (asm) addresses_loop.simps) simp
      show ?thesis
        using "1.IH" [OF cl refl tnx noteot _ _ rec] True r2 tnx by simp
    qed
  qed
qed

lemma addresses_success_rest:
  assumes "match_addresses canon node = Inr r" and "ok r"
  shows "\<exists>pre t. rnext r = pre @ [t] \<and> list_all separator pre"
proof -
  from assms obtain r0 where r0: "match_address canon node = Inr r0" and ok0: "ok r0"
    by (auto simp: match_addresses_def split: sum.splits if_splits)
  let ?r0 = "r0\<lparr>rstr := rstr r0 @ rcomment r0, rcomment := []\<rparr>"
  from assms r0 ok0 obtain r1 n1 n2 s2 t
    where l: "addresses_loop canon ?r0 = Inr (r1, n1)"
      and sk: "skipcomment n1 (rstr r1) = Inr (n2, s2)"
      and n2: "n2 = [t]" and r: "rnext r = rnext r1"
    by (auto simp: match_addresses_def split: sum.splits list.splits if_splits)
  from addresses_loop_separators [OF l] obtain pre1
    where p1: "rnext r1 = pre1 @ n1" "list_all separator pre1" by blast
  from skipcomment_separators [OF sk] obtain pre2
    where p2: "n1 = pre2 @ n2" "list_all separator pre2" by blast
  from p1 p2 n2 r have "rnext r = (pre1 @ pre2) @ [t] \<and> list_all separator (pre1 @ pre2)"
    by simp
  then show ?thesis by blast
qed

text \<open>The cursor of the loop of tokenize after k tokens that are not the end marker.\<close>

fun cursor_after :: "nat \<Rightarrow> string \<Rightarrow> string option" where
  "cursor_after 0 ptr = Some ptr"
| "cursor_after (Suc k) ptr =
     (case tokenize1 ptr of
        None \<Rightarrow> None
      | Some (tmp, ptr') \<Rightarrow> if ttype tmp = EOT then None else cursor_after k ptr')"

lemma tokenize_cursor_error:
  "cursor_after k s = Some p \<Longrightarrow> tokenize1 p = None \<Longrightarrow> tokenize s = None"
proof (induction k arbitrary: s)
  case 0
  then show ?case by (subst tokenize.simps) simp
next
  case (Suc k)
  from Suc.prems(1) obtain tmp ptr' where t1: "tokenize1 s = Some (tmp, ptr')"
    and ne: "ttype tmp \<noteq> EOT" and c: "cursor_after k ptr' = Some p"
    by (auto split: option.splits if_splits)
  from Suc.IH [OF c Suc.prems(2)] t1 ne show ?case
    by (subst tokenize.simps) simp
qed

lemmas char_defs = NUL_def QUOTE_def CR_def LPAREN_def RPAREN_def LSQBRACKET_def RSQBRACKET_def

text \<open>
  The scanner for domain literals returns with the cursor on the closing
  bracket, where no token starts: once the cursor reaches an opening bracket
  (after white space), the tokenizer returns null, whatever comes before and
  after.
\<close>

lemma cursor_after_step:
  "cursor_after k s = Some p \<Longrightarrow> tokenize1 p = Some (t, p') \<Longrightarrow> ttype t \<noteq> EOT
   \<Longrightarrow> cursor_after (Suc k) s = Some p'"
proof (induction k arbitrary: s)
  case 0
  then show ?case by simp
next
  case (Suc k)
  from Suc.prems(1) obtain tmp ptr' where t1: "tokenize1 s = Some (tmp, ptr')"
    and ne: "ttype tmp \<noteq> EOT" and c: "cursor_after k ptr' = Some p"
    by (auto split: option.splits if_splits)
  from Suc.IH [OF c Suc.prems(2,3)] t1 ne show ?case by simp
qed

lemma tokenize1_at_closing_bracket:
  assumes "peek p = RSQBRACKET"
  shows "tokenize1 p = None"
proof -
  from assms obtain cs where p: "p = RSQBRACKET # cs"
    by (cases p) (auto simp: char_defs)
  show ?thesis unfolding p
    by (simp add: tokenize1_def special_type_def char_defs isatom_def issymbol_def
        isspace_def Let_def)
qed

lemma domain_literal_stops_before_bracket:
  assumes "tokenize_domain_literal p = Some (t, p')"
  shows "ttype t = DOMAIN_LITERAL \<and> peek p' = RSQBRACKET"
  using assms by (cases p) (auto simp: Let_def anode_def split: if_splits)

lemma domain_literal_never_tokenizes:
  assumes "cursor_after k s = Some p" and "peek (skipspace p) = LSQBRACKET"
  shows "tokenize s = None"
proof -
  from assms(2) have t1: "tokenize1 p = tokenize_domain_literal (skipspace p)"
    by (simp add: tokenize1_def special_type_def char_defs Let_def)
  show ?thesis
  proof (cases "tokenize1 p")
    case None
    with assms(1) show ?thesis by (rule tokenize_cursor_error)
  next
    case (Some a)
    obtain t p' where a: "a = (t, p')" by (cases a)
    from Some a t1 have "ttype t = DOMAIN_LITERAL" "peek p' = RSQBRACKET"
      using domain_literal_stops_before_bracket [of "skipspace p" t p'] by simp_all
    then have "ttype t \<noteq> EOT" "tokenize1 p' = None"
      by (simp_all add: tokenize1_at_closing_bracket)
    with Some a have "cursor_after (Suc k) s = Some p'" "tokenize1 p' = None"
      using cursor_after_step [OF assms(1), of t p'] by simp_all
    then show ?thesis by (rule tokenize_cursor_error)
  qed
qed

text \<open>
  The round trip of a raw text through \<^verbatim>\<open>quote\<close>, the tokenizer and \<^verbatim>\<open>unquote\<close>:
  the quoted text is one token, an atom or a quoted string, before the end
  marker, and unquoting the text of that token gives the raw text back.
\<close>

definition round_trips :: "string \<Rightarrow> bool" where
  "round_trips s \<longleftrightarrow>
     (case tokenize (quote s) of
        Some [t, e] \<Rightarrow>
          (ttype t = ATOM \<or> ttype t = QUOTED_STRING) \<and> unquote (tstr t) = Inr s
      | _ \<Rightarrow> False)"

lemma symbol_chars:
  "issymbol c \<Longrightarrow> \<not> isatom c"
  "issymbol QUOTE" "issymbol (enum_char ESCAPE)" "issymbol LPAREN" "issymbol LSQBRACKET"
  by (simp_all add: isatom_def issymbol_def)

lemma special_type_symbol: "special_type c = Some ty \<Longrightarrow> issymbol c"
  by (auto simp: special_type_def issymbol_def split: if_splits)

lemma isatom_not_NUL: "isatom c \<Longrightarrow> c \<noteq> NUL"
  by (auto simp: isatom_def isctl_def NUL_def)

lemma not_isatom_CR: "\<not> isatom CR"
  by (simp add: isatom_def isspace_def CR_def)

lemma fst_quote_loop_no_NUL: "NUL \<notin> set s \<Longrightarrow> NUL \<notin> set (fst (quote_loop s))"
  by (induction s) (auto simp: Let_def NUL_def split: prod.splits)

lemma snd_quote_loop: "snd (quote_loop s) \<longleftrightarrow> (\<exists>c \<in> set s. issymbol c)"
  by (induction s) (auto simp: Let_def split: prod.splits)

lemma c_string_no_NUL: "NUL \<notin> set s \<Longrightarrow> c_string s = s"
  by (auto simp: c_string_def takeWhile_eq_all_conv)

lemma qtext_loop_quote_loop:
  "NUL \<notin> set s \<Longrightarrow> CR \<notin> set s \<Longrightarrow>
     qtext_loop (fst (quote_loop s) @ QUOTE # rest) = QUOTE # rest"
proof (induction s)
  case Nil
  show ?case by (simp add: isqtext_def char_defs)
next
  case (Cons c s)
  then have ih: "qtext_loop (fst (quote_loop s) @ QUOTE # rest) = QUOTE # rest" by simp
  show ?case
  proof (cases "issymbol c")
    case True
    with Cons.prems ih show ?thesis
      by (auto simp: Let_def isqtext_def NUL_def split: prod.splits)
  next
    case False
    then have "isqtext c" "c \<noteq> NUL" using Cons.prems
      by (auto simp: isqtext_def issymbol_def)
    with False ih show ?thesis
      by (auto simp: Let_def split: prod.splits)
  qed
qed

lemma unquote_loop_quote_loop:
  "NUL \<notin> set s \<Longrightarrow>
     unquote_loop (fst (quote_loop s) @ rest) (length (fst (quote_loop s))) True = Inr (s, True)"
proof (induction s)
  case Nil
  show ?case by simp
next
  case (Cons c s)
  then have ih: "unquote_loop (fst (quote_loop s) @ rest) (length (fst (quote_loop s))) True
                 = Inr (s, True)" by simp
  show ?case
  proof (cases "issymbol c")
    case True
    with Cons.prems ih show ?thesis
      by (auto simp: Let_def NUL_def split: prod.splits)
  next
    case False
    then have "c \<noteq> enum_char ESCAPE" by (auto simp: issymbol_def)
    with False ih show ?thesis
      by (auto simp: Let_def split: prod.splits)
  qed
qed


lemma tokenize_Nil: "tokenize [] = Some [anode0 EOT]"
  by (subst tokenize.simps) (simp add: tokenize1_def)

lemma anode_append: "anode ty (a @ rest) rest = \<lparr>ttype = ty, tstr = a\<rparr>"
  by (simp add: anode_def)

lemma tokenize1_quoted_string:
  assumes "qtext_loop (body @ QUOTE # rest) = QUOTE # rest"
  shows "tokenize1 (QUOTE # body @ QUOTE # rest)
         = Some (\<lparr>ttype = QUOTED_STRING, tstr = QUOTE # body @ [QUOTE]\<rparr>, rest)"
proof -
  have sp: "skipspace (QUOTE # body @ QUOTE # rest) = QUOTE # body @ QUOTE # rest"
    by (simp add: isspace_def QUOTE_def)
  have st: "special_type QUOTE = None"
    by (simp add: special_type_def QUOTE_def)
  have tq: "tokenize_quoted_string (QUOTE # body @ QUOTE # rest)
            = Some (anode QUOTED_STRING (QUOTE # body @ QUOTE # rest) rest, rest)"
    using assms by simp
  have "anode QUOTED_STRING ((QUOTE # body @ [QUOTE]) @ rest) rest
        = \<lparr>ttype = QUOTED_STRING, tstr = QUOTE # body @ [QUOTE]\<rparr>"
    by (rule anode_append)
  with tq have "tokenize_quoted_string (QUOTE # body @ QUOTE # rest)
            = Some (\<lparr>ttype = QUOTED_STRING, tstr = QUOTE # body @ [QUOTE]\<rparr>, rest)"
    by simp
  then show ?thesis
    unfolding tokenize1_def sp Let_def
    by (simp add: st) (simp add: char_defs)
qed

lemma skipatom_all: "\<forall>c \<in> set s. isatom c \<Longrightarrow> skipatom s = []"
  by (induction s) auto

lemma tokenize1_atom:
  assumes "s \<noteq> []" and "\<forall>c \<in> set s. isatom c"
  shows "tokenize1 s = Some (\<lparr>ttype = ATOM, tstr = s\<rparr>, [])"
proof -
  from assms obtain c cs where s: "s = c # cs" by (cases s) auto
  with assms have c: "isatom c" and cs: "skipatom cs = []"
    by (auto intro: skipatom_all)
  from c have nsp: "\<not> isspace c" and nsym: "\<not> issymbol c"
    by (auto simp: isatom_def)
  from c have nn: "c \<noteq> NUL" by (rule isatom_not_NUL)
  from nsym have st: "special_type c = None"
    by (cases "special_type c") (auto dest: special_type_symbol)
  from nsym have ne: "c \<noteq> LPAREN" "c \<noteq> LSQBRACKET" "c \<noteq> QUOTE"
    by (auto simp: issymbol_def)
  have "anode ATOM (c # cs) [] = \<lparr>ttype = ATOM, tstr = c # cs\<rparr>"
    using anode_append [of ATOM "c # cs" "[]"] by simp
  with s c cs nsp nn st ne show ?thesis
    by (simp add: tokenize1_def Let_def)
qed

lemma unquote_loop_plain:
  "enum_char ESCAPE \<notin> set s \<Longrightarrow> unquote_loop s (length s) m = Inr (s, m)"
  by (induction s) auto

lemma quote_round_trip_if:
  assumes "NUL \<notin> set s" and "CR \<notin> set s"
    and "(\<exists>c \<in> set s. issymbol c) \<or> (s \<noteq> [] \<and> (\<forall>c \<in> set s. isatom c))"
  shows "round_trips s"
proof (cases "\<exists>c \<in> set s. issymbol c")
  case True
  let ?body = "fst (quote_loop s)"
  from True have q: "quote s = QUOTE # ?body @ [QUOTE]"
    using snd_quote_loop [of s] fst_quote_loop_no_NUL [OF assms(1)]
    by (cases "quote_loop s") (auto simp: quote_def c_string_no_NUL)
  have "tokenize1 (QUOTE # ?body @ QUOTE # [])
        = Some (\<lparr>ttype = QUOTED_STRING, tstr = QUOTE # ?body @ [QUOTE]\<rparr>, [])"
    by (rule tokenize1_quoted_string) (rule qtext_loop_quote_loop [OF assms(1,2)])
  then have t: "tokenize (quote s)
        = Some [\<lparr>ttype = QUOTED_STRING, tstr = QUOTE # ?body @ [QUOTE]\<rparr>, anode0 EOT]"
    unfolding q by (subst tokenize.simps) (simp add: tokenize_Nil)
  have "unquote (QUOTE # ?body @ [QUOTE]) = Inr s"
    using unquote_loop_quote_loop [OF assms(1), of "[QUOTE]"] assms(1)
    by (simp add: unquote_def c_string_no_NUL)
  with t show ?thesis by (simp add: round_trips_def)
next
  case False
  with assms(3) have s: "s \<noteq> []" "\<forall>c \<in> set s. isatom c" by auto
  from False have q: "quote s = s"
    using snd_quote_loop [of s] by (cases "quote_loop s") (auto simp: quote_def)
  from tokenize1_atom [OF s]
  have t: "tokenize (quote s) = Some [\<lparr>ttype = ATOM, tstr = s\<rparr>, anode0 EOT]"
    unfolding q by (subst tokenize.simps) (simp add: tokenize_Nil)
  from False have "enum_char ESCAPE \<notin> set s" "QUOTE \<notin> set s"
    using symbol_chars(2,3) by auto
  then have "unquote s = Inr s"
    using s(1) unquote_loop_plain [of s False] by (cases s) (auto simp: unquote_def)
  with t show ?thesis by (simp add: round_trips_def)
qed


lemma c_string_NUL: "NUL \<notin> set (c_string x)"
  by (auto simp: c_string_def dest: set_takeWhileD)

lemma unquote_quoted_no_NUL:
  assumes "unquote (QUOTE # body @ [QUOTE]) = Inr s"
  shows "NUL \<notin> set s"
  using assms c_string_NUL
  by (auto simp: unquote_def split: sum.splits if_splits)

lemma tokenize_quoted_string_shape:
  assumes "tokenize_quoted_string s = Some (t, p)"
  shows "\<exists>body. tstr t = QUOTE # body @ [QUOTE]"
proof -
  from assms obtain cs where s: "s = QUOTE # cs" and pk: "peek (qtext_loop cs) = QUOTE"
    and t: "t = anode QUOTED_STRING s (tl (qtext_loop cs))"
    by (cases s) (auto simp: Let_def split: if_splits)
  from qtext_loop_split [of cs] obtain body where b: "cs = body @ qtext_loop cs" by blast
  from pk obtain rest where r: "qtext_loop cs = QUOTE # rest"
    by (cases "qtext_loop cs") (auto simp: QUOTE_def NUL_def)
  have "s = (QUOTE # body @ [QUOTE]) @ rest" using s b r by simp
  then have "tstr t = QUOTE # body @ [QUOTE]"
    using t r anode_append [of QUOTED_STRING "QUOTE # body @ [QUOTE]" rest] by simp
  then show ?thesis by blast
qed

lemma qtext_loop_CR:
  "NUL \<notin> set s \<Longrightarrow> CR \<in> set s \<Longrightarrow> peek (qtext_loop (fst (quote_loop s) @ rest)) = CR"
proof (induction s)
  case Nil
  then show ?case by simp
next
  case (Cons c s)
  show ?case
  proof (cases "c = CR")
    case True
    then have "\<not> issymbol c" "\<not> isqtext c" "c \<noteq> NUL" "c \<noteq> enum_char ESCAPE"
      by (auto simp: issymbol_def isqtext_def char_defs)
    with True show ?thesis by (auto simp: Let_def split: prod.splits)
  next
    case False
    with Cons have ih: "peek (qtext_loop (fst (quote_loop s) @ rest)) = CR" by simp
    show ?thesis
    proof (cases "issymbol c")
      case True
      with Cons.prems ih show ?thesis
        by (auto simp: Let_def isqtext_def NUL_def split: prod.splits)
    next
      case nsym: False
      then have "isqtext c" "c \<noteq> NUL" using Cons.prems False
        by (auto simp: isqtext_def issymbol_def)
      with nsym ih show ?thesis
        by (auto simp: Let_def split: prod.splits)
    qed
  qed
qed

lemma tokenize_atom_shape:
  assumes "tokenize_atom q = Some (t, p)"
  shows "tstr t \<noteq> [] \<and> (\<forall>c \<in> set (tstr t). isatom c)"
proof -
  have sk: "\<exists>a. cs = a @ skipatom cs \<and> (\<forall>c \<in> set a. isatom c)" for cs
  proof (induction cs)
    case Nil
    show ?case by simp
  next
    case (Cons c cs)
    then obtain a where a: "cs = a @ skipatom cs" "\<forall>c \<in> set a. isatom c" by blast
    show ?case
    proof (cases "isatom c")
      case True
      with a have "c # cs = (c # a) @ skipatom (c # cs) \<and> (\<forall>x \<in> set (c # a). isatom x)"
        by simp
      then show ?thesis by blast
    next
      case False
      then have "c # cs = [] @ skipatom (c # cs) \<and> (\<forall>x \<in> set []. isatom x)" by simp
      then show ?thesis by blast
    qed
  qed
  from assms obtain c cs where q: "q = c # cs" and c: "isatom c"
    and t: "t = anode ATOM (c # cs) (skipatom cs)"
    by (cases q) (auto simp: Let_def split: if_splits)
  from sk [of cs] obtain a where a: "cs = a @ skipatom cs" "\<forall>c \<in> set a. isatom c" by blast
  have "anode ATOM ((c # a) @ skipatom cs) (skipatom cs) = \<lparr>ttype = ATOM, tstr = c # a\<rparr>"
    by (rule anode_append)
  with a(1) t have "tstr t = c # a" by simp
  with c a(2) show ?thesis by simp
qed

lemma tokenize1_kind:
  assumes "tokenize1 s = Some (t, p)"
  shows "(ttype t = ATOM \<longrightarrow> tokenize_atom (skipspace s) = Some (t, p))
       \<and> (ttype t = QUOTED_STRING \<longrightarrow>
            peek (skipspace s) = QUOTE \<and> tokenize_quoted_string (skipspace s) = Some (t, p))"
proof -
  let ?q = "skipspace s"
  show ?thesis
  proof (cases "peek ?q = NUL")
    case True
    with assms show ?thesis by (auto simp: tokenize1_def Let_def)
  next
    case nn: False
    show ?thesis
    proof (cases "special_type (peek ?q)")
      case (Some ty)
      then have "ty \<noteq> ATOM" "ty \<noteq> QUOTED_STRING"
        by (auto simp: special_type_def split: if_splits)
      with nn Some assms show ?thesis
        by (auto simp: tokenize1_def Let_def)
    next
      case None
      with nn assms show ?thesis
        by (cases ?q)
          (auto simp: tokenize1_def Let_def tokenize_comment_def
            split: if_splits option.splits)
    qed
  qed
qed

lemma set_skipspace: "set (skipspace s) \<subseteq> set s"
  by (induction s) auto

lemma round_trips_only_if:
  assumes "round_trips s"
  shows "NUL \<notin> set s \<and> CR \<notin> set s \<and>
         ((\<exists>c \<in> set s. issymbol c) \<or> (s \<noteq> [] \<and> (\<forall>c \<in> set s. isatom c)))"
proof -
  from assms obtain t e where tk: "tokenize (quote s) = Some [t, e]"
    and ty: "ttype t = ATOM \<or> ttype t = QUOTED_STRING" and un: "unquote (tstr t) = Inr s"
    by (auto simp: round_trips_def split: option.splits list.splits)
  from tk ty obtain p where t1: "tokenize1 (quote s) = Some (t, p)"
    by (subst (asm) tokenize.simps) (auto split: option.splits if_splits)
  note kind = tokenize1_kind [OF t1]
  show ?thesis
  proof (cases "\<exists>c \<in> set s. issymbol c")
    case False
    then have q: "quote s = s"
      using snd_quote_loop [of s] by (cases "quote_loop s") (auto simp: quote_def)
    have "ttype t \<noteq> QUOTED_STRING"
    proof
      assume "ttype t = QUOTED_STRING"
      with kind q have "peek (skipspace s) = QUOTE" by simp
      then have "QUOTE \<in> set (skipspace s)"
        by (cases "skipspace s") (auto simp: char_defs)
      with set_skipspace [of s] False symbol_chars(2) show False by auto
    qed
    with ty kind have "tokenize_atom (skipspace (quote s)) = Some (t, p)" by simp
    from tokenize_atom_shape [OF this] have a: "tstr t \<noteq> []" "\<forall>c \<in> set (tstr t). isatom c"
      by simp_all
    then have "enum_char ESCAPE \<notin> set (tstr t)" "QUOTE \<notin> set (tstr t)"
      using symbol_chars(1,2,3) by auto
    then have "unquote (tstr t) = Inr (tstr t)"
      using a(1) unquote_loop_plain [of "tstr t" False]
      by (cases "tstr t") (auto simp: unquote_def)
    with un have "s = tstr t" by simp
    with a have "s \<noteq> []" "\<forall>c \<in> set s. isatom c" by simp_all
    moreover from this have "NUL \<notin> set s" "CR \<notin> set s"
      using isatom_not_NUL not_isatom_CR by blast+
    ultimately show ?thesis by simp
  next
    case True
    let ?body = "c_string (fst (quote_loop s))"
    from True have q: "quote s = QUOTE # ?body @ [QUOTE]"
      using snd_quote_loop [of s] by (cases "quote_loop s") (auto simp: quote_def)
    have sp: "skipspace (quote s) = quote s"
      unfolding q by (simp add: isspace_def QUOTE_def)
    have na: "tokenize_atom (quote s) = None"
      unfolding q using symbol_chars(1,2) by simp
    from ty kind na sp have tq: "tokenize_quoted_string (quote s) = Some (t, p)"
      by auto
    from tokenize_quoted_string_shape [OF tq] obtain body
      where "tstr t = QUOTE # body @ [QUOTE]" by blast
    with un have nn: "NUL \<notin> set s" by (auto dest: unquote_quoted_no_NUL)
    have "CR \<notin> set s"
    proof
      assume "CR \<in> set s"
      from qtext_loop_CR [OF nn this, of "[QUOTE]"]
      have "peek (qtext_loop (fst (quote_loop s) @ [QUOTE])) = CR" .
      moreover have "?body = fst (quote_loop s)"
        using fst_quote_loop_no_NUL [OF nn] by (rule c_string_no_NUL)
      ultimately have "tokenize_quoted_string (quote s) = None"
        unfolding q by (simp add: char_defs)
      with tq show False by simp
    qed
    with nn True show ?thesis by simp
  qed
qed

text \<open>Texts and token chains of addresses made of atoms, periods and at-signs.\<close>

definition atom_text :: "string \<Rightarrow> bool" where
  "atom_text a \<longleftrightarrow> a \<noteq> [] \<and> (\<forall>c \<in> set a. isatom c)"

fun dotted :: "string list \<Rightarrow> string" where
  "dotted [] = []"
| "dotted (a # as) = a @ concat (map (\<lambda>b. CHR ''.'' # b) as)"

definition dotted_atoms :: "string list \<Rightarrow> bool" where
  "dotted_atoms as \<longleftrightarrow> as \<noteq> [] \<and> (\<forall>a \<in> set as. atom_text a)"

definition at_chain :: "string list \<Rightarrow> string" where
  "at_chain ds = concat (map (\<lambda>d. CHR ''@'' # d) ds)"

definition atom_tok :: "string \<Rightarrow> token" where
  "atom_tok a = \<lparr>ttype = ATOM, tstr = a\<rparr>"

fun dot_tokens :: "string list \<Rightarrow> token list" where
  "dot_tokens [] = []"
| "dot_tokens (a # as) = atom_tok a # concat (map (\<lambda>b. [anode0 PERIOD, atom_tok b]) as)"

definition chain_tokens :: "string list list \<Rightarrow> token list" where
  "chain_tokens ds = concat (map (\<lambda>d. anode0 AT # dot_tokens d) ds)"

lemma skipatom_append:
  "\<forall>c \<in> set a. isatom c \<Longrightarrow> \<not> isatom (peek rest) \<Longrightarrow> skipatom (a @ rest) = rest"
  by (induction a) (auto, cases rest, auto)

lemma not_isatom_NUL: "\<not> isatom NUL"
  by (simp add: isatom_def isctl_def NUL_def)

lemma tokenize1_atom_then:
  assumes "atom_text a" and "\<not> isatom (peek rest)"
  shows "tokenize1 (a @ rest) = Some (atom_tok a, rest)"
proof -
  from assms(1) obtain c cs where a: "a = c # cs" and c: "isatom c"
    and cs: "\<forall>x \<in> set cs. isatom x"
    by (cases a) (auto simp: atom_text_def)
  from c have nsp: "\<not> isspace c" and nsym: "\<not> issymbol c"
    by (auto simp: isatom_def)
  from c have nn: "c \<noteq> NUL" by (rule isatom_not_NUL)
  from nsym have st: "special_type c = None"
    by (cases "special_type c") (auto dest: special_type_symbol)
  from nsym have ne: "c \<noteq> LPAREN" "c \<noteq> LSQBRACKET" "c \<noteq> QUOTE"
    by (auto simp: issymbol_def)
  have sk: "skipatom (cs @ rest) = rest"
    using cs assms(2) by (rule skipatom_append)
  have "anode ATOM ((c # cs) @ rest) rest = \<lparr>ttype = ATOM, tstr = c # cs\<rparr>"
    by (rule anode_append)
  with a c sk nsp nn st ne show ?thesis
    by (simp add: tokenize1_def Let_def atom_tok_def)
qed

lemma tokenize_atom_then:
  assumes "atom_text a" and "\<not> isatom (peek rest)" and "tokenize rest = Some ts"
  shows "tokenize (a @ rest) = Some (atom_tok a # ts)"
  using tokenize1_atom_then [OF assms(1,2)] assms(3)
  by (subst tokenize.simps) (simp add: atom_tok_def)

lemma tokenize_special_then:
  assumes "special_type c = Some ty" and "ty \<noteq> EOT" and "tokenize rest = Some ts"
  shows "tokenize (c # rest) = Some (anode0 ty # ts)"
proof -
  from assms(1) have "issymbol c" by (rule special_type_symbol)
  then have "\<not> isspace c" "c \<noteq> NUL"
    using assms(1) by (auto simp: special_type_def isspace_def NUL_def split: if_splits)
  then have "tokenize1 (c # rest) = Some (anode0 ty, rest)"
    using assms(1) by (simp add: tokenize1_def Let_def)
  with assms(2,3) show ?thesis
    by (subst tokenize.simps) simp
qed

lemma peek_symbol_append: "issymbol c \<Longrightarrow> \<not> isatom (peek (c # rest))"
  by (simp add: symbol_chars(1))

lemma tokenize_dots:
  assumes "\<forall>a \<in> set as. atom_text a" and "\<not> isatom (peek rest)"
    and "tokenize rest = Some ts"
  shows "tokenize (concat (map (\<lambda>b. CHR ''.'' # b) as) @ rest)
         = Some (concat (map (\<lambda>b. [anode0 PERIOD, atom_tok b]) as) @ ts)"
  using assms(1)
proof (induction as)
  case Nil
  with assms(3) show ?case by simp
next
  case (Cons a as)
  let ?rest = "concat (map (\<lambda>b. CHR ''.'' # b) as) @ rest"
  have pk: "\<not> isatom (peek ?rest)"
    using assms(2) by (cases as) (simp_all add: isatom_def issymbol_def)
  from Cons have ih: "tokenize ?rest
         = Some (concat (map (\<lambda>b. [anode0 PERIOD, atom_tok b]) as) @ ts)" by simp
  from Cons.prems have "atom_text a" by simp
  from tokenize_atom_then [OF this pk ih]
  have "tokenize (a @ ?rest)
        = Some (atom_tok a # concat (map (\<lambda>b. [anode0 PERIOD, atom_tok b]) as) @ ts)" .
  moreover have "special_type CHR ''.'' = Some PERIOD" by (simp add: special_type_def)
  ultimately have "tokenize (CHR ''.'' # a @ ?rest)
        = Some (anode0 PERIOD # atom_tok a # concat (map (\<lambda>b. [anode0 PERIOD, atom_tok b]) as) @ ts)"
    by (intro tokenize_special_then) simp_all
  then show ?case by simp
qed

lemma tokenize_dotted:
  assumes "dotted_atoms as" and "\<not> isatom (peek rest)" and "tokenize rest = Some ts"
  shows "tokenize (dotted as @ rest) = Some (dot_tokens as @ ts)"
proof -
  from assms(1) obtain a bs where as: "as = a # bs" and a: "atom_text a"
    and bs: "\<forall>b \<in> set bs. atom_text b"
    by (cases as) (auto simp: dotted_atoms_def)
  let ?rest = "concat (map (\<lambda>b. CHR ''.'' # b) bs) @ rest"
  have pk: "\<not> isatom (peek ?rest)"
    using assms(2) by (cases bs) (simp_all add: isatom_def issymbol_def)
  from tokenize_atom_then [OF a pk tokenize_dots [OF bs assms(2,3)]] as
  show ?thesis by simp
qed

lemma tokenize_chain:
  assumes "\<forall>d \<in> set ds. dotted_atoms d"
  shows "tokenize (at_chain (map dotted ds)) = Some (chain_tokens ds @ [anode0 EOT])"
    and "\<not> isatom (peek (at_chain (map dotted ds)))"
  using assms
proof (induction ds)
  case Nil
  {
    case 1
    show ?case by (simp add: at_chain_def chain_tokens_def tokenize_Nil)
  next
    case 2
    show ?case by (simp add: at_chain_def not_isatom_NUL)
  }
next
  case (Cons d ds)
  {
    case 1
    then have d: "dotted_atoms d" and ds: "\<forall>d \<in> set ds. dotted_atoms d" by simp_all
    from tokenize_dotted [OF d Cons.IH(2) [OF ds] Cons.IH(1) [OF ds]]
    have "tokenize (dotted d @ at_chain (map dotted ds))
          = Some (dot_tokens d @ chain_tokens ds @ [anode0 EOT])" .
    moreover have "special_type CHR ''@'' = Some AT" by (simp add: special_type_def)
    ultimately have "tokenize (CHR ''@'' # dotted d @ at_chain (map dotted ds))
          = Some (anode0 AT # dot_tokens d @ chain_tokens ds @ [anode0 EOT])"
      by (intro tokenize_special_then) simp_all
    then show ?case by (simp add: at_chain_def chain_tokens_def)
  next
    case 2
    show ?case by (simp add: at_chain_def isatom_def issymbol_def)
  }
qed

lemma tokenize_address_text:
  assumes "dotted_atoms L" and "\<forall>d \<in> set ds. dotted_atoms d"
  shows "tokenize (dotted L @ at_chain (map dotted ds))
         = Some (dot_tokens L @ chain_tokens ds @ [anode0 EOT])"
  using tokenize_dotted [OF assms(1) tokenize_chain(2) [OF assms(2)] tokenize_chain(1) [OF assms(2)]] .


lemma ttype_atom_tok [simp]: "ttype (atom_tok a) = ATOM" "tstr (atom_tok a) = a"
  by (simp_all add: atom_tok_def)

lemma tstr_anode0 [simp]: "tstr (anode0 ty) = []"
  by (simp add: anode0_def)

lemma match_word_atom:
  "match_word (atom_tok a # rest) = Inr \<lparr>rnext = rest, rstr = a, rcomment = [], raddr = a\<rparr>"
  by (simp add: match_word_def)

lemma match_sub_domain_atom:
  "match_sub_domain (atom_tok a # rest)
   = Inr \<lparr>rnext = rest, rstr = a, rcomment = [], raddr = a\<rparr>"
  by (simp add: match_sub_domain_def)

lemma match_word_other:
  "ttype t \<noteq> COMMENT \<Longrightarrow> ttype t \<noteq> ATOM \<Longrightarrow> ttype t \<noteq> QUOTED_STRING \<Longrightarrow>
     match_word (t # rest) = Inr FAILED"
  by (simp add: match_word_def)

lemma local_part_loop_atoms:
  assumes "rnext r = concat (map (\<lambda>b. [anode0 PERIOD, atom_tok b]) as) @ t # tl0"
    and "ttype t \<noteq> PERIOD" and "ttype t \<noteq> COMMENT"
  shows "local_part_loop r =
         Inr (r\<lparr>rnext := t # tl0,
                rstr := rstr r @ concat (map (\<lambda>b. CHR ''.'' # b) as),
                raddr := raddr r @ concat (map (\<lambda>b. CHR ''.'' # b) as)\<rparr>)"
  using assms(1)
proof (induction as arbitrary: r)
  case Nil
  with assms(2,3) show ?case
    by (subst local_part_loop.simps) simp
next
  case (Cons a as)
  let ?rest = "concat (map (\<lambda>b. [anode0 PERIOD, atom_tok b]) as) @ t # tl0"
  let ?r = "r\<lparr>rnext := ?rest, rstr := rstr r @ ''.'' @ a,
              rcomment := rcomment r @ [], raddr := raddr r @ ''.'' @ a\<rparr>"
  have "local_part_loop r = local_part_loop ?r"
    using Cons.prems
    by (subst local_part_loop.simps) (simp add: match_word_atom ok_def)
  also have "\<dots> = Inr (?r\<lparr>rnext := t # tl0,
                rstr := rstr ?r @ concat (map (\<lambda>b. CHR ''.'' # b) as),
                raddr := raddr ?r @ concat (map (\<lambda>b. CHR ''.'' # b) as)\<rparr>)"
    by (rule Cons.IH) simp
  finally show ?case by simp
qed

lemma domain_loop_atoms:
  assumes "rnext r = concat (map (\<lambda>b. [anode0 PERIOD, atom_tok b]) as) @ t # tl0"
    and "ttype t \<noteq> PERIOD" and "ttype t \<noteq> COMMENT"
  shows "domain_loop r c =
         Inr (r\<lparr>rnext := t # tl0,
                rstr := rstr r @ concat (map (\<lambda>b. CHR ''.'' # b) as),
                raddr := raddr r @ concat (map (\<lambda>b. CHR ''.'' # b) as)\<rparr>, c)"
  using assms(1)
proof (induction as arbitrary: r)
  case Nil
  with assms(2,3) show ?case
    by (subst domain_loop.simps) simp
next
  case (Cons a as)
  let ?rest = "concat (map (\<lambda>b. [anode0 PERIOD, atom_tok b]) as) @ t # tl0"
  let ?r = "r\<lparr>rnext := ?rest, rstr := rstr r @ [enum_char PERIOD] @ a,
              raddr := raddr r @ [enum_char PERIOD] @ a\<rparr>"
  have "domain_loop r c = domain_loop ?r (c @ [])"
    using Cons.prems
    by (subst domain_loop.simps) (simp add: match_sub_domain_atom ok_def)
  also have "\<dots> = Inr (?r\<lparr>rnext := t # tl0,
                rstr := rstr ?r @ concat (map (\<lambda>b. CHR ''.'' # b) as),
                raddr := raddr ?r @ concat (map (\<lambda>b. CHR ''.'' # b) as)\<rparr>, c)"
    using Cons.IH [of ?r] by simp
  finally show ?case by simp
qed

lemma match_local_part_dotted:
  assumes "as \<noteq> []" and "ttype t \<noteq> PERIOD" and "ttype t \<noteq> COMMENT"
  shows "match_local_part (dot_tokens as @ t # tl0)
         = Inr \<lparr>rnext = t # tl0, rstr = dotted as, rcomment = [], raddr = dotted as\<rparr>"
proof -
  from assms(1) obtain a bs where as: "as = a # bs" by (cases as) auto
  let ?rest = "concat (map (\<lambda>b. [anode0 PERIOD, atom_tok b]) bs) @ t # tl0"
  let ?r = "\<lparr>rnext = ?rest, rstr = a, rcomment = [], raddr = a\<rparr>"
  have "local_part_loop ?r = Inr (?r\<lparr>rnext := t # tl0,
                rstr := rstr ?r @ concat (map (\<lambda>b. CHR ''.'' # b) bs),
                raddr := raddr ?r @ concat (map (\<lambda>b. CHR ''.'' # b) bs)\<rparr>)"
    by (rule local_part_loop_atoms [OF _ assms(2,3)]) simp
  then show ?thesis
    by (simp add: match_local_part_def as match_word_atom ok_def)
qed

lemma match_domain_dotted:
  assumes "as \<noteq> []" and "ttype t \<noteq> PERIOD" and "ttype t \<noteq> COMMENT"
  shows "match_domain (dot_tokens as @ t # tl0)
         = Inr \<lparr>rnext = t # tl0, rstr = dotted as, rcomment = [], raddr = dotted as\<rparr>"
proof -
  from assms(1) obtain a bs where as: "as = a # bs" by (cases as) auto
  let ?rest = "concat (map (\<lambda>b. [anode0 PERIOD, atom_tok b]) bs) @ t # tl0"
  let ?r = "\<lparr>rnext = ?rest, rstr = a, rcomment = [], raddr = a\<rparr>"
  have "domain_loop ?r [] = Inr (?r\<lparr>rnext := t # tl0,
                rstr := rstr ?r @ concat (map (\<lambda>b. CHR ''.'' # b) bs),
                raddr := raddr ?r @ concat (map (\<lambda>b. CHR ''.'' # b) bs)\<rparr>, [])"
    by (rule domain_loop_atoms [OF _ assms(2,3)]) simp
  then show ?thesis
    by (simp add: match_domain_def as match_sub_domain_atom ok_def)
qed


lemma chain_tokens_head:
  assumes "ttype e \<noteq> PERIOD" and "ttype e \<noteq> COMMENT"
  shows "\<exists>t tl0. chain_tokens ds @ e # es = t # tl0 \<and> ttype t \<noteq> PERIOD \<and> ttype t \<noteq> COMMENT"
  using assms by (cases ds) (simp_all add: chain_tokens_def)

lemma dotted_not_Nil: "dotted_atoms d \<Longrightarrow> dotted d \<noteq> []"
  by (cases d) (auto simp: dotted_atoms_def atom_text_def)

lemma at_chain_Cons: "at_chain (d # ds) = CHR ''@'' # d @ at_chain ds"
  by (simp add: at_chain_def)

lemma addr_spec_loop_chain:
  assumes "ttype e \<noteq> PERIOD" and "ttype e \<noteq> COMMENT" and "ttype e \<noteq> AT"
    and "\<forall>d \<in> set ds. dotted_atoms d"
  shows "rnext r = chain_tokens ds @ e # es \<Longrightarrow> dm \<noteq> [] \<Longrightarrow>
         addr_spec_loop r dm =
         Inr (r\<lparr>rnext := e # es,
                rstr := rstr r @ at_chain (butlast (dm # map dotted ds)),
                raddr := raddr r @ at_chain (butlast (dm # map dotted ds))\<rparr>,
              last (dm # map dotted ds))"
  using assms(4)
proof (induction ds arbitrary: r dm)
  case Nil
  with assms(2,3) show ?case
    by (subst addr_spec_loop.simps) (simp add: chain_tokens_def at_chain_def)
next
  case (Cons d ds)
  from chain_tokens_head [OF assms(1,2), of ds es] obtain t tl0
    where rest: "chain_tokens ds @ e # es = t # tl0"
      and t: "ttype t \<noteq> PERIOD" "ttype t \<noteq> COMMENT" by blast
  from Cons.prems have d: "dotted_atoms d" by simp
  then have dne: "d \<noteq> []" by (simp add: dotted_atoms_def)
  have md: "match_domain (dot_tokens d @ t # tl0)
         = Inr \<lparr>rnext = t # tl0, rstr = dotted d, rcomment = [], raddr = dotted d\<rparr>"
    by (rule match_domain_dotted [OF dne t])
  have rn: "rnext r = anode0 AT # dot_tokens d @ t # tl0"
    using Cons.prems(1) rest by (simp add: chain_tokens_def)
  let ?r = "r\<lparr>rnext := t # tl0,
              rstr := rstr r @ ''@'' @ dm,
              rcomment := rcomment r @ [],
              raddr := raddr r @ ''@'' @ dm\<rparr>"
  have "addr_spec_loop r dm = addr_spec_loop ?r (dotted d)"
    using rn md Cons.prems(2)
    by (subst addr_spec_loop.simps) (simp add: ok_def)
  also have "\<dots> = Inr (?r\<lparr>rnext := e # es,
                rstr := rstr ?r @ at_chain (butlast (dotted d # map dotted ds)),
                raddr := raddr ?r @ at_chain (butlast (dotted d # map dotted ds))\<rparr>,
              last (dotted d # map dotted ds))"
    using Cons.prems(3) rest dotted_not_Nil [OF d] by (intro Cons.IH) simp_all
  finally show ?case by (simp add: at_chain_Cons)
qed

lemma addr_spec_loop_chain0:
  assumes "ttype e \<noteq> PERIOD" and "ttype e \<noteq> COMMENT" and "ttype e \<noteq> AT"
    and "\<forall>d \<in> set ds. dotted_atoms d" and "ds \<noteq> []"
    and "rnext r = chain_tokens ds @ e # es"
  shows "addr_spec_loop r [] =
         Inr (r\<lparr>rnext := e # es,
                rstr := rstr r @ at_chain (map dotted (butlast ds)),
                raddr := raddr r @ at_chain (map dotted (butlast ds))\<rparr>,
              dotted (last ds))"
proof -
  from assms(5) obtain d ds' where ds: "ds = d # ds'" by (cases ds) auto
  from chain_tokens_head [OF assms(1,2), of ds' es] obtain t tl0
    where rest: "chain_tokens ds' @ e # es = t # tl0"
      and t: "ttype t \<noteq> PERIOD" "ttype t \<noteq> COMMENT" by blast
  from assms(4) ds have d: "dotted_atoms d" and ds': "\<forall>d \<in> set ds'. dotted_atoms d"
    by simp_all
  then have dne: "d \<noteq> []" by (simp add: dotted_atoms_def)
  have md: "match_domain (dot_tokens d @ t # tl0)
         = Inr \<lparr>rnext = t # tl0, rstr = dotted d, rcomment = [], raddr = dotted d\<rparr>"
    by (rule match_domain_dotted [OF dne t])
  have rn: "rnext r = anode0 AT # dot_tokens d @ t # tl0"
    using assms(6) rest ds by (simp add: chain_tokens_def)
  let ?r = "r\<lparr>rnext := t # tl0, rcomment := rcomment r @ []\<rparr>"
  have "addr_spec_loop r [] = addr_spec_loop ?r (dotted d)"
    using rn md
    by (subst addr_spec_loop.simps) (simp add: ok_def)
  also have "\<dots> = Inr (?r\<lparr>rnext := e # es,
                rstr := rstr ?r @ at_chain (butlast (dotted d # map dotted ds')),
                raddr := raddr ?r @ at_chain (butlast (dotted d # map dotted ds'))\<rparr>,
              last (dotted d # map dotted ds'))"
    using rest dotted_not_Nil [OF d]
    by (intro addr_spec_loop_chain [OF assms(1,2,3) ds']) simp_all
  finally show ?thesis
    unfolding ds by (simp add: map_butlast last_map)
qed

lemma match_addr_spec_chain:
  assumes "ttype e \<noteq> PERIOD" and "ttype e \<noteq> COMMENT" and "ttype e \<noteq> AT"
    and "\<forall>d \<in> set ds. dotted_atoms d" and "ds \<noteq> []"
    and "match_local_part node = Inr rL" and "rnext rL = chain_tokens ds @ e # es"
  shows "match_addr_spec canon node =
         Inr \<lparr>rnext = e # es,
              rstr = rstr rL @ at_chain (map dotted (butlast ds)) @ ''@'' @ canon (dotted (last ds)),
              rcomment = rcomment rL,
              raddr = raddr rL @ at_chain (map dotted (butlast ds)) @ ''@''
                      @ canon (dotted (last ds)) @ [CHR 0x0A]\<rparr>"
proof -
  from assms(7) have "ok rL" by (simp add: ok_def)
  with assms(6) addr_spec_loop_chain0 [OF assms(1-5) assms(7)] show ?thesis
    by (simp add: match_addr_spec_def)
qed

lemma address_tokens_head:
  assumes "L \<noteq> []" and "ds \<noteq> []"
  shows "\<exists>a x tl0. dot_tokens L @ chain_tokens ds @ [anode0 EOT] = atom_tok a # x # tl0 \<and>
           (ttype x = PERIOD \<or> ttype x = AT)"
proof -
  from assms obtain a bs d ds' where "L = a # bs" "ds = d # ds'"
    by (cases L; cases ds) auto
  then show ?thesis by (cases bs) (auto simp: chain_tokens_def)
qed

lemma match_phrase_atom:
  assumes "ttype x = PERIOD \<or> ttype x = AT"
  shows "match_phrase (atom_tok a # x # tl0)
         = Inr \<lparr>rnext = x # tl0, rstr = a, rcomment = [], raddr = a\<rparr>"
proof -
  from assms have "match_word (x # tl0) = Inr FAILED"
    by (intro match_word_other) auto
  then have "phrase_loop \<lparr>rnext = x # tl0, rstr = a, rcomment = [], raddr = a\<rparr>
             = Inr \<lparr>rnext = x # tl0, rstr = a, rcomment = [], raddr = a\<rparr>"
    by (subst phrase_loop.simps) simp
  then show ?thesis
    by (simp add: match_phrase_def match_word_atom ok_def)
qed

lemma match_group_atom:
  assumes "ttype x = PERIOD \<or> ttype x = AT"
  shows "match_group canon (atom_tok a # x # tl0) = Inr FAILED"
  using assms by (auto simp: match_group_def match_phrase_atom ok_def)

lemma match_route_spec_atom:
  assumes "ttype x = PERIOD \<or> ttype x = AT"
  shows "match_route_spec canon (atom_tok a # x # tl0) = Inr FAILED"
proof -
  from assms have "match_route_addr canon (x # tl0) = Inr FAILED"
    by (auto simp: match_route_addr_def)
  with assms show ?thesis
    by (simp add: match_route_spec_def match_phrase_atom ok_def)
qed

lemma match_addresses_chain:
  assumes "dotted_atoms L" and "\<forall>d \<in> set ds. dotted_atoms d" and "ds \<noteq> []"
  shows "match_addresses canon (dot_tokens L @ chain_tokens ds @ [anode0 EOT]) =
         Inr \<lparr>rnext = [anode0 EOT],
              rstr = dotted L @ at_chain (map dotted (butlast ds)) @ ''@'' @ canon (dotted (last ds)),
              rcomment = [],
              raddr = dotted L @ at_chain (map dotted (butlast ds)) @ ''@''
                      @ canon (dotted (last ds)) @ [CHR 0x0A]\<rparr>"
    (is "match_addresses canon ?node = Inr ?r")
proof -
  from assms(1) have L: "L \<noteq> []" by (simp add: dotted_atoms_def)
  from address_tokens_head [OF L assms(3)] obtain a x tl0
    where node: "?node = atom_tok a # x # tl0" and x: "ttype x = PERIOD \<or> ttype x = AT"
    by blast
  have e: "ttype (anode0 EOT) \<noteq> PERIOD" "ttype (anode0 EOT) \<noteq> COMMENT"
    "ttype (anode0 EOT) \<noteq> AT" by simp_all
  from chain_tokens_head [OF e(1,2), of ds "[]"] obtain t tl1
    where rest: "chain_tokens ds @ [anode0 EOT] = t # tl1"
      and t: "ttype t \<noteq> PERIOD" "ttype t \<noteq> COMMENT" by blast
  have lp: "match_local_part ?node
            = Inr \<lparr>rnext = chain_tokens ds @ [anode0 EOT], rstr = dotted L,
                   rcomment = [], raddr = dotted L\<rparr>"
    unfolding rest by (rule match_local_part_dotted [OF L t])
  have as: "match_addr_spec canon ?node = Inr ?r"
    using match_addr_spec_chain [OF e assms(2,3) lp, of "[]" canon] by simp
  have okr: "ok ?r" by (simp add: ok_def)
  have "match_route_spec canon ?node = Inr FAILED"
    unfolding node by (rule match_route_spec_atom [OF x])
  with as okr have mb: "match_mailbox canon ?node = Inr ?r"
    by (simp add: match_mailbox_def)
  have "match_group canon ?node = Inr FAILED"
    unfolding node by (rule match_group_atom [OF x])
  with mb okr have ad: "match_address canon ?node = Inr ?r"
    by (simp add: match_address_def)
  have cl: "comma_loop [anode0 EOT] s = Inr ([anode0 EOT], s)" for s
    by (subst comma_loop.simps) simp
  have "addresses_loop canon ?r = Inr (?r, [anode0 EOT])"
    by (subst addresses_loop.simps) (simp add: cl)
  with ad okr show ?thesis
    by (simp add: match_addresses_def)
qed

text \<open>
  A rule settles at a position when it returns without a fault and its result
  is the failure value or has a position that is not null and is a proper
  suffix of the position the rule started from.
\<close>

definition settles :: "token list \<Rightarrow> fault + result \<Rightarrow> bool" where
  "settles node m \<longleftrightarrow>
     (case m of
        Inl e \<Rightarrow> False
      | Inr r \<Rightarrow> r = FAILED \<or> (ok r \<and> strict_suffix (rnext r) node))"

lemma settlesI:
  assumes "\<exists>r. m = Inr r \<and> (r = FAILED \<or> well_formed (rnext r))"
    and "\<And>r. m = Inr r \<Longrightarrow> advanced node r"
  shows "settles node m"
  using assms by (auto simp: settles_def advanced_def dest: well_formed_ok)

lemma or_rule_second:
  assumes "\<exists>r. m = Inr r \<and> (r = FAILED \<or> well_formed (rnext r))"
  shows "(case m of Inl e \<Rightarrow> Inl e | Inr r' \<Rightarrow> if ok r' then Inr r' else Inr FAILED) = m"
  using assms by (auto dest: well_formed_ok)

text \<open>
  Two positions are similar up to n when their tokens have the same kinds and
  the same text except in the last n tokens.
\<close>

definition sim :: "nat \<Rightarrow> token list \<Rightarrow> token list \<Rightarrow> bool" where
  "sim n p q \<longleftrightarrow>
     map ttype p = map ttype q \<and> take (length p - n) p = take (length p - n) q"

definition rsim :: "nat \<Rightarrow> result \<Rightarrow> result \<Rightarrow> bool" where
  "rsim n r r' \<longleftrightarrow>
     sim n (rnext r) (rnext r') \<and>
     (n \<le> length (rnext r) \<longrightarrow>
        rstr r = rstr r' \<and> rcomment r = rcomment r' \<and> raddr r = raddr r')"

lemma sim_length: "sim n p q \<Longrightarrow> length p = length q"
  by (auto simp: sim_def dest: map_eq_imp_length_eq)

lemma sim_Nil [simp]: "sim n [] q \<longleftrightarrow> q = []" "sim n p [] \<longleftrightarrow> p = []"
  by (auto simp: sim_def)

lemma sim_Cons:
  assumes "sim n (t # ts) q"
  obtains u us where "q = u # us" "ttype u = ttype t" "sim n ts us" "n \<le> length ts \<longrightarrow> u = t"
proof -
  from assms obtain u us where q: "q = u # us" by (cases q) (auto simp: sim_def)
  from assms q have k: "ttype u = ttype t" "map ttype ts = map ttype us"
    by (auto simp: sim_def)
  have s: "sim n ts us"
  proof (cases "n \<le> length ts")
    case True
    then have "Suc (length ts) - n = Suc (length ts - n)" by simp
    with assms q k show ?thesis by (simp add: sim_def)
  next
    case False
    with k show ?thesis by (simp add: sim_def)
  qed
  have "n \<le> length ts \<longrightarrow> u = t"
  proof
    assume "n \<le> length ts"
    then have "Suc (length ts) - n = Suc (length ts - n)" by simp
    with assms q show "u = t" by (simp add: sim_def)
  qed
  with q k s that show thesis by blast
qed

lemma rsim_FAILED [simp]: "rsim n FAILED FAILED"
  by (simp add: rsim_def FAILED_def sim_def)

lemma rsim_ok: "rsim n r r' \<Longrightarrow> ok r' \<longleftrightarrow> ok r"
  by (auto simp: rsim_def ok_def)

lemma skipcomment_sim:
  assumes "well_formed p" and "sim n p q"
  shows "\<exists>p' q' c1 c1'. skipcomment p c = Inr (p', c1) \<and> skipcomment q c' = Inr (q', c1') \<and>
           sim n p' q' \<and> (n \<le> length p' \<and> c = c' \<longrightarrow> c1 = c1')"
  using assms
proof (induction p c arbitrary: q c' rule: skipcomment.induct)
  case (1 comment)
  then show ?case by (simp add: well_formed_def)
next
  case (2 t ts comment)
  from "2.prems"(2) obtain u us where q: "q = u # us" and k: "ttype u = ttype t"
    and s: "sim n ts us" and e: "n \<le> length ts \<longrightarrow> u = t"
    by (rule sim_Cons)
  show ?case
  proof (cases "ttype t = COMMENT")
    case True
    with "2.prems"(1) have wf: "well_formed ts" by (auto intro: well_formed_tl)
    from "2.IH" [OF True wf s, of "c' @ '' '' @ tstr u"] obtain p' q' c1 c1'
      where sk: "skipcomment ts (comment @ '' '' @ tstr t) = Inr (p', c1)"
        "skipcomment us (c' @ '' '' @ tstr u) = Inr (q', c1')" "sim n p' q'"
        and c: "n \<le> length p' \<and> comment @ '' '' @ tstr t = c' @ '' '' @ tstr u \<longrightarrow> c1 = c1'"
      by blast
    from skipcomment_length [OF sk(1)] have "length p' \<le> length ts" .
    with e c have "n \<le> length p' \<and> comment = c' \<longrightarrow> c1 = c1'" by auto
    with sk True k q show ?thesis by auto
  next
    case False
    with k q "2.prems"(2) show ?thesis by auto
  qed
qed


lemma skipcomment_sim_deref:
  assumes "well_formed p" and "well_formed q" and "sim n p q"
  obtains t nx u ux c1 c1' where
    "skipcomment p c = Inr (t # nx, c1)" "skipcomment q c' = Inr (u # ux, c1')"
    "well_formed (t # nx)" "well_formed (u # ux)"
    "ttype u = ttype t" "sim n nx ux" "n \<le> length nx \<longrightarrow> u = t"
    "n \<le> Suc (length nx) \<and> c = c' \<longrightarrow> c1 = c1'"
proof -
  from skipcomment_sim [OF assms(1,3), of c c'] obtain p' q' c1 c1'
    where sk: "skipcomment p c = Inr (p', c1)" "skipcomment q c' = Inr (q', c1')"
      and s: "sim n p' q'" and c: "n \<le> length p' \<and> c = c' \<longrightarrow> c1 = c1'"
    by blast
  from skipcomment_wf [OF assms(1), of c] sk(1) have wfp: "well_formed p'" by simp
  from skipcomment_wf [OF assms(2), of c'] sk(2) have wfq: "well_formed q'" by simp
  from wfp obtain t nx where p': "p' = t # nx" by (cases p') (auto simp: well_formed_def)
  from s [unfolded p'] obtain u ux where "q' = u # ux" "ttype u = ttype t" "sim n nx ux"
    "n \<le> length nx \<longrightarrow> u = t"
    by (rule sim_Cons)
  with sk wfp wfq c p' that show thesis by simp
qed

lemma sub_domain_sim:
  assumes "well_formed p" and "well_formed q" and "sim n p q"
  shows "\<exists>r r'. match_sub_domain p = Inr r \<and> match_sub_domain q = Inr r' \<and> rsim n r r'"
proof -
  obtain t nx u ux c1 c1' where
    sk: "skipcomment p [] = Inr (t # nx, c1)" "skipcomment q [] = Inr (u # ux, c1')"
    and k: "ttype u = ttype t" and s: "sim n nx ux" and e: "n \<le> length nx \<longrightarrow> u = t"
    and c: "n \<le> Suc (length nx) \<and> [] = ([]::string) \<longrightarrow> c1 = c1'"
    using assms by (rule skipcomment_sim_deref)
  with sk show ?thesis
    by (auto simp: match_sub_domain_def rsim_def)
qed

lemma word_sim:
  assumes "well_formed p" and "well_formed q" and "sim n p q"
  shows "\<exists>r r'. match_word p = Inr r \<and> match_word q = Inr r' \<and> rsim n r r'"
proof -
  obtain t nx u ux c1 c1' where
    sk: "skipcomment p [] = Inr (t # nx, c1)" "skipcomment q [] = Inr (u # ux, c1')"
    and wf: "well_formed (t # nx)" "well_formed (u # ux)"
    and k: "ttype u = ttype t" and s: "sim n nx ux" and e: "n \<le> length nx \<longrightarrow> u = t"
    and c: "n \<le> Suc (length nx) \<and> [] = ([]::string) \<longrightarrow> c1 = c1'"
    using assms by (rule skipcomment_sim_deref)
  show ?thesis
  proof (cases "ttype t = QUOTED_STRING")
    case True
    with wf k obtain a a' where "unquote (tstr t) = Inr a" "unquote (tstr u) = Inr a'"
      by (cases "unquote (tstr t)"; cases "unquote (tstr u)") (auto simp: well_formed_def)
    with sk k s e c True show ?thesis
      by (auto simp: match_word_def rsim_def)
  next
    case False
    with sk k s e c show ?thesis
      by (auto simp: match_word_def rsim_def)
  qed
qed


lemma sim_ConsI:
  assumes "ttype u = ttype t" and "sim n nx ux" and "n \<le> length nx \<longrightarrow> u = t"
  shows "sim n (t # nx) (u # ux)"
proof (cases "n \<le> length nx")
  case True
  then have "Suc (length nx) - n = Suc (length nx - n)" by simp
  with assms True show ?thesis by (simp add: sim_def)
next
  case False
  with assms show ?thesis by (simp add: sim_def)
qed

lemma domain_loop_sim:
  "well_formed (rnext r) \<Longrightarrow> well_formed (rnext r') \<Longrightarrow> rsim n r r' \<Longrightarrow>
   (n \<le> length (rnext r) \<longrightarrow> c = c') \<Longrightarrow>
   \<exists>rf cf rf' cf'. domain_loop r c = Inr (rf, cf) \<and> domain_loop r' c' = Inr (rf', cf') \<and>
      rsim n rf rf' \<and> (n \<le> length (rnext rf) \<longrightarrow> cf = cf')"
proof (induction r c arbitrary: r' c' rule: domain_loop.induct)
  case (1 r comment)
  from "1.prems"(3) have s0: "sim n (rnext r) (rnext r')" by (simp add: rsim_def)
  obtain t nx u ux c1 c1' where
    sk: "skipcomment (rnext r) comment = Inr (t # nx, c1)"
        "skipcomment (rnext r') c' = Inr (u # ux, c1')"
    and wf: "well_formed (t # nx)" "well_formed (u # ux)"
    and k: "ttype u = ttype t" and s: "sim n nx ux" and e: "n \<le> length nx \<longrightarrow> u = t"
    and c: "n \<le> Suc (length nx) \<and> comment = c' \<longrightarrow> c1 = c1'"
    using "1.prems"(1,2) s0 by (rule skipcomment_sim_deref)
  from skipcomment_length [OF sk(1)] have len: "Suc (length nx) \<le> length (rnext r)" by simp
  have s1: "sim n (t # nx) (u # ux)" using k s e by (rule sim_ConsI)
  have stop: "rsim n (r\<lparr>rnext := t # nx\<rparr>) (r'\<lparr>rnext := u # ux\<rparr>)
              \<and> (n \<le> length (rnext (r\<lparr>rnext := t # nx\<rparr>)) \<longrightarrow> c1 = c1')"
    using "1.prems"(3,4) s1 c len by (auto simp: rsim_def)
  show ?case
  proof (cases "ttype t \<noteq> PERIOD")
    case True
    with sk k have "domain_loop r comment = Inr (r\<lparr>rnext := t # nx\<rparr>, c1)"
      "domain_loop r' c' = Inr (r'\<lparr>rnext := u # ux\<rparr>, c1')"
      by (subst domain_loop.simps, simp)+
    with stop show ?thesis by blast
  next
    case period: False
    with wf k have wfn: "well_formed nx" "well_formed ux"
      by (auto intro: well_formed_tl)
    from sub_domain_sim [OF wfn s] obtain r1 r1'
      where r1: "match_sub_domain nx = Inr r1" "match_sub_domain ux = Inr r1'"
        and rs: "rsim n r1 r1'" by blast
    show ?thesis
    proof (cases "ok r1")
      case False
      with rs have "\<not> ok r1'" by (simp add: rsim_ok)
      with False sk k period r1
      have "domain_loop r comment = Inr (r\<lparr>rnext := t # nx\<rparr>, c1)"
        "domain_loop r' c' = Inr (r'\<lparr>rnext := u # ux\<rparr>, c1')"
        by (subst domain_loop.simps, simp)+
      with stop show ?thesis by blast
    next
      case True
      with rs have ok': "ok r1'" by (simp add: rsim_ok)
      let ?R = "r\<lparr>rnext := rnext r1,
                   rstr := rstr r @ [enum_char PERIOD] @ rstr r1,
                   raddr := raddr r @ [enum_char PERIOD] @ raddr r1\<rparr>"
      let ?R' = "r'\<lparr>rnext := rnext r1',
                   rstr := rstr r' @ [enum_char PERIOD] @ rstr r1',
                   raddr := raddr r' @ [enum_char PERIOD] @ raddr r1'\<rparr>"
      from sub_domain_wf [OF wfn(1)] r1(1) True have w1: "well_formed (rnext ?R)" by auto
      from sub_domain_wf [OF wfn(2)] r1(2) ok' have w2: "well_formed (rnext ?R')" by auto
      from advanced_sub_domain [OF r1(1)] True have l1: "length (rnext r1) < length nx"
        by (rule advanced_length)
      have rr: "rsim n ?R ?R'"
        using rs "1.prems"(3) l1 len by (auto simp: rsim_def)
      have cc: "n \<le> length (rnext ?R) \<longrightarrow> c1 @ rcomment r1 = c1' @ rcomment r1'"
        using rs "1.prems"(4) c l1 len by (auto simp: rsim_def)
      from "1.IH" [OF sk(1) refl refl _ r1(1) _ w1 w2 rr cc] period True
      obtain rf cf rf' cf' where
        "domain_loop ?R (c1 @ rcomment r1) = Inr (rf, cf)"
        "domain_loop ?R' (c1' @ rcomment r1') = Inr (rf', cf')"
        "rsim n rf rf'" "n \<le> length (rnext rf) \<longrightarrow> cf = cf'"
        by auto
      moreover have "domain_loop r comment = domain_loop ?R (c1 @ rcomment r1)"
        using sk k period r1 True by (subst domain_loop.simps) simp
      moreover have "domain_loop r' c' = domain_loop ?R' (c1' @ rcomment r1')"
        using sk k period r1 ok' by (subst domain_loop.simps) simp
      ultimately show ?thesis by auto
    qed
  qed
qed

lemma domain_sim:
  assumes "well_formed p" and "well_formed q" and "sim n p q"
  shows "\<exists>r r'. match_domain p = Inr r \<and> match_domain q = Inr r' \<and> rsim n r r'"
proof -
  from sub_domain_sim [OF assms] obtain r0 r0'
    where r0: "match_sub_domain p = Inr r0" "match_sub_domain q = Inr r0'"
      and rs: "rsim n r0 r0'" by blast
  show ?thesis
  proof (cases "ok r0")
    case False
    with rs have "\<not> ok r0'" by (simp add: rsim_ok)
    with False r0 show ?thesis by (simp add: match_domain_def)
  next
    case True
    with rs have ok': "ok r0'" by (simp add: rsim_ok)
    from sub_domain_wf [OF assms(1)] r0(1) True have w1: "well_formed (rnext r0)" by auto
    from sub_domain_wf [OF assms(2)] r0(2) ok' have w2: "well_formed (rnext r0')" by auto
    from domain_loop_sim [OF w1 w2 rs, of "[]" "[]"] obtain rf cf rf' cf'
      where l: "domain_loop r0 [] = Inr (rf, cf)" "domain_loop r0' [] = Inr (rf', cf')"
        and rsf: "rsim n rf rf'" and c: "n \<le> length (rnext rf) \<longrightarrow> cf = cf'"
      by auto
    have "rsim n (rf\<lparr>rcomment := rcomment rf @ cf\<rparr>) (rf'\<lparr>rcomment := rcomment rf' @ cf'\<rparr>)"
      using rsf c by (auto simp: rsim_def)
    with r0 True ok' l show ?thesis by (simp add: match_domain_def)
  qed
qed

fun route_sim ::
  "nat \<Rightarrow> (token list \<times> 32 word \<times> string \<times> string) option \<Rightarrow>
   (token list \<times> 32 word \<times> string \<times> string) option \<Rightarrow> bool" where
  "route_sim n None None = True"
| "route_sim n (Some (p, k, s, c)) (Some (q, k', s', c')) =
     (k = k' \<and> sim n p q \<and> (n \<le> length p \<longrightarrow> s = s' \<and> c = c'))"
| "route_sim n x y = False"

lemma route_loop_sim:
  "well_formed p \<Longrightarrow> well_formed q \<Longrightarrow> sim n p q \<Longrightarrow>
   (n \<le> length p \<longrightarrow> s = s' \<and> c = c') \<Longrightarrow>
   \<exists>x x'. route_loop p cnt s c = Inr x \<and> route_loop q cnt s' c' = Inr x' \<and> route_sim n x x'"
proof (induction p cnt s c arbitrary: q s' c' rule: route_loop.induct)
  case (1 node count str comment)
  from "1.prems"(1) obtain t nx where tnx: "node = t # nx"
    by (cases node) (auto simp: well_formed_def)
  from "1.prems"(3) [unfolded tnx] obtain u ux where q: "q = u # ux" and k: "ttype u = ttype t"
    and s: "sim n nx ux" and e: "n \<le> length nx \<longrightarrow> u = t"
    by (rule sim_Cons)
  show ?case
  proof (cases "ttype t \<noteq> AT")
    case True
    with tnx q k have "route_loop node count str comment = Inr (Some (node, count, str, comment))"
      "route_loop q count s' c' = Inr (Some (q, count, s', c'))"
      by (subst route_loop.simps, simp)+
    with "1.prems"(3,4) show ?thesis by auto
  next
    case at: False
    with "1.prems"(1,2) tnx q k have wfn: "well_formed nx" "well_formed ux"
      by (auto intro: well_formed_tl)
    from domain_sim [OF wfn s] obtain r r'
      where r: "match_domain nx = Inr r" "match_domain ux = Inr r'"
        and rs: "rsim n r r'" by blast
    show ?thesis
    proof (cases "ok r")
      case False
      with rs have "\<not> ok r'" by (simp add: rsim_ok)
      with False tnx q k at r
      have "route_loop node count str comment = Inr None" "route_loop q count s' c' = Inr None"
        by (subst route_loop.simps, simp)+
      then show ?thesis by auto
    next
      case True
      with rs have ok': "ok r'" by (simp add: rsim_ok)
      from domain_wf [OF wfn(1)] r(1) True have w1: "well_formed (rnext r)" by auto
      from domain_wf [OF wfn(2)] r(2) ok' have w2: "well_formed (rnext r')" by auto
      from advanced_domain [OF r(1)] True have l1: "length (rnext r) < length nx"
        by (rule advanced_length)
      from rs have s1: "sim n (rnext r) (rnext r')" by (simp add: rsim_def)
      have cc: "n \<le> length (rnext r) \<longrightarrow>
                str @ ''@'' @ rstr r = s' @ ''@'' @ rstr r' \<and>
                comment @ rcomment r = c' @ rcomment r'"
        using rs "1.prems"(4) l1 tnx by (auto simp: rsim_def)
      from "1.IH" [OF tnx _ r(1) _ w1 w2 s1 cc] at True
      obtain x x' where
        "route_loop (rnext r) (count + 1) (str @ ''@'' @ rstr r) (comment @ rcomment r) = Inr x"
        "route_loop (rnext r') (count + 1) (s' @ ''@'' @ rstr r') (c' @ rcomment r') = Inr x'"
        "route_sim n x x'"
        by auto
      moreover have "route_loop node count str comment =
          route_loop (rnext r) (count + 1) (str @ ''@'' @ rstr r) (comment @ rcomment r)"
        using tnx at r True by (subst route_loop.simps) simp
      moreover have "route_loop q count s' c' =
          route_loop (rnext r') (count + 1) (s' @ ''@'' @ rstr r') (c' @ rcomment r')"
        using q k at r ok' by (subst route_loop.simps) simp
      ultimately show ?thesis by auto
    qed
  qed
qed

lemma route_sim_cases:
  assumes "route_sim n x x'"
  obtains "x = None" "x' = None"
  | pf k sf cf qf sf' cf' where "x = Some (pf, k, sf, cf)" "x' = Some (qf, k, sf', cf')"
      "sim n pf qf" "n \<le> length pf \<longrightarrow> sf = sf' \<and> cf = cf'"
  using assms by (cases "(n, x, x')" rule: route_sim.cases) auto

lemma route_sim':
  assumes "well_formed p" and "well_formed q" and "sim n p q"
  shows "\<exists>r r'. match_route p = Inr r \<and> match_route q = Inr r' \<and> rsim n r r'"
proof -
  from route_loop_sim [OF assms, of "[]" "[]" "[]" "[]" 0] obtain x x'
    where l: "route_loop p 0 [] [] = Inr x" "route_loop q 0 [] [] = Inr x'"
      and rs: "route_sim n x x'" by auto
  from rs show ?thesis
  proof (cases rule: route_sim_cases)
    case 1
    with l show ?thesis by (simp add: match_route_def)
  next
    case (2 pf k sf cf qf sf' cf')
    show ?thesis
    proof (cases "k = 0")
      case True
      with l 2 show ?thesis by (simp add: match_route_def)
    next
      case False
      from route_loop_suffix [OF l(1) [unfolded 2(1)]] assms(1) have w1: "well_formed pf"
        by (auto intro: well_formed_suffix)
      from route_loop_suffix [OF l(2) [unfolded 2(2)]] assms(2) have w2: "well_formed qf"
        by (auto intro: well_formed_suffix)
      obtain t nx u ux c1 c1' where
        sk: "skipcomment pf cf = Inr (t # nx, c1)" "skipcomment qf cf' = Inr (u # ux, c1')"
        and kk: "ttype u = ttype t" and s: "sim n nx ux"
        and c: "n \<le> Suc (length nx) \<and> cf = cf' \<longrightarrow> c1 = c1'"
        using w1 w2 2(3) by (rule skipcomment_sim_deref)
      from skipcomment_length [OF sk(1)] have len: "Suc (length nx) \<le> length pf" by simp
      have "rsim n \<lparr>rnext = nx, rstr = sf, rcomment = c1, raddr = []\<rparr>
                   \<lparr>rnext = ux, rstr = sf', rcomment = c1', raddr = []\<rparr>"
        using s c 2(4) len by (auto simp: rsim_def)
      with l 2 False sk kk show ?thesis
        by (auto simp: match_route_def)
    qed
  qed
qed


lemma local_part_loop_sim:
  "well_formed (rnext r) \<Longrightarrow> well_formed (rnext r') \<Longrightarrow> rsim n r r' \<Longrightarrow>
   \<exists>rf rf'. local_part_loop r = Inr rf \<and> local_part_loop r' = Inr rf' \<and> rsim n rf rf'"
proof (induction r arbitrary: r' rule: local_part_loop.induct)
  case (1 r)
  from "1.prems"(3) have s0: "sim n (rnext r) (rnext r')" by (simp add: rsim_def)
  obtain t nx u ux c1 c1' where
    sk: "skipcomment (rnext r) (rcomment r) = Inr (t # nx, c1)"
        "skipcomment (rnext r') (rcomment r') = Inr (u # ux, c1')"
    and wf: "well_formed (t # nx)" "well_formed (u # ux)"
    and k: "ttype u = ttype t" and s: "sim n nx ux" and e: "n \<le> length nx \<longrightarrow> u = t"
    and c: "n \<le> Suc (length nx) \<and> rcomment r = rcomment r' \<longrightarrow> c1 = c1'"
    using "1.prems"(1,2) s0 by (rule skipcomment_sim_deref)
  from skipcomment_length [OF sk(1)] have len: "Suc (length nx) \<le> length (rnext r)" by simp
  have s1: "sim n (t # nx) (u # ux)" using k s e by (rule sim_ConsI)
  have stop: "rsim n (r\<lparr>rnext := t # nx, rcomment := c1\<rparr>) (r'\<lparr>rnext := u # ux, rcomment := c1'\<rparr>)"
    using "1.prems"(3) s1 c len by (auto simp: rsim_def)
  show ?case
  proof (cases "ttype t \<noteq> PERIOD")
    case True
    with sk k have "local_part_loop r = Inr (r\<lparr>rnext := t # nx, rcomment := c1\<rparr>)"
      "local_part_loop r' = Inr (r'\<lparr>rnext := u # ux, rcomment := c1'\<rparr>)"
      by (subst local_part_loop.simps, simp)+
    with stop show ?thesis by blast
  next
    case period: False
    with wf k have wfn: "well_formed nx" "well_formed ux"
      by (auto intro: well_formed_tl)
    from word_sim [OF wfn s] obtain r1 r1'
      where r1: "match_word nx = Inr r1" "match_word ux = Inr r1'"
        and rs: "rsim n r1 r1'" by blast
    show ?thesis
    proof (cases "ok r1")
      case False
      with rs have "\<not> ok r1'" by (simp add: rsim_ok)
      with False sk k period r1
      have "local_part_loop r = Inr (r\<lparr>rnext := t # nx, rcomment := c1\<rparr>)"
        "local_part_loop r' = Inr (r'\<lparr>rnext := u # ux, rcomment := c1'\<rparr>)"
        by (subst local_part_loop.simps, simp)+
      with stop show ?thesis by blast
    next
      case True
      with rs have ok': "ok r1'" by (simp add: rsim_ok)
      let ?R = "r\<lparr>rnext := rnext r1,
                   rstr := rstr r @ ''.'' @ rstr r1,
                   rcomment := c1 @ rcomment r1,
                   raddr := raddr r @ ''.'' @ raddr r1\<rparr>"
      let ?R' = "r'\<lparr>rnext := rnext r1',
                   rstr := rstr r' @ ''.'' @ rstr r1',
                   rcomment := c1' @ rcomment r1',
                   raddr := raddr r' @ ''.'' @ raddr r1'\<rparr>"
      from word_wf [OF wfn(1)] r1(1) True have w1: "well_formed (rnext ?R)" by auto
      from word_wf [OF wfn(2)] r1(2) ok' have w2: "well_formed (rnext ?R')" by auto
      from advanced_word [OF r1(1)] True have l1: "length (rnext r1) < length nx"
        by (rule advanced_length)
      have rr: "rsim n ?R ?R'"
        using rs "1.prems"(3) c l1 len by (auto simp: rsim_def)
      from "1.IH" [OF sk(1) refl refl _ r1(1) _ w1 w2 rr] period True
      obtain rf rf' where
        "local_part_loop ?R = Inr rf" "local_part_loop ?R' = Inr rf'" "rsim n rf rf'"
        by auto
      moreover have "local_part_loop r = local_part_loop ?R"
        using sk k period r1 True by (subst local_part_loop.simps) simp
      moreover have "local_part_loop r' = local_part_loop ?R'"
        using sk k period r1 ok' by (subst local_part_loop.simps) simp
      ultimately show ?thesis by auto
    qed
  qed
qed

lemma local_part_sim:
  assumes "well_formed p" and "well_formed q" and "sim n p q"
  shows "\<exists>r r'. match_local_part p = Inr r \<and> match_local_part q = Inr r' \<and> rsim n r r'"
proof -
  from word_sim [OF assms] obtain r0 r0'
    where r0: "match_word p = Inr r0" "match_word q = Inr r0'"
      and rs: "rsim n r0 r0'" by blast
  show ?thesis
  proof (cases "ok r0")
    case False
    with rs have "\<not> ok r0'" by (simp add: rsim_ok)
    with False r0 show ?thesis by (simp add: match_local_part_def)
  next
    case True
    with rs have ok': "ok r0'" by (simp add: rsim_ok)
    from word_wf [OF assms(1)] r0(1) True have w1: "well_formed (rnext r0)" by auto
    from word_wf [OF assms(2)] r0(2) ok' have w2: "well_formed (rnext r0')" by auto
    from local_part_loop_sim [OF w1 w2 rs] r0 True ok' show ?thesis
      by (simp add: match_local_part_def)
  qed
qed

lemma addr_spec_loop_sim:
  "well_formed (rnext r) \<Longrightarrow> well_formed (rnext r') \<Longrightarrow> rsim n r r' \<Longrightarrow>
   (n \<le> length (rnext r) \<longrightarrow> d = d') \<Longrightarrow>
   \<exists>rf df rf' df'. addr_spec_loop r d = Inr (rf, df) \<and> addr_spec_loop r' d' = Inr (rf', df') \<and>
      rsim n rf rf' \<and> (n \<le> length (rnext rf) \<longrightarrow> df = df')"
proof (induction r d arbitrary: r' d' rule: addr_spec_loop.induct)
  case (1 r domain)
  from "1.prems"(3) have s0: "sim n (rnext r) (rnext r')" by (simp add: rsim_def)
  obtain t nx u ux c1 c1' where
    sk: "skipcomment (rnext r) (rcomment r) = Inr (t # nx, c1)"
        "skipcomment (rnext r') (rcomment r') = Inr (u # ux, c1')"
    and wf: "well_formed (t # nx)" "well_formed (u # ux)"
    and k: "ttype u = ttype t" and s: "sim n nx ux" and e: "n \<le> length nx \<longrightarrow> u = t"
    and c: "n \<le> Suc (length nx) \<and> rcomment r = rcomment r' \<longrightarrow> c1 = c1'"
    using "1.prems"(1,2) s0 by (rule skipcomment_sim_deref)
  from skipcomment_length [OF sk(1)] have len: "Suc (length nx) \<le> length (rnext r)" by simp
  have s1: "sim n (t # nx) (u # ux)" using k s e by (rule sim_ConsI)
  have stop: "rsim n (r\<lparr>rnext := t # nx, rcomment := c1\<rparr>) (r'\<lparr>rnext := u # ux, rcomment := c1'\<rparr>)
              \<and> (n \<le> length (rnext (r\<lparr>rnext := t # nx, rcomment := c1\<rparr>)) \<longrightarrow> domain = d')"
    using "1.prems"(3,4) s1 c len by (auto simp: rsim_def)
  show ?case
  proof (cases "ttype t \<noteq> AT")
    case True
    with sk k have "addr_spec_loop r domain = Inr (r\<lparr>rnext := t # nx, rcomment := c1\<rparr>, domain)"
      "addr_spec_loop r' d' = Inr (r'\<lparr>rnext := u # ux, rcomment := c1'\<rparr>, d')"
      by (subst addr_spec_loop.simps, simp)+
    with stop show ?thesis by blast
  next
    case at: False
    with wf k have wfn: "well_formed nx" "well_formed ux"
      by (auto intro: well_formed_tl)
    from domain_sim [OF wfn s] obtain r2 r2'
      where r2: "match_domain nx = Inr r2" "match_domain ux = Inr r2'"
        and rs: "rsim n r2 r2'" by blast
    show ?thesis
    proof (cases "ok r2")
      case False
      with rs have "\<not> ok r2'" by (simp add: rsim_ok)
      with False sk k at r2
      have "addr_spec_loop r domain = Inr (r\<lparr>rnext := t # nx, rcomment := c1\<rparr>, domain)"
        "addr_spec_loop r' d' = Inr (r'\<lparr>rnext := u # ux, rcomment := c1'\<rparr>, d')"
        by (subst addr_spec_loop.simps, simp)+
      with stop show ?thesis by blast
    next
      case True
      with rs have ok': "ok r2'" by (simp add: rsim_ok)
      let ?R = "r\<lparr>rnext := rnext r2,
                   rstr := (if domain \<noteq> [] then rstr r @ ''@'' @ domain else rstr r),
                   rcomment := c1 @ rcomment r2,
                   raddr := (if domain \<noteq> [] then raddr r @ ''@'' @ domain else raddr r)\<rparr>"
      let ?R' = "r'\<lparr>rnext := rnext r2',
                   rstr := (if d' \<noteq> [] then rstr r' @ ''@'' @ d' else rstr r'),
                   rcomment := c1' @ rcomment r2',
                   raddr := (if d' \<noteq> [] then raddr r' @ ''@'' @ d' else raddr r')\<rparr>"
      from domain_wf [OF wfn(1)] r2(1) True have w1: "well_formed (rnext ?R)" by auto
      from domain_wf [OF wfn(2)] r2(2) ok' have w2: "well_formed (rnext ?R')" by auto
      from advanced_domain [OF r2(1)] True have l1: "length (rnext r2) < length nx"
        by (rule advanced_length)
      have rr: "rsim n ?R ?R'"
        using rs "1.prems"(3,4) c l1 len by (auto simp: rsim_def)
      have dd: "n \<le> length (rnext ?R) \<longrightarrow> raddr r2 = raddr r2'"
        using rs by (auto simp: rsim_def)
      from "1.IH" [OF sk(1) refl refl _ r2(1) _ w1 w2 rr dd] at True
      obtain rf df rf' df' where
        "addr_spec_loop ?R (raddr r2) = Inr (rf, df)"
        "addr_spec_loop ?R' (raddr r2') = Inr (rf', df')"
        "rsim n rf rf'" "n \<le> length (rnext rf) \<longrightarrow> df = df'"
        by auto
      moreover have "addr_spec_loop r domain = addr_spec_loop ?R (raddr r2)"
        using sk k at r2 True by (subst addr_spec_loop.simps) simp
      moreover have "addr_spec_loop r' d' = addr_spec_loop ?R' (raddr r2')"
        using sk k at r2 ok' by (subst addr_spec_loop.simps) simp
      ultimately show ?thesis by auto
    qed
  qed
qed

lemma addr_spec_sim:
  assumes "well_formed p" and "well_formed q" and "sim n p q"
  shows "\<exists>r r'. match_addr_spec canon p = Inr r \<and> match_addr_spec canon q = Inr r' \<and> rsim n r r'"
proof -
  from local_part_sim [OF assms] obtain r0 r0'
    where r0: "match_local_part p = Inr r0" "match_local_part q = Inr r0'"
      and rs: "rsim n r0 r0'" by blast
  show ?thesis
  proof (cases "ok r0")
    case False
    with rs have "\<not> ok r0'" by (simp add: rsim_ok)
    with False r0 show ?thesis by (simp add: match_addr_spec_def)
  next
    case True
    with rs have ok': "ok r0'" by (simp add: rsim_ok)
    from local_part_wf [OF assms(1)] r0(1) True have w1: "well_formed (rnext r0)" by auto
    from local_part_wf [OF assms(2)] r0(2) ok' have w2: "well_formed (rnext r0')" by auto
    from addr_spec_loop_sim [OF w1 w2 rs, of "[]" "[]"] obtain rf df rf' df'
      where l: "addr_spec_loop r0 [] = Inr (rf, df)" "addr_spec_loop r0' [] = Inr (rf', df')"
        and rsf: "rsim n rf rf'" and d: "n \<le> length (rnext rf) \<longrightarrow> df = df'"
      by auto
    have "rsim n \<lparr>rnext = rnext rf, rstr = rstr rf @ ''@'' @ canon df, rcomment = rcomment rf,
                   raddr = raddr rf @ ''@'' @ canon df @ [CHR 0x0A]\<rparr>
                 \<lparr>rnext = rnext rf', rstr = rstr rf' @ ''@'' @ canon df', rcomment = rcomment rf',
                   raddr = raddr rf' @ ''@'' @ canon df' @ [CHR 0x0A]\<rparr>"
      using rsf d by (auto simp: rsim_def)
    with r0 True ok' l show ?thesis by (simp add: match_addr_spec_def)
  qed
qed

lemma not_ok_FAILED: "r = FAILED \<or> well_formed (rnext r) \<Longrightarrow> \<not> ok r \<Longrightarrow> r = FAILED"
  by (auto dest: well_formed_ok)

lemma route_addr_sim:
  assumes "well_formed p" and "well_formed q" and "sim n p q"
  shows "\<exists>r r'. match_route_addr canon p = Inr r \<and> match_route_addr canon q = Inr r' \<and>
           rsim n r r'"
proof -
  obtain t n2 u u2 c1 c1' where
    sk: "skipcomment p [] = Inr (t # n2, c1)" "skipcomment q [] = Inr (u # u2, c1')"
    and wf: "well_formed (t # n2)" "well_formed (u # u2)"
    and k: "ttype u = ttype t" and s: "sim n n2 u2"
    and c: "n \<le> Suc (length n2) \<and> [] = ([]::string) \<longrightarrow> c1 = c1'"
    using assms by (rule skipcomment_sim_deref)
  show ?thesis
  proof (cases "ttype t \<noteq> LABRACKET")
    case True
    with sk k show ?thesis by (simp add: match_route_addr_def)
  next
    case la: False
    with wf k have wf2: "well_formed n2" "well_formed u2" by (auto intro: well_formed_tl)
    from route_sim' [OF wf2 s] obtain r1 r1'
      where r1: "match_route n2 = Inr r1" "match_route u2 = Inr r1'"
        and rs1: "rsim n r1 r1'" by blast
    from route_wf [OF wf2(1)] r1(1) have f1: "r1 = FAILED \<or> well_formed (rnext r1)" by simp
    from route_wf [OF wf2(2)] r1(2) have f1': "r1' = FAILED \<or> well_formed (rnext r1')" by simp
    from rs1 have ok1: "ok r1' \<longleftrightarrow> ok r1" by (rule rsim_ok)
    let ?n3 = "if ok r1 then rnext r1 else n2"
    let ?u3 = "if ok r1' then rnext r1' else u2"
    have wf3: "well_formed ?n3" "well_formed ?u3" using f1 f1' wf2 by auto
    have s3: "sim n ?n3 ?u3" using rs1 ok1 s by (auto simp: rsim_def)
    have l3: "length ?n3 \<le> length n2"
      using advanced_route [OF r1(1)] by (auto dest: advanced_length)
    have c2: "n \<le> length ?n3 \<longrightarrow> c1 @ rcomment r1 = c1' @ rcomment r1'"
    proof (cases "ok r1")
      case True
      with rs1 c l3 show ?thesis by (auto simp: rsim_def)
    next
      case False
      with ok1 f1 f1' have "r1 = FAILED" "r1' = FAILED"
        using not_ok_FAILED by blast+
      with c l3 show ?thesis by auto
    qed
    from addr_spec_sim [OF wf3 s3] obtain r2 r2'
      where r2: "match_addr_spec canon ?n3 = Inr r2" "match_addr_spec canon ?u3 = Inr r2'"
        and rs2: "rsim n r2 r2'" by blast
    show ?thesis
    proof (cases "ok r2")
      case False
      with rs2 have "\<not> ok r2'" by (simp add: rsim_ok)
      with False sk k la r1 r2 show ?thesis
        by (simp add: match_route_addr_def Let_def)
    next
      case True
      with rs2 have ok2': "ok r2'" by (simp add: rsim_ok)
      from addr_spec_wf [OF wf3(1), of canon] r2(1) True have w1: "well_formed (rnext r2)" by auto
      from addr_spec_wf [OF wf3(2), of canon] r2(2) ok2' have w2: "well_formed (rnext r2')" by auto
      from rs2 have s4: "sim n (rnext r2) (rnext r2')" by (simp add: rsim_def)
      from advanced_addr_spec [OF r2(1)] True have l4: "length (rnext r2) < length ?n3"
        by (rule advanced_length)
      obtain t' n5 u' u5 c3 c3' where
        sk2: "skipcomment (rnext r2) ((c1 @ rcomment r1) @ rcomment r2) = Inr (t' # n5, c3)"
             "skipcomment (rnext r2') ((c1' @ rcomment r1') @ rcomment r2') = Inr (u' # u5, c3')"
        and k2: "ttype u' = ttype t'" and s5: "sim n n5 u5"
        and c3: "n \<le> Suc (length n5) \<and>
                 (c1 @ rcomment r1) @ rcomment r2 = (c1' @ rcomment r1') @ rcomment r2'
                 \<longrightarrow> c3 = c3'"
        using w1 w2 s4 by (rule skipcomment_sim_deref)
      from skipcomment_length [OF sk2(1)] have l5: "Suc (length n5) \<le> length (rnext r2)" by simp
      have "rsim n \<lparr>rnext = n5, rstr = ''<'' @ rstr r2 @ ''>'' @ c3, rcomment = [],
                     raddr = raddr r2\<rparr>
                   \<lparr>rnext = u5, rstr = ''<'' @ rstr r2' @ ''>'' @ c3', rcomment = [],
                     raddr = raddr r2'\<rparr>"
        using s5 c3 c2 rs2 l4 l5 by (auto simp: rsim_def)
      with True ok2' sk k la r1 r2 sk2 k2 show ?thesis
        by (auto simp: match_route_addr_def Let_def)
    qed
  qed
qed

lemma phrase_loop_sim:
  "well_formed (rnext r) \<Longrightarrow> well_formed (rnext r') \<Longrightarrow> rsim n r r' \<Longrightarrow>
   \<exists>rf rf'. phrase_loop r = Inr rf \<and> phrase_loop r' = Inr rf' \<and> rsim n rf rf'"
proof (induction r arbitrary: r' rule: phrase_loop.induct)
  case (1 r1)
  from "1.prems"(3) have s0: "sim n (rnext r1) (rnext r')" by (simp add: rsim_def)
  from word_sim [OF "1.prems"(1,2) s0] obtain r2 r2'
    where r2: "match_word (rnext r1) = Inr r2" "match_word (rnext r') = Inr r2'"
      and rs: "rsim n r2 r2'" by blast
  show ?case
  proof (cases "ok r2")
    case False
    with rs have "\<not> ok r2'" by (simp add: rsim_ok)
    with False r2 have "phrase_loop r1 = Inr r1" "phrase_loop r' = Inr r'"
      by (subst phrase_loop.simps, simp)+
    with "1.prems"(3) show ?thesis by blast
  next
    case True
    with rs have ok': "ok r2'" by (simp add: rsim_ok)
    let ?R = "r1\<lparr>rnext := rnext r2,
                  rstr := rstr r1 @ '' '' @ rstr r2,
                  rcomment := rcomment r1 @ rcomment r2\<rparr>"
    let ?R' = "r'\<lparr>rnext := rnext r2',
                  rstr := rstr r' @ '' '' @ rstr r2',
                  rcomment := rcomment r' @ rcomment r2'\<rparr>"
    from word_wf [OF "1.prems"(1)] r2(1) True have w1: "well_formed (rnext ?R)" by auto
    from word_wf [OF "1.prems"(2)] r2(2) ok' have w2: "well_formed (rnext ?R')" by auto
    from advanced_word [OF r2(1)] True have l1: "length (rnext r2) < length (rnext r1)"
      by (rule advanced_length)
    have rr: "rsim n ?R ?R'"
      using rs "1.prems"(3) l1 by (auto simp: rsim_def)
    from "1.IH" [OF r2(1) _ w1 w2 rr] True
    obtain rf rf' where
      "phrase_loop ?R = Inr rf" "phrase_loop ?R' = Inr rf'" "rsim n rf rf'"
      by auto
    moreover have "phrase_loop r1 = phrase_loop ?R"
      using r2 True by (subst phrase_loop.simps) simp
    moreover have "phrase_loop r' = phrase_loop ?R'"
      using r2 ok' by (subst phrase_loop.simps) simp
    ultimately show ?thesis by auto
  qed
qed

lemma phrase_sim:
  assumes "well_formed p" and "well_formed q" and "sim n p q"
  shows "\<exists>r r'. match_phrase p = Inr r \<and> match_phrase q = Inr r' \<and> rsim n r r'"
proof -
  from word_sim [OF assms] obtain r0 r0'
    where r0: "match_word p = Inr r0" "match_word q = Inr r0'"
      and rs: "rsim n r0 r0'" by blast
  show ?thesis
  proof (cases "ok r0")
    case False
    with rs have "\<not> ok r0'" by (simp add: rsim_ok)
    with False r0 show ?thesis by (simp add: match_phrase_def)
  next
    case True
    with rs have ok': "ok r0'" by (simp add: rsim_ok)
    from word_wf [OF assms(1)] r0(1) True have w1: "well_formed (rnext r0)" by auto
    from word_wf [OF assms(2)] r0(2) ok' have w2: "well_formed (rnext r0')" by auto
    from phrase_loop_sim [OF w1 w2 rs] r0 True ok' show ?thesis
      by (simp add: match_phrase_def)
  qed
qed

lemma route_spec_sim:
  assumes "well_formed p" and "well_formed q" and "sim n p q"
  shows "\<exists>r r'. match_route_spec canon p = Inr r \<and> match_route_spec canon q = Inr r' \<and>
           rsim n r r'"
proof -
  from phrase_sim [OF assms] obtain r1 r1'
    where r1: "match_phrase p = Inr r1" "match_phrase q = Inr r1'"
      and rs1: "rsim n r1 r1'" by blast
  from phrase_wf [OF assms(1)] r1(1) have f1: "r1 = FAILED \<or> well_formed (rnext r1)" by simp
  from phrase_wf [OF assms(2)] r1(2) have f1': "r1' = FAILED \<or> well_formed (rnext r1')" by simp
  from rs1 have ok1: "ok r1' \<longleftrightarrow> ok r1" by (rule rsim_ok)
  let ?n = "if ok r1 then rnext r1 else p"
  let ?u = "if ok r1' then rnext r1' else q"
  have wf: "well_formed ?n" "well_formed ?u" using f1 f1' assms by auto
  have s: "sim n ?n ?u" using rs1 ok1 assms(3) by (auto simp: rsim_def)
  have l: "ok r1 \<longrightarrow> length ?n = length (rnext r1)" by simp
  from route_addr_sim [OF wf s] obtain r2 r2'
    where r2: "match_route_addr canon ?n = Inr r2" "match_route_addr canon ?u = Inr r2'"
      and rs2: "rsim n r2 r2'" by blast
  from rs2 have ok2: "ok r2' \<longleftrightarrow> ok r2" by (rule rsim_ok)
  show ?thesis
  proof (cases "ok r2")
    case False
    with ok2 r1 r2 show ?thesis by (simp add: match_route_spec_def)
  next
    case True
    from advanced_route_addr [OF r2(1)] True have l2: "length (rnext r2) < length ?n"
      by (rule advanced_length)
    show ?thesis
    proof (cases "ok r1")
      case False
      with ok1 ok2 True r1 r2 rs2 show ?thesis by (auto simp: match_route_spec_def)
    next
      case ok: True
      have "rsim n (r2\<lparr>rstr := rstr r1 @ rcomment r1 @ '' '' @ rstr r2 @ rcomment r2\<rparr>)
                   (r2'\<lparr>rstr := rstr r1' @ rcomment r1' @ '' '' @ rstr r2' @ rcomment r2'\<rparr>)"
        using rs1 rs2 l2 ok by (auto simp: rsim_def)
      with ok ok1 ok2 True r1 r2 show ?thesis by (auto simp: match_route_spec_def)
    qed
  qed
qed

lemma or_rule_sim:
  assumes "\<exists>r r'. m1 = Inr r \<and> m1' = Inr r' \<and> rsim n r r'"
    and "\<exists>r r'. m2 = Inr r \<and> m2' = Inr r' \<and> rsim n r r'"
    and "\<exists>r. m2 = Inr r \<and> (r = FAILED \<or> well_formed (rnext r))"
    and "\<exists>r. m2' = Inr r \<and> (r = FAILED \<or> well_formed (rnext r))"
  shows "\<exists>r r'.
     (case m1 of Inl e \<Rightarrow> Inl e
      | Inr r \<Rightarrow> if ok r then Inr r
                 else (case m2 of Inl e \<Rightarrow> Inl e
                       | Inr r' \<Rightarrow> if ok r' then Inr r' else Inr FAILED)) = Inr r \<and>
     (case m1' of Inl e \<Rightarrow> Inl e
      | Inr r \<Rightarrow> if ok r then Inr r
                 else (case m2' of Inl e \<Rightarrow> Inl e
                       | Inr r' \<Rightarrow> if ok r' then Inr r' else Inr FAILED)) = Inr r' \<and>
     rsim n r r'"
proof -
  from assms(1) obtain r1 r1' where 1: "m1 = Inr r1" "m1' = Inr r1'" "rsim n r1 r1'" by blast
  from assms(2) obtain r2 r2' where 2: "m2 = Inr r2" "m2' = Inr r2'" "rsim n r2 r2'" by blast
  from 1 have ok1: "ok r1' \<longleftrightarrow> ok r1" by (auto dest: rsim_ok)
  from 2 have ok2: "ok r2' \<longleftrightarrow> ok r2" by (auto dest: rsim_ok)
  show ?thesis
    using 1 2 ok1 ok2 by auto
qed

lemma mailbox_sim:
  assumes "well_formed p" and "well_formed q" and "sim n p q"
  shows "\<exists>r r'. match_mailbox canon p = Inr r \<and> match_mailbox canon q = Inr r' \<and> rsim n r r'"
  unfolding match_mailbox_def
  by (rule or_rule_sim [OF route_spec_sim [OF assms] addr_spec_sim [OF assms]
        addr_spec_wf [OF assms(1), of canon] addr_spec_wf [OF assms(2), of canon]])

lemma comma_loop_sim:
  "well_formed p \<Longrightarrow> well_formed q \<Longrightarrow> sim n p q \<Longrightarrow>
   \<exists>pf sf qf sf'. comma_loop p s = Inr (pf, sf) \<and> comma_loop q s' = Inr (qf, sf') \<and>
      sim n pf qf \<and> well_formed pf \<and> well_formed qf \<and>
      (n \<le> length pf \<and> s = s' \<longrightarrow> sf = sf')"
proof (induction p s arbitrary: q s' rule: comma_loop.induct)
  case (1 node str)
  obtain t nx u ux c1 c1' where
    sk: "skipcomment node str = Inr (t # nx, c1)" "skipcomment q s' = Inr (u # ux, c1')"
    and wf: "well_formed (t # nx)" "well_formed (u # ux)"
    and k: "ttype u = ttype t" and s: "sim n nx ux" and e: "n \<le> length nx \<longrightarrow> u = t"
    and c: "n \<le> Suc (length nx) \<and> str = s' \<longrightarrow> c1 = c1'"
    using "1.prems" by (rule skipcomment_sim_deref)
  have s1: "sim n (t # nx) (u # ux)" using k s e by (rule sim_ConsI)
  show ?case
  proof (cases "ttype t = COMMA")
    case False
    with sk k have "comma_loop node str = Inr (t # nx, c1)" "comma_loop q s' = Inr (u # ux, c1')"
      by (subst comma_loop.simps, simp)+
    with s1 wf c show ?thesis by auto
  next
    case True
    with wf k have wfn: "well_formed nx" "well_formed ux" by (auto intro: well_formed_tl)
    from "1.IH" [OF sk(1) refl refl True wfn s, of c1'] obtain pf sf qf sf'
      where l: "comma_loop nx c1 = Inr (pf, sf)" "comma_loop ux c1' = Inr (qf, sf')"
        and r: "sim n pf qf" "well_formed pf" "well_formed qf"
          "n \<le> length pf \<and> c1 = c1' \<longrightarrow> sf = sf'"
      by blast
    from comma_loop_suffix [OF l(1)] have "length pf \<le> length nx"
      by (auto dest: suffix_length_le)
    with r(4) c have "n \<le> length pf \<and> str = s' \<longrightarrow> sf = sf'" by auto
    moreover have "comma_loop node str = comma_loop nx c1"
      using sk True by (subst comma_loop.simps) simp
    moreover have "comma_loop q s' = comma_loop ux c1'"
      using sk k True by (subst comma_loop.simps) simp
    ultimately show ?thesis using l r by auto
  qed
qed

lemma mailboxes_loop_sim:
  "well_formed (rnext r) \<Longrightarrow> well_formed (rnext r') \<Longrightarrow> rsim n r r' \<Longrightarrow>
   \<exists>rf nf rf' nf'. mailboxes_loop canon r = Inr (rf, nf) \<and>
      mailboxes_loop canon r' = Inr (rf', nf') \<and>
      sim n nf nf' \<and> well_formed nf \<and> well_formed nf' \<and>
      (n \<le> length nf \<longrightarrow>
         rstr rf = rstr rf' \<and> rcomment rf = rcomment rf' \<and> raddr rf = raddr rf')"
proof (induction canon r arbitrary: r' rule: mailboxes_loop.induct)
  case (1 canon r1)
  from "1.prems"(3) have s0: "sim n (rnext r1) (rnext r')" by (simp add: rsim_def)
  from comma_loop_sim [OF "1.prems"(1,2) s0, of "rstr r1" "rstr r'"] obtain node s1 node' s1'
    where cl: "comma_loop (rnext r1) (rstr r1) = Inr (node, s1)"
      "comma_loop (rnext r') (rstr r') = Inr (node', s1')"
      and sn: "sim n node node'" and wf: "well_formed node" "well_formed node'"
      and cs: "n \<le> length node \<and> rstr r1 = rstr r' \<longrightarrow> s1 = s1'"
    by blast
  from comma_loop_suffix [OF cl(1)] have len: "length node \<le> length (rnext r1)"
    by (auto dest: suffix_length_le)
  from wf(1) obtain t nx where tnx: "node = t # nx"
    by (cases node) (auto simp: well_formed_def)
  from sn [unfolded tnx] obtain u ux where unx: "node' = u # ux" and k: "ttype u = ttype t"
    by (rule sim_Cons)
  have stop: "sim n node node' \<and> well_formed node \<and> well_formed node' \<and>
      (n \<le> length node \<longrightarrow>
         rstr (r1\<lparr>rstr := s1\<rparr>) = rstr (r'\<lparr>rstr := s1'\<rparr>) \<and>
         rcomment (r1\<lparr>rstr := s1\<rparr>) = rcomment (r'\<lparr>rstr := s1'\<rparr>) \<and>
         raddr (r1\<lparr>rstr := s1\<rparr>) = raddr (r'\<lparr>rstr := s1'\<rparr>))"
    using sn wf cs "1.prems"(3) len by (auto simp: rsim_def)
  show ?case
  proof (cases "ttype t = EOT")
    case True
    with cl tnx unx k have "mailboxes_loop canon r1 = Inr (r1\<lparr>rstr := s1\<rparr>, node)"
      "mailboxes_loop canon r' = Inr (r'\<lparr>rstr := s1'\<rparr>, node')"
      by (subst mailboxes_loop.simps, simp)+
    with stop show ?thesis by blast
  next
    case noteot: False
    from mailbox_sim [OF wf sn] obtain r2 r2'
      where r2: "match_mailbox canon node = Inr r2" "match_mailbox canon node' = Inr r2'"
        and rs: "rsim n r2 r2'" by blast
    show ?thesis
    proof (cases "ok r2")
      case False
      with rs have "\<not> ok r2'" by (simp add: rsim_ok)
      with False cl tnx unx k noteot r2
      have "mailboxes_loop canon r1 = Inr (r1\<lparr>rstr := s1\<rparr>, node)"
        "mailboxes_loop canon r' = Inr (r'\<lparr>rstr := s1'\<rparr>, node')"
        by (subst mailboxes_loop.simps, simp)+
      with stop show ?thesis by blast
    next
      case True
      with rs have ok': "ok r2'" by (simp add: rsim_ok)
      let ?R = "r1\<lparr>rnext := rnext r2,
                    rstr := s1 @ '', '' @ rstr r2 @ rcomment r2,
                    raddr := raddr r1 @ raddr r2\<rparr>"
      let ?R' = "r'\<lparr>rnext := rnext r2',
                    rstr := s1' @ '', '' @ rstr r2' @ rcomment r2',
                    raddr := raddr r' @ raddr r2'\<rparr>"
      from mailbox_wf [OF wf(1), of canon] r2(1) True have w1: "well_formed (rnext ?R)" by auto
      from mailbox_wf [OF wf(2), of canon] r2(2) ok' have w2: "well_formed (rnext ?R')" by auto
      from advanced_mailbox [OF r2(1)] True have l1: "length (rnext r2) < length node"
        by (rule advanced_length)
      have rr: "rsim n ?R ?R'"
        using rs "1.prems"(3) cs l1 len by (auto simp: rsim_def)
      from "1.IH" [OF cl(1) refl tnx noteot _ _ w1 w2 rr] r2(1) True tnx
      obtain rf nf rf' nf' where
        "mailboxes_loop canon ?R = Inr (rf, nf)" "mailboxes_loop canon ?R' = Inr (rf', nf')"
        "sim n nf nf'" "well_formed nf" "well_formed nf'"
        "n \<le> length nf \<longrightarrow>
           rstr rf = rstr rf' \<and> rcomment rf = rcomment rf' \<and> raddr rf = raddr rf'"
        by auto
      moreover have "mailboxes_loop canon r1 = mailboxes_loop canon ?R"
        using cl tnx noteot r2 True by (subst mailboxes_loop.simps) simp
      moreover have "mailboxes_loop canon r' = mailboxes_loop canon ?R'"
        using cl unx k noteot r2 ok' by (subst mailboxes_loop.simps) simp
      ultimately show ?thesis by auto
    qed
  qed
qed

lemma mailboxes_sim:
  assumes "well_formed p" and "well_formed q" and "sim n p q"
  shows "\<exists>r r'. match_mailboxes canon p = Inr r \<and> match_mailboxes canon q = Inr r' \<and>
           rsim n r r'"
proof -
  from mailbox_sim [OF assms] obtain r0 r0'
    where r0: "match_mailbox canon p = Inr r0" "match_mailbox canon q = Inr r0'"
      and rs: "rsim n r0 r0'" by blast
  show ?thesis
  proof (cases "ok r0")
    case False
    with rs have "\<not> ok r0'" by (simp add: rsim_ok)
    with False r0 show ?thesis by (simp add: match_mailboxes_def)
  next
    case True
    with rs have ok': "ok r0'" by (simp add: rsim_ok)
    let ?R = "r0\<lparr>rstr := rstr r0 @ rcomment r0, rcomment := []\<rparr>"
    let ?R' = "r0'\<lparr>rstr := rstr r0' @ rcomment r0', rcomment := []\<rparr>"
    from mailbox_wf [OF assms(1), of canon] r0(1) True have w1: "well_formed (rnext ?R)" by auto
    from mailbox_wf [OF assms(2), of canon] r0(2) ok' have w2: "well_formed (rnext ?R')" by auto
    have rr: "rsim n ?R ?R'" using rs by (auto simp: rsim_def)
    from mailboxes_loop_sim [OF w1 w2 rr, of canon] obtain rf nf rf' nf' where
      l: "mailboxes_loop canon ?R = Inr (rf, nf)" "mailboxes_loop canon ?R' = Inr (rf', nf')"
      and sn: "sim n nf nf'" and wf: "well_formed nf" "well_formed nf'"
      and tx: "n \<le> length nf \<longrightarrow>
           rstr rf = rstr rf' \<and> rcomment rf = rcomment rf' \<and> raddr rf = raddr rf'"
      by blast
    from skipcomment_sim [OF wf(1) sn, of "rstr rf" "rstr rf'"] obtain n2 n2' s2 s2'
      where sk: "skipcomment nf (rstr rf) = Inr (n2, s2)"
        "skipcomment nf' (rstr rf') = Inr (n2', s2')"
        and s2: "sim n n2 n2'" and c2: "n \<le> length n2 \<and> rstr rf = rstr rf' \<longrightarrow> s2 = s2'"
      by blast
    from skipcomment_length [OF sk(1)] have "length n2 \<le> length nf" .
    with tx c2 s2 have "rsim n (rf\<lparr>rnext := n2, rstr := s2\<rparr>) (rf'\<lparr>rnext := n2', rstr := s2'\<rparr>)"
      by (auto simp: rsim_def)
    with r0 True ok' l sk show ?thesis by (simp add: match_mailboxes_def)
  qed
qed

lemma group_sim:
  assumes "well_formed p" and "well_formed q" and "sim n p q"
  shows "\<exists>r r'. match_group canon p = Inr r \<and> match_group canon q = Inr r' \<and> rsim n r r'"
proof -
  from phrase_sim [OF assms] obtain r1 r1'
    where r1: "match_phrase p = Inr r1" "match_phrase q = Inr r1'"
      and rs1: "rsim n r1 r1'" by blast
  show ?thesis
  proof (cases "ok r1")
    case False
    with rs1 have "\<not> ok r1'" by (simp add: rsim_ok)
    with False r1 show ?thesis by (simp add: match_group_def)
  next
    case True
    with rs1 have ok1': "ok r1'" by (simp add: rsim_ok)
    from phrase_wf [OF assms(1)] r1(1) True have w1: "well_formed (rnext r1)" by auto
    from phrase_wf [OF assms(2)] r1(2) ok1' have w1': "well_formed (rnext r1')" by auto
    from w1 obtain t n1 where n1: "rnext r1 = t # n1"
      by (cases "rnext r1") (auto simp: well_formed_def)
    from rs1 have "sim n (t # n1) (rnext r1')" by (simp add: rsim_def n1)
    then obtain u u1 where u1: "rnext r1' = u # u1" and k: "ttype u = ttype t"
      and s1: "sim n n1 u1"
      by (rule sim_Cons)
    show ?thesis
    proof (cases "ttype t \<noteq> COLON")
      case True
      with r1 \<open>ok r1\<close> ok1' n1 u1 k show ?thesis by (simp add: match_group_def)
    next
      case colon: False
      with w1 w1' n1 u1 k have wfn: "well_formed n1" "well_formed u1"
        by (auto intro: well_formed_tl)
      from mailboxes_sim [OF wfn s1] obtain r2 r2'
        where r2: "match_mailboxes canon n1 = Inr r2" "match_mailboxes canon u1 = Inr r2'"
          and rs2: "rsim n r2 r2'" by blast
      from mailboxes_wf [OF wfn(1), of canon] r2(1)
      have f2: "r2 = FAILED \<or> well_formed (rnext r2)" by simp
      from mailboxes_wf [OF wfn(2), of canon] r2(2)
      have f2': "r2' = FAILED \<or> well_formed (rnext r2')" by simp
      from rs2 have ok2: "ok r2' \<longleftrightarrow> ok r2" by (rule rsim_ok)
      let ?n = "if ok r2 then rnext r2 else n1"
      let ?u = "if ok r2' then rnext r2' else u1"
      have wf3: "well_formed ?n" "well_formed ?u" using f2 f2' wfn by auto
      have s3: "sim n ?n ?u" using rs2 ok2 s1 by (auto simp: rsim_def)
      have l3: "length ?n \<le> length n1"
        using advanced_mailboxes [OF r2(1)] by (auto dest: advanced_length)
      have t2: "n \<le> length ?n \<longrightarrow>
                rstr r2 = rstr r2' \<and> rcomment r2 = rcomment r2' \<and> raddr r2 = raddr r2'"
      proof (cases "ok r2")
        case True
        with rs2 show ?thesis by (auto simp: rsim_def)
      next
        case False
        with ok2 f2 f2' have "r2 = FAILED" "r2' = FAILED"
          using not_ok_FAILED by blast+
        then show ?thesis by simp
      qed
      obtain t' n3 u' u3 c c' where
        sk: "skipcomment ?n [] = Inr (t' # n3, c)" "skipcomment ?u [] = Inr (u' # u3, c')"
        and k3: "ttype u' = ttype t'" and s4: "sim n n3 u3"
        and c3: "n \<le> Suc (length n3) \<and> [] = ([]::string) \<longrightarrow> c = c'"
        using wf3 s3 by (rule skipcomment_sim_deref)
      from skipcomment_length [OF sk(1)] have l4: "Suc (length n3) \<le> length ?n" by simp
      have "rsim n \<lparr>rnext = n3,
                     rstr = rstr r1 @ '': '' @ rstr r2 @ rcomment r2 @ c @ '';'',
                     rcomment = [], raddr = raddr r2\<rparr>
                   \<lparr>rnext = u3,
                     rstr = rstr r1' @ '': '' @ rstr r2' @ rcomment r2' @ c' @ '';'',
                     rcomment = [], raddr = raddr r2'\<rparr>"
        using s4 c3 t2 rs1 n1 l3 l4 by (auto simp: rsim_def)
      with r1 True ok1' n1 u1 k colon r2 sk k3 show ?thesis
        by (auto simp: match_group_def)
    qed
  qed
qed

lemma address_sim:
  assumes "well_formed p" and "well_formed q" and "sim n p q"
  shows "\<exists>r r'. match_address canon p = Inr r \<and> match_address canon q = Inr r' \<and> rsim n r r'"
  unfolding match_address_def
  by (rule or_rule_sim [OF group_sim [OF assms] mailbox_sim [OF assms]
        mailbox_wf [OF assms(1), of canon] mailbox_wf [OF assms(2), of canon]])

text \<open>
  The position of a result is past what the rule consumed when the rule gives
  the same display, comment and canonical text, and a position of the same
  length, on every well-formed chain that has the same kinds of tokens and
  differs only in the text of tokens from that position on.
\<close>

definition past_consumed :: "(token list \<Rightarrow> fault + result) \<Rightarrow> token list \<Rightarrow> bool" where
  "past_consumed rule node \<longleftrightarrow>
     (\<forall>r node'. rule node = Inr r \<and> ok r \<and> well_formed node' \<and>
        sim (length (rnext r)) node node' \<longrightarrow>
        (\<exists>r'. rule node' = Inr r' \<and> length (rnext r') = length (rnext r) \<and>
              rstr r' = rstr r \<and> rcomment r' = rcomment r \<and> raddr r' = raddr r))"

definition disciplined :: "(token list \<Rightarrow> fault + result) \<Rightarrow> token list \<Rightarrow> bool" where
  "disciplined rule node \<longleftrightarrow> settles node (rule node) \<and> past_consumed rule node"

lemma disciplinedI:
  assumes "well_formed node"
    and "\<exists>r. rule node = Inr r \<and> (r = FAILED \<or> well_formed (rnext r))"
    and "\<And>r. rule node = Inr r \<Longrightarrow> advanced node r"
    and "\<And>n q. well_formed q \<Longrightarrow> sim n node q \<Longrightarrow>
           \<exists>r r'. rule node = Inr r \<and> rule q = Inr r' \<and> rsim n r r'"
  shows "disciplined rule node"
proof -
  have "settles node (rule node)" using assms(2,3) by (rule settlesI)
  moreover have "past_consumed rule node"
    unfolding past_consumed_def
  proof (intro allI impI)
    fix r node'
    assume a: "rule node = Inr r \<and> ok r \<and> well_formed node' \<and>
               sim (length (rnext r)) node node'"
    with assms(4) [of node' "length (rnext r)"] obtain r'
      where r': "rule node' = Inr r'" and rs: "rsim (length (rnext r)) r r'" by auto
    from rs have "length (rnext r') = length (rnext r)"
      by (auto simp: rsim_def dest: sim_length)
    with r' rs show "\<exists>r'. rule node' = Inr r' \<and> length (rnext r') = length (rnext r) \<and>
              rstr r' = rstr r \<and> rcomment r' = rcomment r \<and> raddr r' = raddr r"
      by (auto simp: rsim_def)
  qed
  ultimately show ?thesis by (simp add: disciplined_def)
qed

text \<open>
  A route in a \<open>route-addr\<close>. The position that comment skipping returns does
  not depend on the comment text collected so far. An \<open>addr-spec\<close> that matches
  starts with a comment, an atom or a quoted string, so no route matches where
  it starts: a \<open>route-addr\<close> that matches with a route still matches when the
  tokens of the route are left out, with the same canonical text and the same
  final position. A route that matches starts with \<^verbatim>\<open>@\<close> and a domain.
\<close>

lemma skipcomment_position:
  "skipcomment node c = Inr (node', c') \<Longrightarrow> \<exists>d'. skipcomment node d = Inr (node', d')"
  by (induction node c arbitrary: d rule: skipcomment.induct) (auto split: if_splits)

lemma word_ok_head:
  assumes "match_word node = Inr r" and "ok r"
  shows "\<exists>t nx. node = t # nx \<and> ttype t \<noteq> AT"
proof -
  from assms obtain n c t nx where sk: "skipcomment node [] = Inr (n, c)" and n: "n = t # nx"
    and ty: "ttype t = ATOM \<or> ttype t = QUOTED_STRING"
    by (auto simp: match_word_def split: sum.splits list.splits if_splits)
  from sk obtain t0 nx0 where node: "node = t0 # nx0" by (cases node) auto
  show ?thesis
  proof (cases "ttype t0 = COMMENT")
    case True
    with node show ?thesis by auto
  next
    case False
    with sk node n have "t0 = t" by simp
    with ty node show ?thesis by auto
  qed
qed

lemma addr_spec_ok_head:
  assumes "match_addr_spec canon node = Inr r" and "ok r"
  shows "\<exists>t nx. node = t # nx \<and> ttype t \<noteq> AT"
proof -
  from assms obtain r0 where "match_local_part node = Inr r0" "ok r0"
    by (auto simp: match_addr_spec_def split: sum.splits if_splits)
  then obtain r1 where "match_word node = Inr r1" "ok r1"
    by (auto simp: match_local_part_def split: sum.splits if_splits)
  then show ?thesis by (rule word_ok_head)
qed

lemma match_route_not_AT:
  assumes "node = t # nx" and "ttype t \<noteq> AT"
  shows "match_route node = Inr FAILED"
proof -
  from assms have "route_loop node 0 [] [] = Inr (Some (node, 0, [], []))"
    by (subst route_loop.simps) auto
  then show ?thesis by (simp add: match_route_def)
qed

lemma route_addr_without_route:
  assumes "match_route_addr canon (t # node2) = Inr r" and "ok r" and "ttype t = LABRACKET"
    and "match_route node2 = Inr r1" and "ok r1"
  shows "\<exists>r'. match_route_addr canon (t # rnext r1) = Inr r' \<and> ok r' \<and>
           rnext r' = rnext r \<and> raddr r' = raddr r"
proof -
  from assms(2) have "r \<noteq> FAILED" by auto
  with assms(1,3,4,5) obtain r2 n4 c3 t' n5
    where r2: "match_addr_spec canon (rnext r1) = Inr r2" and ok2: "ok r2"
      and sk: "skipcomment (rnext r2) (([] @ rcomment r1) @ rcomment r2) = Inr (n4, c3)"
      and n4: "n4 = t' # n5" and t': "ttype t' = RABRACKET"
      and r: "rnext r = n5" "raddr r = raddr r2"
    by (auto simp: match_route_addr_def Let_def split: sum.splits list.splits if_splits)
  from addr_spec_ok_head [OF r2 ok2] obtain t0 nx0
    where "rnext r1 = t0 # nx0" "ttype t0 \<noteq> AT" by blast
  then have nr: "match_route (rnext r1) = Inr FAILED" by (rule match_route_not_AT)
  from skipcomment_position [OF sk, of "([] @ rcomment FAILED) @ rcomment r2"] obtain d'
    where sk': "skipcomment (rnext r2) (([] @ rcomment FAILED) @ rcomment r2) = Inr (n4, d')"
    by blast
  from assms(3) nr r2 ok2 sk' n4 t' r
  have "match_route_addr canon (t # rnext r1)
        = Inr \<lparr>rnext = n5, rstr = ''<'' @ rstr r2 @ ''>'' @ d', rcomment = [], raddr = raddr r2\<rparr>"
    by (simp add: match_route_addr_def Let_def)
  moreover from assms(2) r have "n5 \<noteq> []" by (simp add: ok_def)
  ultimately show ?thesis using r by (simp add: ok_def)
qed

lemma route_ok_first_pair:
  assumes "match_route node = Inr r" and "ok r"
  shows "\<exists>t nx rd. node = t # nx \<and> ttype t = AT \<and> match_domain nx = Inr rd \<and> ok rd"
proof -
  from assms obtain t nx where node: "node = t # nx"
    by (cases node)
      (auto simp: match_route_def route_loop.simps [of "[]"] split: sum.splits)
  show ?thesis
  proof (cases "ttype t = AT")
    case False
    with node have "match_route node = Inr FAILED" by (intro match_route_not_AT) auto
    with assms show ?thesis by auto
  next
    case True
    with assms node obtain rd where "match_domain nx = Inr rd" "ok rd"
      by (auto simp: match_route_def route_loop.simps [of "t # nx"]
          split: sum.splits if_splits)
    with node True show ?thesis by blast
  qed
qed

text \<open>
  The tokens that follow the local part of an \<open>addr-spec\<close>. A piece is a mark (an
  at-sign or a period), the comments after it, a sub-domain token (an atom or
  a domain literal) and the comments after that token. A domain segment is an
  at-sign piece followed by period pieces; its text is the texts of its
  sub-domain tokens joined by periods. \<open>comment_text\<close> is the text that comment
  skipping collects from the comments of a run of tokens: each comment after a
  space.
\<close>

definition comment_tok :: "token \<Rightarrow> bool" where
  "comment_tok t \<longleftrightarrow> ttype t = COMMENT"

definition sub_domain_tok :: "token \<Rightarrow> bool" where
  "sub_domain_tok t \<longleftrightarrow> ttype t = ATOM \<or> ttype t = DOMAIN_LITERAL"

definition comment_text :: "token list \<Rightarrow> string" where
  "comment_text ts = concat (map (\<lambda>t. CHR '' '' # tstr t) (filter comment_tok ts))"

datatype piece = Piece (piece_mark: token) (piece_gap: "token list") (piece_tok: token)
  (piece_trail: "token list")

definition piece_tokens :: "piece \<Rightarrow> token list" where
  "piece_tokens p = piece_mark p # piece_gap p @ piece_tok p # piece_trail p"

definition piece_ok :: "node_type \<Rightarrow> piece \<Rightarrow> bool" where
  "piece_ok ty p \<longleftrightarrow>
     ttype (piece_mark p) = ty \<and> list_all comment_tok (piece_gap p) \<and>
     sub_domain_tok (piece_tok p) \<and> list_all comment_tok (piece_trail p)"

definition segment_tokens :: "piece list \<Rightarrow> token list" where
  "segment_tokens d = concat (map piece_tokens d)"

definition segment_ok :: "piece list \<Rightarrow> bool" where
  "segment_ok d \<longleftrightarrow> d \<noteq> [] \<and> piece_ok AT (hd d) \<and> list_all (piece_ok PERIOD) (tl d)"

definition segment_text :: "piece list \<Rightarrow> string" where
  "segment_text d = dotted (map (\<lambda>p. tstr (piece_tok p)) d)"

text \<open>
  The loop of \<open>addr-spec\<close> and the loop of its last domain stop at a token that is
  not a comment and that, when it is an at-sign or a period, is not followed
  (after comments) by a sub-domain token.
\<close>

fun stops :: "token list \<Rightarrow> bool" where
  "stops [] = False"
| "stops (e # es) \<longleftrightarrow>
     ttype e \<noteq> COMMENT \<and>
     (ttype e = AT \<or> ttype e = PERIOD \<longrightarrow>
        (case dropWhile comment_tok es of [] \<Rightarrow> False | t # u \<Rightarrow> \<not> sub_domain_tok t))"

lemma comment_text_append [simp]: "comment_text (a @ b) = comment_text a @ comment_text b"
  by (simp add: comment_text_def)

lemma comment_text_Nil [simp]: "comment_text [] = []"
  by (simp add: comment_text_def)

lemma comment_text_Cons:
  "comment_text (t # ts) = (if ttype t = COMMENT then CHR '' '' # tstr t else []) @ comment_text ts"
  by (simp add: comment_text_def comment_tok_def)

lemma skipcomment_comments:
  "list_all comment_tok cs \<Longrightarrow> ttype t \<noteq> COMMENT \<Longrightarrow>
     skipcomment (cs @ t # rest) c = Inr (t # rest, c @ comment_text cs)"
  by (induction cs arbitrary: c) (simp_all add: comment_text_Cons comment_tok_def)

lemma match_sub_domain_piece:
  assumes "list_all comment_tok cs" and "sub_domain_tok t"
  shows "match_sub_domain (cs @ t # rest)
         = Inr \<lparr>rnext = rest, rstr = tstr t, rcomment = comment_text cs, raddr = tstr t\<rparr>"
proof -
  from assms(2) have "ttype t \<noteq> COMMENT" by (auto simp: sub_domain_tok_def)
  from skipcomment_comments [OF assms(1) this, of rest "[]"] assms(2) show ?thesis
    by (simp add: match_sub_domain_def sub_domain_tok_def)
qed

lemma match_sub_domain_stops:
  assumes "dropWhile comment_tok es = t # u" and "\<not> sub_domain_tok t"
  shows "match_sub_domain es = Inr FAILED"
proof -
  have es: "es = takeWhile comment_tok es @ t # u"
    using assms(1) takeWhile_dropWhile_id [of comment_tok es] by simp
  have cs: "list_all comment_tok (takeWhile comment_tok es)"
    by (simp add: list_all_iff) (meson set_takeWhileD)
  from assms(1) have "\<not> comment_tok t"
    using hd_dropWhile [of comment_tok es] by auto
  then have nc: "ttype t \<noteq> COMMENT" by (simp add: comment_tok_def)
  from skipcomment_comments [OF cs nc, of u "[]"] es
  have "skipcomment es [] = Inr (t # u, comment_text (takeWhile comment_tok es))" by simp
  with assms(2) show ?thesis
    by (simp add: match_sub_domain_def sub_domain_tok_def)
qed

lemma comment_text_piece:
  assumes "piece_ok ty p" and "ty \<noteq> COMMENT"
  shows "comment_text (piece_tokens p) = comment_text (piece_gap p) @ comment_text (piece_trail p)"
  using assms
  by (auto simp: piece_ok_def piece_tokens_def comment_text_Cons sub_domain_tok_def)

lemma domain_loop_pieces:
  assumes "ttype f \<noteq> COMMENT" and "ttype f = PERIOD \<longrightarrow> match_sub_domain fs = Inr FAILED"
  shows "list_all (piece_ok PERIOD) ps \<Longrightarrow> list_all comment_tok tc \<Longrightarrow>
         rnext r = tc @ concat (map piece_tokens ps) @ f # fs \<Longrightarrow>
         domain_loop r c =
         Inr (r\<lparr>rnext := f # fs,
                rstr := rstr r @ concat (map (\<lambda>p. CHR ''.'' # tstr (piece_tok p)) ps),
                raddr := raddr r @ concat (map (\<lambda>p. CHR ''.'' # tstr (piece_tok p)) ps)\<rparr>,
              c @ comment_text (tc @ concat (map piece_tokens ps)))"
proof (induction ps arbitrary: r c tc)
  case Nil
  note nc = assms(1)
  from Nil have sk: "skipcomment (rnext r) c = Inr (f # fs, c @ comment_text tc)"
    using skipcomment_comments [OF Nil(2) nc, of fs c] by simp
  show ?case
  proof (cases "ttype f = PERIOD")
    case False
    with sk show ?thesis by (subst domain_loop.simps) simp
  next
    case True
    with assms(2) have "match_sub_domain fs = Inr FAILED" by simp
    with sk True show ?thesis by (subst domain_loop.simps) simp
  qed
next
  case (Cons p ps)
  from Cons.prems(1) have p: "piece_ok PERIOD p" and ps: "list_all (piece_ok PERIOD) ps"
    by simp_all
  let ?rest = "piece_trail p @ concat (map piece_tokens ps) @ f # fs"
  from p have mk: "ttype (piece_mark p) = PERIOD" and gap: "list_all comment_tok (piece_gap p)"
    and tk: "sub_domain_tok (piece_tok p)" and tr: "list_all comment_tok (piece_trail p)"
    by (simp_all add: piece_ok_def)
  from mk have nc: "ttype (piece_mark p) \<noteq> COMMENT" by simp
  have rn: "rnext r = tc @ piece_mark p # (piece_gap p @ piece_tok p # ?rest)"
    using Cons.prems(3) by (simp add: piece_tokens_def [of p])
  have sk: "skipcomment (rnext r) c
            = Inr (piece_mark p # (piece_gap p @ piece_tok p # ?rest), c @ comment_text tc)"
    unfolding rn by (rule skipcomment_comments [OF Cons.prems(2) nc])
  have sd: "match_sub_domain (piece_gap p @ piece_tok p # ?rest)
            = Inr \<lparr>rnext = ?rest, rstr = tstr (piece_tok p),
                   rcomment = comment_text (piece_gap p), raddr = tstr (piece_tok p)\<rparr>"
    by (rule match_sub_domain_piece [OF gap tk])
  let ?r = "r\<lparr>rnext := ?rest,
              rstr := rstr r @ [enum_char PERIOD] @ tstr (piece_tok p),
              raddr := raddr r @ [enum_char PERIOD] @ tstr (piece_tok p)\<rparr>"
  have "domain_loop r c = domain_loop ?r ((c @ comment_text tc) @ comment_text (piece_gap p))"
    using sk sd mk by (subst domain_loop.simps) (simp add: ok_def)
  also have "\<dots> = Inr (?r\<lparr>rnext := f # fs,
                rstr := rstr ?r @ concat (map (\<lambda>p. CHR ''.'' # tstr (piece_tok p)) ps),
                raddr := raddr ?r @ concat (map (\<lambda>p. CHR ''.'' # tstr (piece_tok p)) ps)\<rparr>,
              ((c @ comment_text tc) @ comment_text (piece_gap p))
                @ comment_text (piece_trail p @ concat (map piece_tokens ps)))"
    by (rule Cons.IH [OF ps tr]) simp
  finally show ?case
    using comment_text_piece [OF p] by (simp add: enum_char.simps)
qed


lemma stops_sub_domain:
  assumes "stops (e # es)" and "ttype e = AT \<or> ttype e = PERIOD"
  shows "match_sub_domain es = Inr FAILED"
proof -
  from assms obtain t u where "dropWhile comment_tok es = t # u" "\<not> sub_domain_tok t"
    by (auto split: list.splits)
  then show ?thesis by (rule match_sub_domain_stops)
qed

lemma comment_text_segment:
  assumes "segment_ok d"
  shows "comment_text (segment_tokens d) =
         comment_text (piece_gap (hd d)) @
         comment_text (piece_trail (hd d) @ concat (map piece_tokens (tl d)))"
proof -
  from assms obtain p ps where d: "d = p # ps" by (cases d) (auto simp: segment_ok_def)
  with assms have "piece_ok AT p" by (simp add: segment_ok_def)
  from comment_text_piece [OF this] d show ?thesis
    by (simp add: segment_tokens_def)
qed

lemma match_domain_segment:
  assumes "segment_ok d" and "ttype f \<noteq> COMMENT"
    and "ttype f = PERIOD \<longrightarrow> match_sub_domain fs = Inr FAILED"
  shows "match_domain (tl (segment_tokens d) @ f # fs)
         = Inr \<lparr>rnext = f # fs, rstr = segment_text d,
                rcomment = comment_text (segment_tokens d), raddr = segment_text d\<rparr>"
proof -
  from assms(1) obtain p ps where d: "d = p # ps" by (cases d) (auto simp: segment_ok_def)
  with assms(1) have p: "piece_ok AT p" and ps: "list_all (piece_ok PERIOD) ps"
    by (simp_all add: segment_ok_def)
  from p have gap: "list_all comment_tok (piece_gap p)"
    and tk: "sub_domain_tok (piece_tok p)" and tr: "list_all comment_tok (piece_trail p)"
    by (simp_all add: piece_ok_def)
  let ?rest = "piece_trail p @ concat (map piece_tokens ps) @ f # fs"
  let ?r0 = "\<lparr>rnext = ?rest, rstr = tstr (piece_tok p),
              rcomment = comment_text (piece_gap p), raddr = tstr (piece_tok p)\<rparr>"
  have tl: "tl (segment_tokens d) @ f # fs = piece_gap p @ piece_tok p # ?rest"
    by (simp add: d segment_tokens_def piece_tokens_def [of p])
  have sd: "match_sub_domain (piece_gap p @ piece_tok p # ?rest) = Inr ?r0"
    by (rule match_sub_domain_piece [OF gap tk])
  have dl: "domain_loop ?r0 [] =
         Inr (?r0\<lparr>rnext := f # fs,
                rstr := rstr ?r0 @ concat (map (\<lambda>p. CHR ''.'' # tstr (piece_tok p)) ps),
                raddr := raddr ?r0 @ concat (map (\<lambda>p. CHR ''.'' # tstr (piece_tok p)) ps)\<rparr>,
              [] @ comment_text (piece_trail p @ concat (map piece_tokens ps)))"
    by (rule domain_loop_pieces [OF assms(2,3) ps tr]) simp
  have tx: "segment_text d
            = tstr (piece_tok p) @ concat (map (\<lambda>p. CHR ''.'' # tstr (piece_tok p)) ps)"
    by (simp add: d segment_text_def comp_def)
  show ?thesis
    unfolding tl using sd dl tx comment_text_segment [OF assms(1)] d
    by (simp add: match_domain_def ok_def)
qed


lemma segments_head:
  assumes "stops (e # es)" and "list_all segment_ok ds"
  shows "\<exists>f fs. concat (map segment_tokens ds) @ e # es = f # fs \<and> ttype f \<noteq> COMMENT \<and>
           (ttype f = PERIOD \<longrightarrow> match_sub_domain fs = Inr FAILED)"
proof (cases ds)
  case Nil
  with assms(1) stops_sub_domain [OF assms(1)] show ?thesis by auto
next
  case (Cons d ds')
  with assms(2) obtain p ps where "d = p # ps" "piece_ok AT p"
    by (cases d) (auto simp: segment_ok_def)
  with Cons show ?thesis
    by (simp add: segment_tokens_def piece_tokens_def [of p] piece_ok_def)
qed

lemma addr_spec_loop_segments:
  assumes "stops (e # es)"
  shows "list_all segment_ok ds \<Longrightarrow> list_all comment_tok tc \<Longrightarrow>
         rnext r = tc @ concat (map segment_tokens ds) @ e # es \<Longrightarrow>
         addr_spec_loop r dm =
         Inr (r\<lparr>rnext := e # es,
                rstr := rstr r @ at_chain (filter (\<lambda>d. d \<noteq> []) (butlast (dm # map segment_text ds))),
                rcomment := rcomment r @ comment_text (tc @ concat (map segment_tokens ds)),
                raddr := raddr r @ at_chain (filter (\<lambda>d. d \<noteq> []) (butlast (dm # map segment_text ds)))\<rparr>,
              last (dm # map segment_text ds))"
proof (induction ds arbitrary: r dm tc)
  case Nil
  from assms have nc: "ttype e \<noteq> COMMENT" by simp
  from Nil have sk: "skipcomment (rnext r) (rcomment r)
                     = Inr (e # es, rcomment r @ comment_text tc)"
    using skipcomment_comments [OF Nil(2) nc, of es "rcomment r"] by simp
  show ?case
  proof (cases "ttype e = AT")
    case False
    with sk show ?thesis by (subst addr_spec_loop.simps) (simp add: at_chain_def)
  next
    case True
    with stops_sub_domain [OF assms] have "match_domain es = Inr FAILED"
      by (simp add: match_domain_def)
    with sk True show ?thesis by (subst addr_spec_loop.simps) (simp add: at_chain_def)
  qed
next
  case (Cons d ds)
  from Cons.prems(1) have d: "segment_ok d" and ds: "list_all segment_ok ds" by simp_all
  from d obtain p ps where dp: "d = p # ps" and p: "piece_ok AT p"
    by (cases d) (auto simp: segment_ok_def)
  from p have mk: "ttype (piece_mark p) = AT" by (simp add: piece_ok_def)
  then have nc: "ttype (piece_mark p) \<noteq> COMMENT" by simp
  from segments_head [OF assms ds] obtain f fs
    where rest: "concat (map segment_tokens ds) @ e # es = f # fs"
      and f: "ttype f \<noteq> COMMENT" "ttype f = PERIOD \<longrightarrow> match_sub_domain fs = Inr FAILED"
    by blast
  have st: "segment_tokens d = piece_mark p # tl (segment_tokens d)"
    by (simp add: dp segment_tokens_def piece_tokens_def [of p])
  have rn: "rnext r = tc @ piece_mark p # (tl (segment_tokens d) @ f # fs)"
    using Cons.prems(3) rest st by simp
  have sk: "skipcomment (rnext r) (rcomment r)
            = Inr (piece_mark p # (tl (segment_tokens d) @ f # fs), rcomment r @ comment_text tc)"
    unfolding rn by (rule skipcomment_comments [OF Cons.prems(2) nc])
  note md = match_domain_segment [OF d f]
  let ?r = "r\<lparr>rnext := f # fs,
              rstr := (if dm \<noteq> [] then rstr r @ ''@'' @ dm else rstr r),
              rcomment := (rcomment r @ comment_text tc) @ comment_text (segment_tokens d),
              raddr := (if dm \<noteq> [] then raddr r @ ''@'' @ dm else raddr r)\<rparr>"
  have "addr_spec_loop r dm = addr_spec_loop ?r (segment_text d)"
    using sk md mk by (subst addr_spec_loop.simps) (simp add: ok_def)
  also have "\<dots> = Inr (?r\<lparr>rnext := e # es,
                rstr := rstr ?r @ at_chain (filter (\<lambda>d. d \<noteq> [])
                          (butlast (segment_text d # map segment_text ds))),
                rcomment := rcomment ?r @ comment_text ([] @ concat (map segment_tokens ds)),
                raddr := raddr ?r @ at_chain (filter (\<lambda>d. d \<noteq> [])
                          (butlast (segment_text d # map segment_text ds)))\<rparr>,
              last (segment_text d # map segment_text ds))"
    using rest by (intro Cons.IH [OF ds]) simp_all
  finally show ?case by (simp add: at_chain_def)
qed

lemma match_addr_spec_segments:
  assumes "match_local_part node = Inr rL" and "ok rL"
    and "rnext rL = tc @ concat (map segment_tokens ds) @ e # es"
    and "list_all comment_tok tc" and "ds \<noteq> []" and "list_all segment_ok ds"
    and "stops (e # es)"
  shows "match_addr_spec canon node =
         Inr \<lparr>rnext = e # es,
              rstr = rstr rL @ at_chain (filter (\<lambda>d. d \<noteq> []) (map segment_text (butlast ds)))
                     @ ''@'' @ canon (segment_text (last ds)),
              rcomment = rcomment rL @ comment_text (tc @ concat (map segment_tokens ds)),
              raddr = raddr rL @ at_chain (filter (\<lambda>d. d \<noteq> []) (map segment_text (butlast ds)))
                      @ ''@'' @ canon (segment_text (last ds)) @ [CHR 0x0A]\<rparr>"
proof -
  from assms(5) have bl: "butlast ([] # map segment_text ds) = [] # map segment_text (butlast ds)"
    and la: "last ([] # map segment_text ds) = segment_text (last ds)"
    by (simp_all add: map_butlast last_map)
  from addr_spec_loop_segments [OF assms(7,6,4,3), of "[]"] assms(1,2) show ?thesis
    unfolding bl la by (simp add: match_addr_spec_def)
qed

text \<open>
  An address that is one \<open>addr-spec\<close> with at least one domain: the first word of
  the local part is followed (after comments) by a period or an at-sign, so
  neither \<open>group\<close> nor \<open>route-spec\<close> matches, and \<open>addresses\<close> returns the result of
  \<open>addr-spec\<close> with its comments appended to the display text.
\<close>

lemma skipcomment_head:
  "skipcomment node c = Inr (t # nx, c') \<Longrightarrow> ttype t \<noteq> COMMENT"
  by (induction node c rule: skipcomment.induct) (auto split: if_splits)

lemma local_part_first_word:
  assumes "match_local_part node = Inr rL" and "ok rL"
    and "rnext rL = tc @ a # rest" and "list_all comment_tok tc" and "ttype a = AT"
  shows "\<exists>r0 t nx c. match_word node = Inr r0 \<and> ok r0 \<and>
           skipcomment (rnext r0) [] = Inr (t # nx, c) \<and> (ttype t = PERIOD \<or> ttype t = AT)"
proof -
  from assms(1,2) obtain r0 where w: "match_word node = Inr r0" and ok0: "ok r0"
    and lp: "local_part_loop r0 = Inr rL"
    by (auto simp: match_local_part_def split: sum.splits if_splits)
  from lp obtain n c where sk: "skipcomment (rnext r0) (rcomment r0) = Inr (n, c)"
    by (subst (asm) local_part_loop.simps) (auto split: sum.splits)
  from skipcomment_suffix [OF sk] obtain t nx where n: "n = t # nx" by (cases n) auto
  from skipcomment_head sk n have nc: "ttype t \<noteq> COMMENT" by blast
  from skipcomment_position [OF sk, of "[]"] n obtain c0
    where sk0: "skipcomment (rnext r0) [] = Inr (t # nx, c0)" by blast
  have "ttype t = PERIOD \<or> ttype t = AT"
  proof (cases "ttype t = PERIOD")
    case False
    with lp sk n have "rnext rL = t # nx"
      by (subst (asm) local_part_loop.simps) auto
    with assms(3) have "tc @ a # rest = t # nx" by simp
    with nc assms(4) have "t = a" by (cases tc) (auto simp: comment_tok_def)
    with assms(5) show ?thesis by simp
  qed simp
  with w ok0 sk0 show ?thesis by blast
qed

lemma addr_spec_only:
  assumes "match_word node = Inr r0" and "ok r0"
    and "skipcomment (rnext r0) [] = Inr (t # nx, c)" and "ttype t = PERIOD \<or> ttype t = AT"
  shows "match_group canon node = Inr FAILED" and "match_route_spec canon node = Inr FAILED"
proof -
  from assms(3,4) have "match_word (rnext r0) = Inr FAILED"
    by (auto simp: match_word_def)
  then have "phrase_loop r0 = Inr r0" by (subst phrase_loop.simps) simp
  with assms(1,2) have ph: "match_phrase node = Inr r0" by (simp add: match_phrase_def)
  from assms(2) obtain t' node1 where rn: "rnext r0 = t' # node1"
    by (cases "rnext r0") (auto simp: ok_def)
  have "ttype t' \<noteq> COLON"
  proof (cases "ttype t' = COMMENT")
    case False
    with assms(3) rn have "t' = t" by simp
    with assms(4) show ?thesis by auto
  qed simp
  with ph assms(2) rn show "match_group canon node = Inr FAILED"
    by (simp add: match_group_def)
  from assms(3,4) have "match_route_addr canon (rnext r0) = Inr FAILED"
    by (auto simp: match_route_addr_def)
  with ph assms(2) show "match_route_spec canon node = Inr FAILED"
    by (simp add: match_route_spec_def)
qed

lemma match_addresses_single:
  assumes "match_address canon node = Inr r" and "rnext r = [e]" and "ttype e = EOT"
  shows "match_addresses canon node = Inr (r\<lparr>rstr := rstr r @ rcomment r, rcomment := []\<rparr>)"
proof -
  from assms(2) have okr: "ok r" by (simp add: ok_def)
  let ?r = "r\<lparr>rstr := rstr r @ rcomment r, rcomment := []\<rparr>"
  have cl: "comma_loop [e] s = Inr ([e], s)" for s
    using assms(3) by (subst comma_loop.simps) simp
  have "addresses_loop canon ?r = Inr (?r, [e])"
    using assms(2,3) by (subst addresses_loop.simps) (simp add: cl)
  with assms okr show ?thesis
    by (simp add: match_addresses_def)
qed

lemma match_addresses_segments:
  assumes "match_local_part node = Inr rL" and "ok rL"
    and "rnext rL = tc @ concat (map segment_tokens ds) @ [e]" and "ttype e = EOT"
    and "list_all comment_tok tc" and "ds \<noteq> []" and "list_all segment_ok ds"
  shows "match_addresses canon node =
         Inr \<lparr>rnext = [e],
              rstr = rstr rL @ at_chain (filter (\<lambda>d. d \<noteq> []) (map segment_text (butlast ds)))
                     @ ''@'' @ canon (segment_text (last ds))
                     @ rcomment rL @ comment_text (tc @ concat (map segment_tokens ds)),
              rcomment = [],
              raddr = raddr rL @ at_chain (filter (\<lambda>d. d \<noteq> []) (map segment_text (butlast ds)))
                      @ ''@'' @ canon (segment_text (last ds)) @ [CHR 0x0A]\<rparr>"
proof -
  let ?r = "\<lparr>rnext = [e],
              rstr = rstr rL @ at_chain (filter (\<lambda>d. d \<noteq> []) (map segment_text (butlast ds)))
                     @ ''@'' @ canon (segment_text (last ds)),
              rcomment = rcomment rL @ comment_text (tc @ concat (map segment_tokens ds)),
              raddr = raddr rL @ at_chain (filter (\<lambda>d. d \<noteq> []) (map segment_text (butlast ds)))
                      @ ''@'' @ canon (segment_text (last ds)) @ [CHR 0x0A]\<rparr>"
  from assms(4) have st: "stops [e]" by simp
  have as: "match_addr_spec canon node = Inr ?r"
    by (rule match_addr_spec_segments [OF assms(1,2,3,5,6,7) st])
  have okr: "ok ?r" by (simp add: ok_def)
  from assms(6,7) obtain d ds' p ps where "ds = d # ds'" "d = p # ps" "piece_ok AT p"
    by (cases ds; cases "hd ds") (auto simp: segment_ok_def)
  then have "\<exists>a rest. rnext rL = tc @ a # rest \<and> ttype a = AT"
    using assms(3) by (simp add: segment_tokens_def piece_tokens_def [of p] piece_ok_def)
  then obtain a rest where "rnext rL = tc @ a # rest" "ttype a = AT" by blast
  from local_part_first_word [OF assms(1,2) this(1) assms(5) this(2)] obtain r0 t nx c
    where w: "match_word node = Inr r0" "ok r0" "skipcomment (rnext r0) [] = Inr (t # nx, c)"
      "ttype t = PERIOD \<or> ttype t = AT" by blast
  note no = addr_spec_only [OF w, of canon]
  from no(2) as okr have "match_mailbox canon node = Inr ?r"
    by (simp add: match_mailbox_def)
  with no(1) okr have "match_address canon node = Inr ?r"
    by (simp add: match_address_def)
  from match_addresses_single [OF this _ assms(4)] show ?thesis by simp
qed

text \<open>
  A sub-domain token that the tokenizer has built has a text that is not
  empty, so no domain of a tokenized address has an empty text.
\<close>

lemma tokenize1_domain_literal:
  assumes "tokenize1 s = Some (t, p)" and "ttype t = DOMAIN_LITERAL"
  shows "tokenize_domain_literal (skipspace s) = Some (t, p)"
proof -
  let ?q = "skipspace s"
  show ?thesis
  proof (cases "peek ?q = NUL")
    case True
    with assms show ?thesis by (auto simp: tokenize1_def Let_def anode0_def)
  next
    case nn: False
    show ?thesis
    proof (cases "special_type (peek ?q)")
      case (Some ty)
      then have "ty \<noteq> DOMAIN_LITERAL"
        by (auto simp: special_type_def split: if_splits)
      with nn Some assms show ?thesis
        by (auto simp: tokenize1_def Let_def anode0_def)
    next
      case None
      with nn assms show ?thesis
        by (cases ?q)
          (auto simp: tokenize1_def Let_def tokenize_comment_def anode_def
            split: if_splits option.splits)
    qed
  qed
qed

lemma tokenize1_sub_domain_text:
  assumes "tokenize1 s = Some (t, p)" and "sub_domain_tok t"
  shows "tstr t \<noteq> []"
proof (cases "ttype t = ATOM")
  case True
  with tokenize1_kind [OF assms(1)] have "tokenize_atom (skipspace s) = Some (t, p)" by simp
  then show ?thesis by (simp add: tokenize_atom_shape)
next
  case False
  with assms(2) have dl: "ttype t = DOMAIN_LITERAL" by (simp add: sub_domain_tok_def)
  note td = tokenize1_domain_literal [OF assms(1) dl]
  from length_tokenize_domain_literal [OF td] td show ?thesis
    by (cases "skipspace s") (auto simp: Let_def anode_def split: if_splits)
qed

lemma tokenize_sub_domain_text:
  "tokenize s = Some ts \<Longrightarrow> \<forall>t \<in> set ts. sub_domain_tok t \<longrightarrow> tstr t \<noteq> []"
proof (induction s arbitrary: ts rule: tokenize.induct)
  case (1 ptr)
  from "1.prems" obtain tmp ptr' where t1: "tokenize1 ptr = Some (tmp, ptr')"
    by (subst (asm) tokenize.simps) (auto split: option.splits)
  note q = tokenize1_sub_domain_text [OF t1]
  show ?case
  proof (cases "ttype tmp = EOT")
    case True
    with "1.prems" t1 have "ts = [tmp]"
      by (subst (asm) tokenize.simps) simp
    with q show ?thesis by simp
  next
    case False
    with "1.prems" t1 obtain rest where rest: "tokenize ptr' = Some rest" and ts: "ts = tmp # rest"
      by (subst (asm) tokenize.simps) (auto split: option.splits)
    from "1.IH" [OF t1 refl False rest] ts q show ?thesis by simp
  qed
qed

lemma segment_text_not_Nil:
  assumes "segment_ok d" and "\<forall>t \<in> set (segment_tokens d). sub_domain_tok t \<longrightarrow> tstr t \<noteq> []"
  shows "segment_text d \<noteq> []"
proof -
  from assms(1) obtain p ps where d: "d = p # ps" and p: "piece_ok AT p"
    by (cases d) (auto simp: segment_ok_def)
  from p have "sub_domain_tok (piece_tok p)" by (simp add: piece_ok_def)
  moreover have "piece_tok p \<in> set (segment_tokens d)"
    by (simp add: d segment_tokens_def piece_tokens_def [of p])
  ultimately have "tstr (piece_tok p) \<noteq> []" using assms(2) by blast
  then show ?thesis by (simp add: d segment_text_def)
qed

lemma parse_addresses_segments:
  assumes "tokenize line = Some node"
    and "match_local_part node = Inr rL" and "ok rL"
    and "rnext rL = tc @ concat (map segment_tokens ds) @ [e]" and "ttype e = EOT"
    and "list_all comment_tok tc" and "ds \<noteq> []" and "list_all segment_ok ds"
  shows "parse_addresses canon line list =
         Inr (True,
              rstr rL @ at_chain (map segment_text (butlast ds))
                @ ''@'' @ canon (segment_text (last ds))
                @ rcomment rL @ comment_text (tc @ concat (map segment_tokens ds)),
              raddr rL @ at_chain (map segment_text (butlast ds))
                @ ''@'' @ canon (segment_text (last ds)) @ [CHR 0x0A])"
proof -
  from advanced_local_part [OF assms(2)] assms(3) have "suffix (rnext rL) node"
    by (auto simp: advanced_def strict_suffix_def)
  then have sub: "set (rnext rL) \<subseteq> set node" by (rule set_mono_suffix)
  have "\<forall>d \<in> set ds. segment_text d \<noteq> []"
  proof
    fix d assume d: "d \<in> set ds"
    with assms(4) have "set (segment_tokens d) \<subseteq> set (rnext rL)" by auto
    with sub tokenize_sub_domain_text [OF assms(1)]
    have "\<forall>t \<in> set (segment_tokens d). sub_domain_tok t \<longrightarrow> tstr t \<noteq> []" by blast
    moreover from d assms(8) have "segment_ok d" by (simp add: list_all_iff)
    ultimately show "segment_text d \<noteq> []" by (rule segment_text_not_Nil [rotated])
  qed
  then have "\<forall>x \<in> set (map segment_text (butlast ds)). x \<noteq> []"
    by (auto dest: in_set_butlastD)
  then have fl: "filter (\<lambda>d. d \<noteq> []) (map segment_text (butlast ds))
                 = map segment_text (butlast ds)"
    by (simp only: filter_id_conv) 
  from match_addresses_segments [OF assms(2-8), of canon] assms(1) show ?thesis
    unfolding fl by (simp add: parse_addresses_def ok_def)
qed

lemma tokenized_segment_texts:
  assumes "tokenize line = Some ts" and "suffix node ts"
    and "match_local_part node = Inr rL" and "ok rL"
    and "rnext rL = tc @ concat (map segment_tokens ds) @ rest" and "list_all segment_ok ds"
  shows "filter (\<lambda>d. d \<noteq> []) (map segment_text (butlast ds)) = map segment_text (butlast ds)"
proof -
  from advanced_local_part [OF assms(3)] assms(4) have "suffix (rnext rL) node"
    by (auto simp: advanced_def strict_suffix_def)
  from this assms(2) have "suffix (rnext rL) ts" by (rule suffix_order.trans)
  then have sub: "set (rnext rL) \<subseteq> set ts" by (rule set_mono_suffix)
  have "\<forall>d \<in> set ds. segment_text d \<noteq> []"
  proof
    fix d assume d: "d \<in> set ds"
    with assms(5) have "set (segment_tokens d) \<subseteq> set (rnext rL)" by auto
    with sub tokenize_sub_domain_text [OF assms(1)]
    have "\<forall>t \<in> set (segment_tokens d). sub_domain_tok t \<longrightarrow> tstr t \<noteq> []" by blast
    moreover from d assms(6) have "segment_ok d" by (simp add: list_all_iff)
    ultimately show "segment_text d \<noteq> []" by (rule segment_text_not_Nil [rotated])
  qed
  then have "\<forall>x \<in> set (map segment_text (butlast ds)). x \<noteq> []"
    by (auto dest: in_set_butlastD)
  then show ?thesis by (simp only: filter_id_conv)
qed

text \<open>
  The converse: the tokens that a matching domain, and a matching \<open>addr-spec\<close>
  after its local part, have consumed are laid out in pieces and segments.
  The loop of a domain stops at a token that is not a comment and that, when
  it is a period, is not followed (after comments) by a sub-domain token.
\<close>

fun domain_stops :: "token list \<Rightarrow> bool" where
  "domain_stops [] = False"
| "domain_stops (f # fs) \<longleftrightarrow>
     ttype f \<noteq> COMMENT \<and>
     (ttype f = PERIOD \<longrightarrow>
        (case dropWhile comment_tok fs of [] \<Rightarrow> False | t # u \<Rightarrow> \<not> sub_domain_tok t))"

lemma skipcomment_split:
  "skipcomment n c = Inr (n', c') \<Longrightarrow> \<exists>cs. n = cs @ n' \<and> list_all comment_tok cs"
proof (induction n c rule: skipcomment.induct)
  case (1 comment)
  then show ?case by simp
next
  case (2 t ts comment)
  show ?case
  proof (cases "ttype t = COMMENT")
    case True
    with 2 obtain cs where "ts = cs @ n'" "list_all comment_tok cs" by auto
    with True have "t # ts = (t # cs) @ n'" "list_all comment_tok (t # cs)"
      by (simp_all add: comment_tok_def)
    then show ?thesis by blast
  next
    case False
    with 2 have "t # ts = [] @ n'" "list_all comment_tok []" by simp_all
    then show ?thesis by blast
  qed
qed

lemma sub_domain_layout:
  assumes "match_sub_domain n = Inr r" and "ok r"
  shows "\<exists>cs t. n = cs @ t # rnext r \<and> list_all comment_tok cs \<and> sub_domain_tok t"
proof -
  from assms obtain n' c t where sk: "skipcomment n [] = Inr (n', c)" and n': "n' = t # rnext r"
    and t: "ttype t = ATOM \<or> ttype t = DOMAIN_LITERAL"
    by (auto simp: match_sub_domain_def split: sum.splits list.splits if_splits)
  from skipcomment_split [OF sk] n' t show ?thesis
    by (auto simp: sub_domain_tok_def)
qed

lemma sub_domain_failure:
  assumes "match_sub_domain n = Inr r" and "\<not> ok r" and "n \<noteq> []" and "ttype (last n) = EOT"
  shows "\<exists>t u. dropWhile comment_tok n = t # u \<and> \<not> sub_domain_tok t"
proof -
  from assms(1) obtain n' c where sk: "skipcomment n [] = Inr (n', c)"
    by (auto simp: match_sub_domain_def split: sum.splits)
  from skipcomment_suffix [OF sk] obtain t nx where n': "n' = t # nx" by (cases n') auto
  from skipcomment_head sk n' have nc: "\<not> comment_tok t" by (auto simp: comment_tok_def)
  from skipcomment_split [OF sk] n' obtain cs
    where n: "n = cs @ t # nx" and cs: "list_all comment_tok cs" by blast
  from cs nc have dw: "dropWhile comment_tok n = t # nx"
    unfolding n by (simp add: list_all_iff dropWhile_append)
  have "\<not> sub_domain_tok t"
  proof
    assume sd: "sub_domain_tok t"
    with assms(1) sk n' have "rnext r = nx"
      by (auto simp: match_sub_domain_def sub_domain_tok_def)
    with assms(2) have "nx = []" by (simp add: ok_def)
    with n assms(4) have "ttype t = EOT" by simp
    with sd show False by (simp add: sub_domain_tok_def)
  qed
  with dw show ?thesis by blast
qed

lemma domain_loop_layout:
  "domain_loop r c = Inr (r', c') \<Longrightarrow> ttype (last (rnext r)) = EOT \<Longrightarrow>
   \<exists>tc ps. rnext r = tc @ concat (map piece_tokens ps) @ rnext r' \<and>
     list_all comment_tok tc \<and> list_all (piece_ok PERIOD) ps \<and> domain_stops (rnext r')"
proof (induction r c rule: domain_loop.induct)
  case (1 r comment)
  from "1.prems"(1) obtain node cm where sk: "skipcomment (rnext r) comment = Inr (node, cm)"
    by (subst (asm) domain_loop.simps) (auto split: sum.splits)
  from skipcomment_suffix [OF sk] obtain t nx where tnx: "node = t # nx" by (cases node) auto
  from skipcomment_head sk tnx have nc: "ttype t \<noteq> COMMENT" by blast
  from skipcomment_split [OF sk] tnx obtain tc
    where rn: "rnext r = tc @ t # nx" and tc: "list_all comment_tok tc" by blast
  show ?case
  proof (cases "ttype t \<noteq> PERIOD")
    case True
    with "1.prems"(1) sk tnx have "r' = r\<lparr>rnext := node\<rparr>"
      by (subst (asm) domain_loop.simps) simp
    with rn tnx tc nc True have "rnext r = tc @ concat (map piece_tokens []) @ rnext r'"
      "list_all comment_tok tc" "list_all (piece_ok PERIOD) []" "domain_stops (rnext r')"
      by simp_all
    then show ?thesis by blast
  next
    case period: False
    with "1.prems"(2) rn have nx: "nx \<noteq> []" "ttype (last nx) = EOT"
      by (auto split: if_splits)
    from period "1.prems"(1) sk tnx obtain r1 where r1: "match_sub_domain nx = Inr r1"
      by (subst (asm) domain_loop.simps) (auto split: sum.splits)
    show ?thesis
    proof (cases "ok r1")
      case False
      with "1.prems"(1) sk tnx r1 period have r': "r' = r\<lparr>rnext := node\<rparr>"
        by (subst (asm) domain_loop.simps) simp
      from sub_domain_failure [OF r1 False nx] obtain t' u
        where "dropWhile comment_tok nx = t' # u" "\<not> sub_domain_tok t'" by blast
      with r' rn tnx tc nc have "rnext r = tc @ concat (map piece_tokens []) @ rnext r'"
        "list_all comment_tok tc" "list_all (piece_ok PERIOD) []" "domain_stops (rnext r')"
        by simp_all
      then show ?thesis by blast
    next
      case True
      let ?r = "r\<lparr>rnext := rnext r1,
                   rstr := rstr r @ [enum_char PERIOD] @ rstr r1,
                   raddr := raddr r @ [enum_char PERIOD] @ raddr r1\<rparr>"
      from "1.prems"(1) sk tnx r1 True period
      have rec: "domain_loop ?r (cm @ rcomment r1) = Inr (r', c')"
        by (subst (asm) domain_loop.simps) simp
      from sub_domain_layout [OF r1 True] obtain gap tk
        where nxl: "nx = gap @ tk # rnext r1" and gap: "list_all comment_tok gap"
          and tk: "sub_domain_tok tk" by blast
      from True have "rnext r1 \<noteq> []" by (simp add: ok_def)
      with nxl nx have "ttype (last (rnext ?r)) = EOT" by simp
      from "1.IH" [OF sk refl tnx _ r1 _ rec this] True period obtain tc' ps
        where ih: "rnext r1 = tc' @ concat (map piece_tokens ps) @ rnext r'"
          "list_all comment_tok tc'" "list_all (piece_ok PERIOD) ps" "domain_stops (rnext r')"
        by auto
      let ?p = "Piece t gap tk tc'"
      from period gap tk ih(2) have p: "piece_ok PERIOD ?p" by (simp add: piece_ok_def)
      have "rnext r = tc @ concat (map piece_tokens (?p # ps)) @ rnext r'"
        using rn nxl ih(1) by (simp add: piece_tokens_def [of ?p])
      moreover from p ih(3) have "list_all (piece_ok PERIOD) (?p # ps)" by simp
      ultimately show ?thesis using tc ih(4) by blast
    qed
  qed
qed

lemma domain_layout:
  assumes "match_domain n = Inr r" and "ok r" and "ttype (last n) = EOT" and "ttype mk = AT"
  shows "\<exists>d. mk # n = segment_tokens d @ rnext r \<and> segment_ok d \<and> domain_stops (rnext r)"
proof -
  from assms(1,2) obtain r0 r' c where r0: "match_sub_domain n = Inr r0" and ok0: "ok r0"
    and dl: "domain_loop r0 [] = Inr (r', c)" and r: "rnext r = rnext r'"
    by (auto simp: match_domain_def split: sum.splits if_splits)
  from sub_domain_layout [OF r0 ok0] obtain gap tk
    where n: "n = gap @ tk # rnext r0" and gap: "list_all comment_tok gap"
      and tk: "sub_domain_tok tk" by blast
  from ok0 have "rnext r0 \<noteq> []" by (simp add: ok_def)
  with n assms(3) have "ttype (last (rnext r0)) = EOT" by simp
  from domain_loop_layout [OF dl this] obtain tc ps
    where l: "rnext r0 = tc @ concat (map piece_tokens ps) @ rnext r'"
      "list_all comment_tok tc" "list_all (piece_ok PERIOD) ps" "domain_stops (rnext r')"
    by blast
  let ?p = "Piece mk gap tk tc"
  from assms(4) gap tk l(2) have p: "piece_ok AT ?p" by (simp add: piece_ok_def)
  have "mk # n = segment_tokens (?p # ps) @ rnext r"
    using n l(1) r by (simp add: segment_tokens_def piece_tokens_def [of ?p])
  moreover from p l(3) have "segment_ok (?p # ps)" by (simp add: segment_ok_def)
  ultimately show ?thesis using l(4) r by auto
qed

lemma domain_failure:
  assumes "match_domain n = Inr r" and "\<not> ok r" and "n \<noteq> []" and "ttype (last n) = EOT"
  shows "\<exists>t u. dropWhile comment_tok n = t # u \<and> \<not> sub_domain_tok t"
proof -
  from assms(1) obtain r0 where r0: "match_sub_domain n = Inr r0"
    by (auto simp: match_domain_def split: sum.splits)
  have n0: "\<not> ok r0"
  proof
    assume ok0: "ok r0"
    with assms(1) r0 obtain r' c where dl: "domain_loop r0 [] = Inr (r', c)"
      and r: "rnext r = rnext r'"
      by (auto simp: match_domain_def split: sum.splits)
    from domain_loop_suffix [OF dl] r assms(2) show False by (simp add: ok_def)
  qed
  show ?thesis by (rule sub_domain_failure [OF r0 n0 assms(3,4)])
qed

lemma addr_spec_loop_layout:
  "addr_spec_loop r dm = Inr (r', dm') \<Longrightarrow> ttype (last (rnext r)) = EOT \<Longrightarrow>
   \<exists>tc ds. rnext r = tc @ concat (map segment_tokens ds) @ rnext r' \<and>
     list_all comment_tok tc \<and> list_all segment_ok ds \<and>
     (ds \<noteq> [] \<longrightarrow> domain_stops (rnext r')) \<and>
     (case rnext r' of [] \<Rightarrow> False
      | e # es \<Rightarrow> ttype e \<noteq> COMMENT \<and>
          (ttype e = AT \<longrightarrow>
             (case dropWhile comment_tok es of [] \<Rightarrow> False | t # u \<Rightarrow> \<not> sub_domain_tok t)))"
proof (induction r dm rule: addr_spec_loop.induct)
  case (1 r dm)
  from "1.prems"(1) obtain node cm where sk: "skipcomment (rnext r) (rcomment r) = Inr (node, cm)"
    by (subst (asm) addr_spec_loop.simps) (auto split: sum.splits)
  from skipcomment_suffix [OF sk] obtain t nx where tnx: "node = t # nx" by (cases node) auto
  from skipcomment_head sk tnx have nc: "ttype t \<noteq> COMMENT" by blast
  from skipcomment_split [OF sk] tnx obtain tc
    where rn: "rnext r = tc @ t # nx" and tc: "list_all comment_tok tc" by blast
  show ?case
  proof (cases "ttype t \<noteq> AT")
    case True
    with "1.prems"(1) sk tnx have "rnext r' = node"
      by (subst (asm) addr_spec_loop.simps) auto
    with rn tnx tc nc True have "rnext r = tc @ concat (map segment_tokens []) @ rnext r'"
      "list_all comment_tok tc" "list_all segment_ok []"
      "case rnext r' of [] \<Rightarrow> False
      | e # es \<Rightarrow> ttype e \<noteq> COMMENT \<and>
          (ttype e = AT \<longrightarrow>
             (case dropWhile comment_tok es of [] \<Rightarrow> False | t # u \<Rightarrow> \<not> sub_domain_tok t))"
      by simp_all
    then show ?thesis by blast
  next
    case at: False
    with "1.prems"(2) rn have nx: "nx \<noteq> []" "ttype (last nx) = EOT"
      by (auto split: if_splits)
    from at "1.prems"(1) sk tnx obtain r2 where r2: "match_domain nx = Inr r2"
      by (subst (asm) addr_spec_loop.simps) (auto split: sum.splits)
    show ?thesis
    proof (cases "ok r2")
      case False
      with "1.prems"(1) sk tnx r2 at have r': "rnext r' = node"
        by (subst (asm) addr_spec_loop.simps) auto
      from domain_failure [OF r2 False nx] obtain t' u
        where "dropWhile comment_tok nx = t' # u" "\<not> sub_domain_tok t'" by blast
      with r' rn tnx tc nc have "rnext r = tc @ concat (map segment_tokens []) @ rnext r'"
        "list_all comment_tok tc" "list_all segment_ok []"
        "case rnext r' of [] \<Rightarrow> False
        | e # es \<Rightarrow> ttype e \<noteq> COMMENT \<and>
          (ttype e = AT \<longrightarrow>
             (case dropWhile comment_tok es of [] \<Rightarrow> False | t # u \<Rightarrow> \<not> sub_domain_tok t))"
        by simp_all
      then show ?thesis by blast
    next
      case True
      let ?r = "r\<lparr>rnext := rnext r2,
                  rstr := (if dm \<noteq> [] then rstr r @ ''@'' @ dm else rstr r),
                  rcomment := cm @ rcomment r2,
                  raddr := (if dm \<noteq> [] then raddr r @ ''@'' @ dm else raddr r)\<rparr>"
      from "1.prems"(1) sk tnx r2 True at
      have rec: "addr_spec_loop ?r (raddr r2) = Inr (r', dm')"
        by (subst (asm) addr_spec_loop.simps) simp
      from at have "ttype t = AT" by simp
      from domain_layout [OF r2 True nx(2) this] obtain d
        where d: "t # nx = segment_tokens d @ rnext r2" "segment_ok d" "domain_stops (rnext r2)"
        by blast
      from True have ne: "rnext r2 \<noteq> []" by (simp add: ok_def)
      from advanced_domain [OF r2] True have "suffix (rnext r2) nx"
        by (auto simp: advanced_def strict_suffix_def)
      with ne nx(2) have "ttype (last (rnext ?r)) = EOT"
        by (auto simp: suffix_def)
      from "1.IH" [OF sk refl tnx _ r2 _ rec this] True at obtain tc' ds
        where ih: "rnext r2 = tc' @ concat (map segment_tokens ds) @ rnext r'"
          "list_all comment_tok tc'" "list_all segment_ok ds"
          "ds \<noteq> [] \<longrightarrow> domain_stops (rnext r')"
          "case rnext r' of [] \<Rightarrow> False
           | e # es \<Rightarrow> ttype e \<noteq> COMMENT \<and>
             (ttype e = AT \<longrightarrow>
               (case dropWhile comment_tok es of [] \<Rightarrow> False | t # u \<Rightarrow> \<not> sub_domain_tok t))"
        by auto
      have tc': "tc' = []"
      proof (cases tc')
        case (Cons x xs)
        with ih(1,2) d(3) show ?thesis by (auto simp: comment_tok_def)
      qed simp
      have "rnext r = tc @ concat (map segment_tokens (d # ds)) @ rnext r'"
        using rn d(1) ih(1) tc' by simp
      moreover have "list_all segment_ok (d # ds)" using d(2) ih(3) by simp
      moreover have "domain_stops (rnext r')"
      proof (cases "ds = []")
        case True
        with ih(1) tc' d(3) show ?thesis by simp
      next
        case False
        with ih(4) show ?thesis by simp
      qed
      ultimately show ?thesis using tc ih(5) by blast
    qed
  qed
qed

lemma stops_iff:
  "stops n \<longleftrightarrow> domain_stops n \<and>
     (case n of [] \<Rightarrow> False
      | e # es \<Rightarrow> ttype e \<noteq> COMMENT \<and>
          (ttype e = AT \<longrightarrow>
             (case dropWhile comment_tok es of [] \<Rightarrow> False | t # u \<Rightarrow> \<not> sub_domain_tok t)))"
  by (cases n) auto

lemma addr_spec_layout:
  assumes "well_formed node" and "match_addr_spec canon node = Inr r" and "ok r"
  shows "\<exists>rL tc ds. match_local_part node = Inr rL \<and> ok rL \<and>
           rnext rL = tc @ concat (map segment_tokens ds) @ rnext r \<and>
           list_all comment_tok tc \<and> list_all segment_ok ds \<and> (ds \<noteq> [] \<longrightarrow> stops (rnext r))"
proof -
  from assms(2,3) obtain rL r' dm where lp: "match_local_part node = Inr rL" and okL: "ok rL"
    and l: "addr_spec_loop rL [] = Inr (r', dm)" and r: "rnext r = rnext r'"
    by (auto simp: match_addr_spec_def split: sum.splits if_splits)
  from advanced_local_part [OF lp] okL have "suffix (rnext rL) node"
    by (auto simp: advanced_def strict_suffix_def)
  moreover from okL have "rnext rL \<noteq> []" by (simp add: ok_def)
  ultimately have "ttype (last (rnext rL)) = EOT"
    using assms(1) by (auto simp: suffix_def well_formed_def)
  from addr_spec_loop_layout [OF l this] r lp okL show ?thesis
    by (auto simp: stops_iff)
qed

section \<open>Properties\<close>

text \<open>
  C7. With the identity canonicalizer, the input \<^verbatim>\<open>list: a@b.c, d@e.f;\<close> is
  accepted; the canonical output is the two member addresses in order, each
  followed by a line feed, and the display output is the group written as
  phrase, colon, the members joined by comma and space, semicolon.
\<close>

theorem group_syntax:
  "parse_addresses id ''list: a@b.c, d@e.f;'' list =
     Inr (True, ''list: a@b.c, d@e.f;'', ''a@b.c'' @ [CHR 0x0A] @ ''d@e.f'' @ [CHR 0x0A])"
  by code_simp

text \<open>
  C1. An address whose domain is a bracketed domain literal, such as
  \<^verbatim>\<open>a@[1.2.3.4]\<close>, should parse. The scanner for domain literals stops on the
  closing bracket without stepping over it (the scanners for quoted strings
  and comments step over their closing character), so the token text lacks
  the bracket, the next token starts at \<^verbatim>\<open>]\<close>, which begins no token, and the
  whole tokenization fails: the address is rejected.
\<close>

theorem domain_literal_rejected:
  "tokenize_domain_literal ''[1.2.3.4]'' =
     Some (\<lparr>ttype = DOMAIN_LITERAL, tstr = ''[1.2.3.4''\<rparr>, '']'')
   \<and> tokenize1 '']'' = None
   \<and> tokenize ''a@[1.2.3.4]'' = None
   \<and> parse_addresses canon ''a@[1.2.3.4]'' list = Inr (False, ''a@[1.2.3.4]'', list)"
  by code_simp

text \<open>
  C9. For every input text \<^verbatim>\<open>parse_addresses\<close> returns: every loop of the tokenizer
  and of the matcher is a recursion whose termination is proved from the
  characters or tokens it consumes, and no run dereferences the null pointer
  or leaves a buffer. The flag and, on success, the two outputs are determined
  by the input text alone, whatever the old value of \<open>list\<close>.
\<close>

theorem parse_addresses_total:
  "\<exists>b line' list'. parse_addresses canon line list = Inr (b, line', list') \<and>
     (\<forall>list2. parse_addresses canon line list2 =
        Inr (b, if b then line' else line, if b then list' else list2))"
proof (cases "tokenize line")
  case None
  then show ?thesis by (auto simp: parse_addresses_def)
next
  case (Some ts)
  from addresses_wf [OF tokenize_well_formed [OF Some]] obtain r
    where "match_addresses canon ts = Inr r" by blast
  with Some show ?thesis by (auto simp: parse_addresses_def)
qed

text \<open>
  C10. On a chain that ends in the end marker, comment skipping and every
  grammar rule return without a fault; the position they return is null only
  in the failure value, and otherwise it is a suffix of the starting position
  with the same last node, so the end marker has not been consumed.
\<close>

theorem end_marker_never_consumed:
  assumes "well_formed node"
  shows "(\<exists>n c'. skipcomment node c = Inr (n, c') \<and> n \<noteq> [] \<and> suffix n node \<and> last n = last node)
    \<and> keeps_end_marker node (match_sub_domain node)
    \<and> keeps_end_marker node (match_domain node)
    \<and> keeps_end_marker node (match_route node)
    \<and> keeps_end_marker node (match_word node)
    \<and> keeps_end_marker node (match_local_part node)
    \<and> keeps_end_marker node (match_addr_spec canon node)
    \<and> keeps_end_marker node (match_route_addr canon node)
    \<and> keeps_end_marker node (match_phrase node)
    \<and> keeps_end_marker node (match_route_spec canon node)
    \<and> keeps_end_marker node (match_mailbox canon node)
    \<and> keeps_end_marker node (match_mailboxes canon node)
    \<and> keeps_end_marker node (match_group canon node)
    \<and> keeps_end_marker node (match_address canon node)
    \<and> keeps_end_marker node (match_addresses canon node)"
proof -
  from skipcomment_wf [OF assms] obtain n c' where sk: "skipcomment node c = Inr (n, c')"
    and wf: "well_formed n" by blast
  from skipcomment_suffix [OF sk] have "suffix n node" "n \<noteq> []" by simp_all
  then have "last n = last node" by (auto simp: suffix_def)
  with sk \<open>suffix n node\<close> \<open>n \<noteq> []\<close>
  have 0: "\<exists>n c'. skipcomment node c = Inr (n, c') \<and> n \<noteq> [] \<and> suffix n node \<and> last n = last node"
    by blast
  note I = keeps_end_markerI [OF assms]
  show ?thesis
    by (intro conjI 0)
      (rule I, rule sub_domain_wf [OF assms], erule advanced_sub_domain,
       rule I, rule domain_wf [OF assms], erule advanced_domain,
       rule I, rule route_wf [OF assms], erule advanced_route,
       rule I, rule word_wf [OF assms], erule advanced_word,
       rule I, rule local_part_wf [OF assms], erule advanced_local_part,
       rule I, rule addr_spec_wf [OF assms], erule advanced_addr_spec,
       rule I, rule route_addr_wf [OF assms], erule advanced_route_addr,
       rule I, rule phrase_wf [OF assms], erule advanced_phrase,
       rule I, rule route_spec_wf [OF assms], erule advanced_route_spec,
       rule I, rule mailbox_wf [OF assms], erule advanced_mailbox,
       rule I, rule mailboxes_wf [OF assms], erule advanced_mailboxes,
       rule I, rule group_wf [OF assms], erule advanced_group,
       rule I, rule address_wf [OF assms], erule advanced_address,
       rule I, rule addresses_wf [OF assms], erule advanced_addresses)
qed

theorem end_marker_never_consumed_witness:
  "well_formed [\<lparr>ttype = ATOM, tstr = ''a''\<rparr>, \<lparr>ttype = EOT, tstr = []\<rparr>]
   \<and> keeps_end_marker [\<lparr>ttype = ATOM, tstr = ''a''\<rparr>, \<lparr>ttype = EOT, tstr = []\<rparr>]
         (match_addresses id [\<lparr>ttype = ATOM, tstr = ''a''\<rparr>, \<lparr>ttype = EOT, tstr = []\<rparr>])"
proof -
  have wf: "well_formed [\<lparr>ttype = ATOM, tstr = ''a''\<rparr>, \<lparr>ttype = EOT, tstr = []\<rparr>]"
    by (simp add: well_formed_def)
  from end_marker_never_consumed [OF wf, of "[]" id] wf show ?thesis by blast
qed

text \<open>
  C4. A call of \<^verbatim>\<open>parse_addresses\<close> that fails leaves both strings as the caller
  passed them: when tokenization fails, and when the rule \<open>addresses\<close> fails.
  That rule fails when, after the last address, the commas and the comments,
  the cursor is not on the last node; when it succeeds, only commas and
  comments lie between the returned position and the last node.
\<close>

theorem all_or_nothing:
  "(tokenize line = None \<longrightarrow> parse_addresses canon line list = Inr (False, line, list))
   \<and> (\<forall>ts r. tokenize line = Some ts \<and> match_addresses canon ts = Inr r \<and> \<not> ok r \<longrightarrow>
         parse_addresses canon line list = Inr (False, line, list))
   \<and> (\<forall>ts r0 r1 node node' str.
         tokenize line = Some ts \<and> match_address canon ts = Inr r0 \<and> ok r0 \<and>
         addresses_loop canon (r0\<lparr>rstr := rstr r0 @ rcomment r0, rcomment := []\<rparr>) = Inr (r1, node) \<and>
         skipcomment node (rstr r1) = Inr (node', str) \<and> tl node' \<noteq> [] \<longrightarrow>
         match_addresses canon ts = Inr FAILED \<and>
         parse_addresses canon line list = Inr (False, line, list))
   \<and> (\<forall>ts r. tokenize line = Some ts \<and> match_addresses canon ts = Inr r \<and> ok r \<longrightarrow>
         (\<exists>pre t. rnext r = pre @ [t] \<and> list_all separator pre))
   \<and> (\<exists>b line' list'. parse_addresses canon line list = Inr (b, line', list') \<and>
         (\<not> b \<longrightarrow> line' = line \<and> list' = list))"
proof (intro conjI allI impI)
  assume "tokenize line = None"
  then show "parse_addresses canon line list = Inr (False, line, list)"
    by (simp add: parse_addresses_def)
next
  fix ts r
  assume "tokenize line = Some ts \<and> match_addresses canon ts = Inr r \<and> \<not> ok r"
  then show "parse_addresses canon line list = Inr (False, line, list)"
    by (simp add: parse_addresses_def)
next
  fix ts r0 r1 node node' str
  assume a: "tokenize line = Some ts \<and> match_address canon ts = Inr r0 \<and> ok r0 \<and>
         addresses_loop canon (r0\<lparr>rstr := rstr r0 @ rcomment r0, rcomment := []\<rparr>) = Inr (r1, node) \<and>
         skipcomment node (rstr r1) = Inr (node', str) \<and> tl node' \<noteq> []"
  then have "node' \<noteq> []" by auto
  then obtain t nx where "node' = t # nx" by (cases node') auto
  with a show f: "match_addresses canon ts = Inr FAILED"
    by (auto simp: match_addresses_def)
  with a show "parse_addresses canon line list = Inr (False, line, list)"
    by (simp add: parse_addresses_def)
next
  fix ts r
  assume "tokenize line = Some ts \<and> match_addresses canon ts = Inr r \<and> ok r"
  then show "\<exists>pre t. rnext r = pre @ [t] \<and> list_all separator pre"
    by (blast intro: addresses_success_rest)
next
  show "\<exists>b line' list'. parse_addresses canon line list = Inr (b, line', list') \<and>
         (\<not> b \<longrightarrow> line' = line \<and> list' = list)"
  proof (cases "tokenize line")
    case None
    then show ?thesis by (auto simp: parse_addresses_def)
  next
    case (Some ts)
    from addresses_wf [OF tokenize_well_formed [OF Some]] obtain r
      where "match_addresses canon ts = Inr r" by blast
    with Some show ?thesis by (auto simp: parse_addresses_def)
  qed
qed

theorem all_or_nothing_witness:
  "tokenize ''(a'' = None
   \<and> parse_addresses id ''(a'' ''old'' = Inr (False, ''(a'', ''old'')
   \<and> tokenize ''a >'' = Some [\<lparr>ttype = ATOM, tstr = ''a''\<rparr>, \<lparr>ttype = RABRACKET, tstr = []\<rparr>,
                             \<lparr>ttype = EOT, tstr = []\<rparr>]
   \<and> match_addresses id [\<lparr>ttype = ATOM, tstr = ''a''\<rparr>, \<lparr>ttype = RABRACKET, tstr = []\<rparr>,
                          \<lparr>ttype = EOT, tstr = []\<rparr>] = Inr FAILED
   \<and> parse_addresses id ''a >'' ''old'' = Inr (False, ''a >'', ''old'')"
proof -
  have 1: "tokenize ''(a'' = None" by code_simp
  have 2: "tokenize ''a >'' = Some [\<lparr>ttype = ATOM, tstr = ''a''\<rparr>, \<lparr>ttype = RABRACKET, tstr = []\<rparr>,
                             \<lparr>ttype = EOT, tstr = []\<rparr>]" by code_simp
  have 3: "match_addresses id [\<lparr>ttype = ATOM, tstr = ''a''\<rparr>, \<lparr>ttype = RABRACKET, tstr = []\<rparr>,
                          \<lparr>ttype = EOT, tstr = []\<rparr>] = Inr FAILED" by code_simp
  have 4: "\<not> ok FAILED" by simp
  from all_or_nothing [of "''(a''" id "''old''"] 1
  have a: "parse_addresses id ''(a'' ''old'' = Inr (False, ''(a'', ''old'')" by blast
  from all_or_nothing [of "''a >''" id "''old''"] 2 3 4
  have b: "parse_addresses id ''a >'' ''old'' = Inr (False, ''a >'', ''old'')" by blast
  from 1 2 3 a b show ?thesis by blast
qed

text \<open>
  C8. The inputs that open a quoted string, a comment or a domain literal and
  never close it are rejected, with both strings unchanged. In general, when
  the scanner returns the null pointer at any cursor that the loop of
  \<^verbatim>\<open>tokenize\<close> reaches, \<^verbatim>\<open>tokenize\<close> returns the null pointer and \<^verbatim>\<open>parse_addresses\<close>
  returns false before any rule is applied.
\<close>

theorem unterminated_constructs_fail:
  "parse_addresses canon (QUOTE # ''unterminated'') list = Inr (False, QUOTE # ''unterminated'', list)
   \<and> parse_addresses canon ''(unterminated'' list = Inr (False, ''(unterminated'', list)
   \<and> parse_addresses canon ''[unterminated'' list = Inr (False, ''[unterminated'', list)
   \<and> tokenize (QUOTE # ''unterminated'') = None
   \<and> tokenize ''(unterminated'' = None
   \<and> tokenize ''[unterminated'' = None
   \<and> (\<forall>k p. cursor_after k line = Some p \<and> tokenize1 p = None \<longrightarrow>
         tokenize line = None \<and> parse_addresses canon line list = Inr (False, line, list))"
proof -
  have 1: "tokenize (QUOTE # ''unterminated'') = None" by code_simp
  have 2: "tokenize ''(unterminated'' = None" by code_simp
  have 3: "tokenize ''[unterminated'' = None" by code_simp
  have 4: "tokenize line = None \<and> parse_addresses canon line list = Inr (False, line, list)"
    if "cursor_after k line = Some p \<and> tokenize1 p = None" for k p
    using that tokenize_cursor_error [of k line p] by (simp add: parse_addresses_def)
  from 1 2 3 4 show ?thesis by (simp add: parse_addresses_def)
qed

theorem unterminated_constructs_fail_witness:
  "cursor_after 2 ''a@(b'' = Some ''(b'' \<and> tokenize1 ''(b'' = None
   \<and> tokenize ''a@(b'' = None
   \<and> parse_addresses id ''a@(b'' ''old'' = Inr (False, ''a@(b'', ''old'')"
proof -
  have c: "cursor_after 2 ''a@(b'' = Some ''(b''" by code_simp
  have t: "tokenize1 ''(b'' = None" by code_simp
  from unterminated_constructs_fail [of id "''old''" "''a@(b''"] c t show ?thesis by blast
qed

text \<open>
  C6. The result of the rule \<open>route\<close> has no canonical text. The canonical text
  of a matching \<open>route-addr\<close> is that of its inner \<open>addr-spec\<close>, which is matched
  after the route when there is one and directly after the angle bracket
  otherwise, and leaving the tokens of the route out changes neither the
  canonical text nor the final position. A route that starts with a token
  other than \<^verbatim>\<open>@\<close> has no domain and fails; a route that matches starts with
  \<^verbatim>\<open>@\<close> and a domain.
\<close>

theorem route_no_canonical_text:
  "(\<forall>r. match_route node = Inr r \<longrightarrow> raddr r = [])
   \<and> (\<forall>r. match_route_addr canon node = Inr r \<and> ok r \<longrightarrow>
        (\<exists>c1 t node2 r1 r2.
           skipcomment node [] = Inr (t # node2, c1) \<and> ttype t = LABRACKET \<and>
           match_route node2 = Inr r1 \<and>
           match_addr_spec canon (if ok r1 then rnext r1 else node2) = Inr r2 \<and> ok r2 \<and>
           raddr r = raddr r2))
   \<and> (\<forall>t node2 r r1.
        match_route_addr canon (t # node2) = Inr r \<and> ok r \<and> ttype t = LABRACKET \<and>
        match_route node2 = Inr r1 \<and> ok r1 \<longrightarrow>
        (\<exists>r'. match_route_addr canon (t # rnext r1) = Inr r' \<and> ok r' \<and>
              rnext r' = rnext r \<and> raddr r' = raddr r))
   \<and> (\<forall>t nx. node = t # nx \<and> ttype t \<noteq> AT \<longrightarrow> match_route node = Inr FAILED)
   \<and> (\<forall>r. match_route node = Inr r \<and> ok r \<longrightarrow>
        (\<exists>t nx rd. node = t # nx \<and> ttype t = AT \<and> match_domain nx = Inr rd \<and> ok rd))"
proof (intro conjI allI impI)
  fix r
  assume "match_route node = Inr r"
  then show "raddr r = []"
    by (auto simp: match_route_def FAILED_def
        split: sum.splits option.splits list.splits if_splits)
next
  fix r
  assume a: "match_route_addr canon node = Inr r \<and> ok r"
  then have "r \<noteq> FAILED" by auto
  with a obtain c1 t node2 r1 r2
    where "skipcomment node [] = Inr (t # node2, c1)" "ttype t = LABRACKET"
      "match_route node2 = Inr r1"
      "match_addr_spec canon (if ok r1 then rnext r1 else node2) = Inr r2" "ok r2"
      "raddr r = raddr r2"
    by (auto simp: match_route_addr_def Let_def
        split: sum.splits list.splits if_splits)
  then show "\<exists>c1 t node2 r1 r2.
           skipcomment node [] = Inr (t # node2, c1) \<and> ttype t = LABRACKET \<and>
           match_route node2 = Inr r1 \<and>
           match_addr_spec canon (if ok r1 then rnext r1 else node2) = Inr r2 \<and> ok r2 \<and>
           raddr r = raddr r2"
    by blast
next
  fix t node2 r r1
  assume "match_route_addr canon (t # node2) = Inr r \<and> ok r \<and> ttype t = LABRACKET \<and>
        match_route node2 = Inr r1 \<and> ok r1"
  then show "\<exists>r'. match_route_addr canon (t # rnext r1) = Inr r' \<and> ok r' \<and>
              rnext r' = rnext r \<and> raddr r' = raddr r"
    using route_addr_without_route [of canon t node2 r r1] by blast
next
  fix t nx
  assume "node = t # nx \<and> ttype t \<noteq> AT"
  then show "match_route node = Inr FAILED"
    using match_route_not_AT [of node t nx] by blast
next
  fix r
  assume "match_route node = Inr r \<and> ok r"
  then show "\<exists>t nx rd. node = t # nx \<and> ttype t = AT \<and> match_domain nx = Inr rd \<and> ok rd"
    using route_ok_first_pair [of node r] by blast
qed

theorem route_no_canonical_text_witness:
  "match_route [\<lparr>ttype = AT, tstr = []\<rparr>, \<lparr>ttype = ATOM, tstr = ''a''\<rparr>,
                \<lparr>ttype = COLON, tstr = []\<rparr>, \<lparr>ttype = EOT, tstr = []\<rparr>]
     = Inr \<lparr>rnext = [\<lparr>ttype = EOT, tstr = []\<rparr>], rstr = ''@a'', rcomment = [], raddr = []\<rparr>
   \<and> match_route [\<lparr>ttype = ATOM, tstr = ''a''\<rparr>, \<lparr>ttype = EOT, tstr = []\<rparr>] = Inr FAILED
   \<and> tokenize ''<@a:b@c>'' =
       Some (\<lparr>ttype = LABRACKET, tstr = []\<rparr> #
             [\<lparr>ttype = AT, tstr = []\<rparr>, \<lparr>ttype = ATOM, tstr = ''a''\<rparr>,
              \<lparr>ttype = COLON, tstr = []\<rparr>] @ the (tokenize ''b@c>''))
   \<and> (\<exists>r r'. match_route_addr id (the (tokenize ''<@a:b@c>'')) = Inr r \<and> ok r \<and>
         match_route_addr id (the (tokenize ''<b@c>'')) = Inr r' \<and> ok r' \<and>
         rnext r' = rnext r \<and> raddr r' = raddr r \<and> raddr r = ''b@c'' @ [CHR 0x0A])"
proof -
  let ?n1 = "[\<lparr>ttype = AT, tstr = []\<rparr>, \<lparr>ttype = ATOM, tstr = ''a''\<rparr>,
              \<lparr>ttype = COLON, tstr = []\<rparr>, \<lparr>ttype = EOT, tstr = []\<rparr>]"
  let ?n2 = "[\<lparr>ttype = ATOM, tstr = ''a''\<rparr>, \<lparr>ttype = EOT, tstr = []\<rparr>]"
  let ?lt = "\<lparr>ttype = LABRACKET, tstr = []\<rparr>"
  let ?tl = "[\<lparr>ttype = ATOM, tstr = ''b''\<rparr>, \<lparr>ttype = AT, tstr = []\<rparr>,
              \<lparr>ttype = ATOM, tstr = ''c''\<rparr>, \<lparr>ttype = RABRACKET, tstr = []\<rparr>,
              \<lparr>ttype = EOT, tstr = []\<rparr>]"
  let ?rt = "[\<lparr>ttype = AT, tstr = []\<rparr>, \<lparr>ttype = ATOM, tstr = ''a''\<rparr>,
              \<lparr>ttype = COLON, tstr = []\<rparr>] @ ?tl"
  let ?r = "\<lparr>rnext = [\<lparr>ttype = EOT, tstr = []\<rparr>], rstr = ''<b@c>'', rcomment = [],
             raddr = ''b@c'' @ [CHR 0x0A]\<rparr>"
  let ?r1 = "\<lparr>rnext = ?tl, rstr = ''@a'', rcomment = [], raddr = []\<rparr>"
  have 1: "match_route ?n1
     = Inr \<lparr>rnext = [\<lparr>ttype = EOT, tstr = []\<rparr>], rstr = ''@a'', rcomment = [], raddr = []\<rparr>"
    by code_simp
  have "ttype \<lparr>ttype = ATOM, tstr = ''a''\<rparr> \<noteq> AT" by simp
  with route_no_canonical_text [of ?n2 id, THEN conjunct2, THEN conjunct2, THEN conjunct2,
      THEN conjunct1]
  have 2: "match_route ?n2 = Inr FAILED" by blast
  have t1: "tokenize ''<@a:b@c>'' = Some (?lt # ?rt)" by code_simp
  have t2: "tokenize ''<b@c>'' = Some (?lt # ?tl)" by code_simp
  have t3: "tokenize ''b@c>'' = Some ?tl" by code_simp
  have a: "match_route_addr id (?lt # ?rt) = Inr ?r" by code_simp
  have b: "match_route ?rt = Inr ?r1" by code_simp
  have c: "ok ?r" "ok ?r1" "ttype ?lt = LABRACKET" by (simp_all add: ok_def)
  note route_no_canonical_text [of ?n2 id, THEN conjunct2, THEN conjunct2, THEN conjunct1,
      rule_format, of ?lt ?rt ?r ?r1]
  with a b c
  obtain r' where "match_route_addr id (?lt # rnext ?r1) = Inr r'" "ok r'"
    "rnext r' = rnext ?r" "raddr r' = raddr ?r" by auto
  with a c t1 t2 have 3: "\<exists>r r'. match_route_addr id (the (tokenize ''<@a:b@c>'')) = Inr r \<and> ok r \<and>
         match_route_addr id (the (tokenize ''<b@c>'')) = Inr r' \<and> ok r' \<and>
         rnext r' = rnext r \<and> raddr r' = raddr r \<and> raddr r = ''b@c'' @ [CHR 0x0A]"
    by simp
  from t1 t3 have 4: "tokenize ''<@a:b@c>'' =
       Some (\<lparr>ttype = LABRACKET, tstr = []\<rparr> #
             [\<lparr>ttype = AT, tstr = []\<rparr>, \<lparr>ttype = ATOM, tstr = ''a''\<rparr>,
              \<lparr>ttype = COLON, tstr = []\<rparr>] @ the (tokenize ''b@c>''))" by simp
  from 1 2 3 4 show ?thesis by blast
qed

text \<open>
  The round trip holds exactly for the raw texts without NUL and line feed
  that contain a symbol character, which \<^verbatim>\<open>quote\<close> escapes and wraps in quotes, or
  that are a non-empty run of atom characters, which it returns unchanged.
\<close>

lemma quote_round_trip:
  "round_trips s \<longleftrightarrow>
     NUL \<notin> set s \<and> CR \<notin> set s \<and>
     ((\<exists>c \<in> set s. issymbol c) \<or> (s \<noteq> [] \<and> (\<forall>c \<in> set s. isatom c)))"
  using round_trips_only_if [of s] quote_round_trip_if [of s] by blast

text \<open>
  C2. For every raw text of a local part that has no line break, the text
  that \<^verbatim>\<open>quote\<close> returns should be one token, an atom or a quoted string, whose
  unquoted content is the raw text. \<^verbatim>\<open>quote\<close> escapes and wraps only on symbol
  characters: a raw text with white space and no symbol, such as \<^verbatim>\<open>a b\<close>, the
  content of the quoted string \<^verbatim>\<open>"a b"\<close>, is returned bare and tokenizes as two
  atoms; the display form of the address \<^verbatim>\<open>"a b"@x\<close> becomes \<^verbatim>\<open>a b@x\<close>.
\<close>

theorem quote_leaves_space_bare:
  "unquote (QUOTE # ''a b'' @ [QUOTE]) = Inr ''a b''
   \<and> quote ''a b'' = ''a b''
   \<and> tokenize (quote ''a b'') =
       Some [\<lparr>ttype = ATOM, tstr = ''a''\<rparr>, \<lparr>ttype = ATOM, tstr = ''b''\<rparr>,
             \<lparr>ttype = EOT, tstr = []\<rparr>]
   \<and> CR \<notin> set ''a b'' \<and> \<not> round_trips ''a b''
   \<and> parse_addresses id (QUOTE # ''a b'' @ [QUOTE] @ ''@x'') list
       = Inr (True, ''a b@x'', ''a b@x'' @ [CHR 0x0A])"
  by code_simp

text \<open>
  C3. An \<open>addr-spec\<close> whose local part is followed by the domain segments
  \<open>d1 .. dn\<close> (\<open>n \<ge> 1\<close>), each after an at-sign, each made of atoms and domain
  literals joined by periods, with comments anywhere between the tokens. The
  display text is the display text of the local part, then \<^verbatim>\<open>@\<close> and the text of
  the domain for every domain but the last, then \<^verbatim>\<open>@\<close> and the canonicalized
  last domain: only the last domain is passed to the canonicalizer. The
  canonical text is built in the same way from the canonical text of the local
  part and ends with a line feed; the comments are collected, in order, in the
  comment text of the result. A domain with an empty text, which no tokenized
  text has, is left out of the prefix. When the \<open>addr-spec\<close> is the whole input,
  \<^verbatim>\<open>parse_addresses\<close> returns the canonical text, and the display text followed by
  the comments. Every \<open>addr-spec\<close> that matches on a chain ending in the end
  marker is laid out in this way. For local parts and domains that are runs of
  atoms joined by periods, \<^verbatim>\<open>parse_addresses\<close> accepts the text \<open>L@d1@...@dn\<close>;
  with the identity canonicalizer the display output is the input and the
  canonical output is the input and a line feed, as for \<^verbatim>\<open>a@b@c\<close>.
\<close>

theorem source_route_accumulation:
  "(\<forall>node rL tc ds e es.
      match_local_part node = Inr rL \<and> ok rL \<and>
      rnext rL = tc @ concat (map segment_tokens ds) @ e # es \<and>
      list_all comment_tok tc \<and> ds \<noteq> [] \<and> list_all segment_ok ds \<and> stops (e # es) \<longrightarrow>
      match_addr_spec canon node =
        Inr \<lparr>rnext = e # es,
             rstr = rstr rL @ at_chain (filter (\<lambda>d. d \<noteq> []) (map segment_text (butlast ds)))
                    @ ''@'' @ canon (segment_text (last ds)),
             rcomment = rcomment rL @ comment_text (tc @ concat (map segment_tokens ds)),
             raddr = raddr rL @ at_chain (filter (\<lambda>d. d \<noteq> []) (map segment_text (butlast ds)))
                     @ ''@'' @ canon (segment_text (last ds)) @ [CHR 0x0A]\<rparr>)
   \<and> (\<forall>line ts node rL tc ds e es.
        tokenize line = Some ts \<and> suffix node ts \<and>
        match_local_part node = Inr rL \<and> ok rL \<and>
        rnext rL = tc @ concat (map segment_tokens ds) @ e # es \<and>
        list_all comment_tok tc \<and> ds \<noteq> [] \<and> list_all segment_ok ds \<and> stops (e # es) \<longrightarrow>
        match_addr_spec canon node =
          Inr \<lparr>rnext = e # es,
               rstr = rstr rL @ at_chain (map segment_text (butlast ds))
                      @ ''@'' @ canon (segment_text (last ds)),
               rcomment = rcomment rL @ comment_text (tc @ concat (map segment_tokens ds)),
               raddr = raddr rL @ at_chain (map segment_text (butlast ds))
                       @ ''@'' @ canon (segment_text (last ds)) @ [CHR 0x0A]\<rparr>)
   \<and> (\<forall>line node rL tc ds e.
        tokenize line = Some node \<and> match_local_part node = Inr rL \<and> ok rL \<and>
        rnext rL = tc @ concat (map segment_tokens ds) @ [e] \<and> ttype e = EOT \<and>
        list_all comment_tok tc \<and> ds \<noteq> [] \<and> list_all segment_ok ds \<longrightarrow>
        parse_addresses canon line list =
          Inr (True,
               rstr rL @ at_chain (map segment_text (butlast ds))
                 @ ''@'' @ canon (segment_text (last ds))
                 @ rcomment rL @ comment_text (tc @ concat (map segment_tokens ds)),
               raddr rL @ at_chain (map segment_text (butlast ds))
                 @ ''@'' @ canon (segment_text (last ds)) @ [CHR 0x0A]))
   \<and> (\<forall>node r.
        well_formed node \<and> match_addr_spec canon node = Inr r \<and> ok r \<longrightarrow>
        (\<exists>rL tc ds. match_local_part node = Inr rL \<and> ok rL \<and>
           rnext rL = tc @ concat (map segment_tokens ds) @ rnext r \<and>
           list_all comment_tok tc \<and> list_all segment_ok ds \<and>
           (ds \<noteq> [] \<longrightarrow> stops (rnext r))))
   \<and> (\<forall>ds node rL e es.
        (\<forall>d \<in> set ds. dotted_atoms d) \<and> ds \<noteq> [] \<and>
        match_local_part node = Inr rL \<and> rnext rL = chain_tokens ds @ e # es \<and>
        ttype e \<noteq> PERIOD \<and> ttype e \<noteq> COMMENT \<and> ttype e \<noteq> AT \<longrightarrow>
        match_addr_spec canon node =
          Inr \<lparr>rnext = e # es,
               rstr = rstr rL @ at_chain (map dotted (butlast ds)) @ ''@''
                      @ canon (dotted (last ds)),
               rcomment = rcomment rL,
               raddr = raddr rL @ at_chain (map dotted (butlast ds)) @ ''@''
                       @ canon (dotted (last ds)) @ [CHR 0x0A]\<rparr>)
   \<and> (\<forall>ds L.
        (\<forall>d \<in> set ds. dotted_atoms d) \<and> ds \<noteq> [] \<and> dotted_atoms L \<longrightarrow>
        parse_addresses canon (dotted L @ at_chain (map dotted ds)) list =
          Inr (True,
               dotted L @ at_chain (map dotted (butlast ds)) @ ''@''
                 @ canon (dotted (last ds)),
               dotted L @ at_chain (map dotted (butlast ds)) @ ''@''
                 @ canon (dotted (last ds)) @ [CHR 0x0A]))"
proof (intro conjI allI impI)
  fix node rL tc ds e es
  assume "match_local_part node = Inr rL \<and> ok rL \<and>
      rnext rL = tc @ concat (map segment_tokens ds) @ e # es \<and>
      list_all comment_tok tc \<and> ds \<noteq> [] \<and> list_all segment_ok ds \<and> stops (e # es)"
  then show "match_addr_spec canon node =
        Inr \<lparr>rnext = e # es,
             rstr = rstr rL @ at_chain (filter (\<lambda>d. d \<noteq> []) (map segment_text (butlast ds)))
                    @ ''@'' @ canon (segment_text (last ds)),
             rcomment = rcomment rL @ comment_text (tc @ concat (map segment_tokens ds)),
             raddr = raddr rL @ at_chain (filter (\<lambda>d. d \<noteq> []) (map segment_text (butlast ds)))
                     @ ''@'' @ canon (segment_text (last ds)) @ [CHR 0x0A]\<rparr>"
    by (intro match_addr_spec_segments) simp_all
next
  fix line ts node rL tc ds e es
  assume a: "tokenize line = Some ts \<and> suffix node ts \<and>
        match_local_part node = Inr rL \<and> ok rL \<and>
        rnext rL = tc @ concat (map segment_tokens ds) @ e # es \<and>
        list_all comment_tok tc \<and> ds \<noteq> [] \<and> list_all segment_ok ds \<and> stops (e # es)"
  then have fl: "filter (\<lambda>d. d \<noteq> []) (map segment_text (butlast ds))
                 = map segment_text (butlast ds)"
    using tokenized_segment_texts [of line ts node rL tc ds "e # es"] by blast
  from a have "match_addr_spec canon node =
        Inr \<lparr>rnext = e # es,
             rstr = rstr rL @ at_chain (filter (\<lambda>d. d \<noteq> []) (map segment_text (butlast ds)))
                    @ ''@'' @ canon (segment_text (last ds)),
             rcomment = rcomment rL @ comment_text (tc @ concat (map segment_tokens ds)),
             raddr = raddr rL @ at_chain (filter (\<lambda>d. d \<noteq> []) (map segment_text (butlast ds)))
                     @ ''@'' @ canon (segment_text (last ds)) @ [CHR 0x0A]\<rparr>"
    by (intro match_addr_spec_segments) simp_all
  then show "match_addr_spec canon node =
          Inr \<lparr>rnext = e # es,
               rstr = rstr rL @ at_chain (map segment_text (butlast ds))
                      @ ''@'' @ canon (segment_text (last ds)),
               rcomment = rcomment rL @ comment_text (tc @ concat (map segment_tokens ds)),
               raddr = raddr rL @ at_chain (map segment_text (butlast ds))
                       @ ''@'' @ canon (segment_text (last ds)) @ [CHR 0x0A]\<rparr>"
    unfolding fl .
next
  fix line node rL tc ds e
  assume "tokenize line = Some node \<and> match_local_part node = Inr rL \<and> ok rL \<and>
        rnext rL = tc @ concat (map segment_tokens ds) @ [e] \<and> ttype e = EOT \<and>
        list_all comment_tok tc \<and> ds \<noteq> [] \<and> list_all segment_ok ds"
  then have h: "tokenize line = Some node" "match_local_part node = Inr rL" "ok rL"
    "rnext rL = tc @ concat (map segment_tokens ds) @ [e]" "ttype e = EOT"
    "list_all comment_tok tc" "ds \<noteq> []" "list_all segment_ok ds"
    by simp_all
  show "parse_addresses canon line list =
          Inr (True,
               rstr rL @ at_chain (map segment_text (butlast ds))
                 @ ''@'' @ canon (segment_text (last ds))
                 @ rcomment rL @ comment_text (tc @ concat (map segment_tokens ds)),
               raddr rL @ at_chain (map segment_text (butlast ds))
                 @ ''@'' @ canon (segment_text (last ds)) @ [CHR 0x0A])"
    by (rule parse_addresses_segments [OF h])
next
  fix node r
  assume "well_formed node \<and> match_addr_spec canon node = Inr r \<and> ok r"
  then show "\<exists>rL tc ds. match_local_part node = Inr rL \<and> ok rL \<and>
           rnext rL = tc @ concat (map segment_tokens ds) @ rnext r \<and>
           list_all comment_tok tc \<and> list_all segment_ok ds \<and>
           (ds \<noteq> [] \<longrightarrow> stops (rnext r))"
    using addr_spec_layout [of node canon r] by blast
next
  fix ds node rL e es
  assume a: "(\<forall>d \<in> set ds. dotted_atoms d) \<and> ds \<noteq> [] \<and>
        match_local_part node = Inr rL \<and> rnext rL = chain_tokens ds @ e # es \<and>
        ttype e \<noteq> PERIOD \<and> ttype e \<noteq> COMMENT \<and> ttype e \<noteq> AT"
  then have e: "ttype e \<noteq> PERIOD" "ttype e \<noteq> COMMENT" "ttype e \<noteq> AT"
    and ds: "\<forall>d \<in> set ds. dotted_atoms d" "ds \<noteq> []"
    and lp: "match_local_part node = Inr rL" and rn: "rnext rL = chain_tokens ds @ e # es"
    by simp_all
  show "match_addr_spec canon node =
              Inr \<lparr>rnext = e # es,
                   rstr = rstr rL @ at_chain (map dotted (butlast ds)) @ ''@''
                          @ canon (dotted (last ds)),
                   rcomment = rcomment rL,
                   raddr = raddr rL @ at_chain (map dotted (butlast ds)) @ ''@''
                           @ canon (dotted (last ds)) @ [CHR 0x0A]\<rparr>"
    by (rule match_addr_spec_chain [OF e ds lp rn])
next
  fix ds L
  assume a: "(\<forall>d \<in> set ds. dotted_atoms d) \<and> ds \<noteq> [] \<and> dotted_atoms L"
  then have L: "dotted_atoms L" and ds: "\<forall>d \<in> set ds. dotted_atoms d" "ds \<noteq> []"
    by simp_all
  show "parse_addresses canon (dotted L @ at_chain (map dotted ds)) list =
              Inr (True,
                   dotted L @ at_chain (map dotted (butlast ds)) @ ''@''
                     @ canon (dotted (last ds)),
                   dotted L @ at_chain (map dotted (butlast ds)) @ ''@''
                     @ canon (dotted (last ds)) @ [CHR 0x0A])"
    using tokenize_address_text [OF L ds(1)] match_addresses_chain [OF L ds, of canon]
    by (simp add: parse_addresses_def ok_def)
qed

theorem source_route_accumulation_witness:
  "parse_addresses id ''a@b@c'' [] = Inr (True, ''a@b@c'', ''a@b@c'' @ [CHR 0x0A])
   \<and> parse_addresses id ''a@b(x)@c'' [] = Inr (True, ''a@b@c (x)'', ''a@b@c'' @ [CHR 0x0A])
   \<and> match_addr_spec id
       [\<lparr>ttype = ATOM, tstr = ''a''\<rparr>, \<lparr>ttype = AT, tstr = []\<rparr>,
        \<lparr>ttype = DOMAIN_LITERAL, tstr = ''[1]''\<rparr>, \<lparr>ttype = COMMENT, tstr = ''(y)''\<rparr>,
        \<lparr>ttype = PERIOD, tstr = []\<rparr>, \<lparr>ttype = ATOM, tstr = ''x''\<rparr>,
        \<lparr>ttype = AT, tstr = []\<rparr>, \<lparr>ttype = COMMENT, tstr = ''(z)''\<rparr>,
        \<lparr>ttype = ATOM, tstr = ''c''\<rparr>, \<lparr>ttype = COMMA, tstr = []\<rparr>,
        \<lparr>ttype = EOT, tstr = []\<rparr>]
     = Inr \<lparr>rnext = [\<lparr>ttype = COMMA, tstr = []\<rparr>, \<lparr>ttype = EOT, tstr = []\<rparr>],
            rstr = ''a@[1].x@c'', rcomment = '' (y) (z)'',
            raddr = ''a@[1].x@c'' @ [CHR 0x0A]\<rparr>
   \<and> match_addr_spec id (the (tokenize ''a@b(x)@c,d''))
     = Inr \<lparr>rnext = [\<lparr>ttype = COMMA, tstr = []\<rparr>, \<lparr>ttype = ATOM, tstr = ''d''\<rparr>,
                     \<lparr>ttype = EOT, tstr = []\<rparr>],
            rstr = ''a@b@c'', rcomment = '' (x)'', raddr = ''a@b@c'' @ [CHR 0x0A]\<rparr>
   \<and> (\<exists>rL tc ds. match_local_part (the (tokenize ''a@b(x)@c,d'')) = Inr rL \<and> ok rL \<and>
         rnext rL = tc @ concat (map segment_tokens ds)
           @ [\<lparr>ttype = COMMA, tstr = []\<rparr>, \<lparr>ttype = ATOM, tstr = ''d''\<rparr>,
              \<lparr>ttype = EOT, tstr = []\<rparr>] \<and>
         list_all comment_tok tc \<and> list_all segment_ok ds)"
proof -
  let ?a = "\<lparr>ttype = ATOM, tstr = ''a''\<rparr>" and ?b = "\<lparr>ttype = ATOM, tstr = ''b''\<rparr>"
  let ?c = "\<lparr>ttype = ATOM, tstr = ''c''\<rparr>" and ?x = "\<lparr>ttype = ATOM, tstr = ''x''\<rparr>"
  let ?at = "\<lparr>ttype = AT, tstr = []\<rparr>" and ?dot = "\<lparr>ttype = PERIOD, tstr = []\<rparr>"
  let ?eot = "\<lparr>ttype = EOT, tstr = []\<rparr>" and ?comma = "\<lparr>ttype = COMMA, tstr = []\<rparr>"
  let ?cx = "\<lparr>ttype = COMMENT, tstr = ''(x)''\<rparr>"
  let ?cy = "\<lparr>ttype = COMMENT, tstr = ''(y)''\<rparr>"
  let ?cz = "\<lparr>ttype = COMMENT, tstr = ''(z)''\<rparr>"
  let ?lit = "\<lparr>ttype = DOMAIN_LITERAL, tstr = ''[1]''\<rparr>"
  note defs = segment_tokens_def piece_tokens_def segment_ok_def piece_ok_def comment_tok_def
    sub_domain_tok_def segment_text_def comment_text_def at_chain_def
  have a: "atom_text ''a''" "atom_text ''b''" "atom_text ''c''"
    by (simp_all add: atom_text_def isatom_def isspace_def issymbol_def isctl_def char_defs)
  then have 1: "dotted_atoms [''a'']"
    and 2: "\<forall>d \<in> set [[''b''], [''c'']]. dotted_atoms d"
    by (simp_all add: dotted_atoms_def)
  from source_route_accumulation [of id "[]", THEN conjunct2, THEN conjunct2, THEN conjunct2,
      THEN conjunct2, THEN conjunct2, rule_format, of "[[''b''], [''c'']]" "[''a'']"] 1 2
  have w1: "parse_addresses id ''a@b@c'' [] = Inr (True, ''a@b@c'', ''a@b@c'' @ [CHR 0x0A])"
    by (simp add: at_chain_def)
  let ?n2 = "[?a, ?at, ?b, ?cx, ?at, ?c, ?eot]"
  let ?rL2 = "\<lparr>rnext = [?at, ?b, ?cx, ?at, ?c, ?eot], rstr = ''a'', rcomment = [], raddr = ''a''\<rparr>"
  let ?ds2 = "[[Piece ?at [] ?b [?cx]], [Piece ?at [] ?c []]]"
  have t2: "tokenize ''a@b(x)@c'' = Some ?n2" by code_simp
  have l2: "match_local_part ?n2 = Inr ?rL2" by code_simp
  have h2: "ok ?rL2" "rnext ?rL2 = [] @ concat (map segment_tokens ?ds2) @ [?eot]"
    "ttype ?eot = EOT" "list_all comment_tok []" "?ds2 \<noteq> []" "list_all segment_ok ?ds2"
    by (simp_all add: ok_def defs)
  from source_route_accumulation [of id "[]", THEN conjunct2, THEN conjunct2, THEN conjunct1,
      rule_format, of "''a@b(x)@c''" ?n2 ?rL2 "[]" ?ds2 ?eot] t2 l2 h2
  have w2: "parse_addresses id ''a@b(x)@c'' [] =
            Inr (True, ''a@b@c (x)'', ''a@b@c'' @ [CHR 0x0A])"
    by (simp add: defs)
  let ?n3 = "[?a, ?at, ?lit, ?cy, ?dot, ?x, ?at, ?cz, ?c, ?comma, ?eot]"
  let ?rL3 = "\<lparr>rnext = [?at, ?lit, ?cy, ?dot, ?x, ?at, ?cz, ?c, ?comma, ?eot],
               rstr = ''a'', rcomment = [], raddr = ''a''\<rparr>"
  let ?ds3 = "[[Piece ?at [] ?lit [?cy], Piece ?dot [] ?x []], [Piece ?at [?cz] ?c []]]"
  have l3: "match_local_part ?n3 = Inr ?rL3" by code_simp
  have h3: "ok ?rL3" "rnext ?rL3 = [] @ concat (map segment_tokens ?ds3) @ ?comma # [?eot]"
    "list_all comment_tok []" "?ds3 \<noteq> []" "list_all segment_ok ?ds3" "stops (?comma # [?eot])"
    by (simp_all add: ok_def defs)
  from source_route_accumulation [of id "[]", THEN conjunct1,
      rule_format, of ?n3 ?rL3 "[]" ?ds3 ?comma "[?eot]"] l3 h3
  have w3: "match_addr_spec id ?n3
     = Inr \<lparr>rnext = [?comma, ?eot], rstr = ''a@[1].x@c'', rcomment = '' (y) (z)'',
            raddr = ''a@[1].x@c'' @ [CHR 0x0A]\<rparr>"
    by (simp add: defs)
  let ?d = "\<lparr>ttype = ATOM, tstr = ''d''\<rparr>"
  let ?n4 = "[?a, ?at, ?b, ?cx, ?at, ?c, ?comma, ?d, ?eot]"
  let ?rL4 = "\<lparr>rnext = [?at, ?b, ?cx, ?at, ?c, ?comma, ?d, ?eot],
               rstr = ''a'', rcomment = [], raddr = ''a''\<rparr>"
  let ?r4 = "\<lparr>rnext = [?comma, ?d, ?eot], rstr = ''a@b@c'', rcomment = '' (x)'',
              raddr = ''a@b@c'' @ [CHR 0x0A]\<rparr>"
  have t4: "tokenize ''a@b(x)@c,d'' = Some ?n4" by code_simp
  have l4: "match_local_part ?n4 = Inr ?rL4" by code_simp
  have h4: "suffix ?n4 ?n4" "ok ?rL4"
    "rnext ?rL4 = [] @ concat (map segment_tokens ?ds2) @ ?comma # [?d, ?eot]"
    "list_all comment_tok []" "?ds2 \<noteq> []" "list_all segment_ok ?ds2"
    "stops (?comma # [?d, ?eot])"
    by (simp_all add: ok_def defs)
  from source_route_accumulation [of id "[]", THEN conjunct2, THEN conjunct1,
      rule_format, of "''a@b(x)@c,d''" ?n4 ?n4 ?rL4 "[]" ?ds2 ?comma "[?d, ?eot]"] t4 l4 h4
  have w4: "match_addr_spec id ?n4 = Inr ?r4"
    by (simp add: defs)
  have wf: "well_formed ?n4" "ok ?r4" by (simp_all add: well_formed_def ok_def)
  from source_route_accumulation [of id "[]", THEN conjunct2, THEN conjunct2, THEN conjunct2,
      THEN conjunct1, rule_format, of ?n4 ?r4] wf w4
  have w5: "\<exists>rL tc ds. match_local_part ?n4 = Inr rL \<and> ok rL \<and>
         rnext rL = tc @ concat (map segment_tokens ds) @ [?comma, ?d, ?eot] \<and>
         list_all comment_tok tc \<and> list_all segment_ok ds"
    by auto
  from w1 w2 w3 w4 w5 t4 show ?thesis by simp
qed

text \<open>
  The discipline of the rules. On a chain that ends in the end marker, every
  rule returns the failure value, whose position is null and whose texts are
  empty, or a result whose position is a proper suffix of the position it was
  given; the position is a value parameter, so the caller's own position is
  never changed. For every rule but \<open>addresses\<close> the returned position is past
  everything the rule consumed: its result does not depend on the text of any
  token from that position on. \<open>mailbox\<close> is \<open>route-spec\<close> when that succeeds and
  otherwise \<open>addr-spec\<close> from the same position; \<open>address\<close> is \<open>group\<close> when that
  succeeds and otherwise \<open>mailbox\<close> from the same position.
\<close>

lemma rule_discipline:
  assumes "well_formed node"
  shows "disciplined match_sub_domain node
    \<and> disciplined match_domain node
    \<and> disciplined match_route node
    \<and> disciplined match_word node
    \<and> disciplined match_local_part node
    \<and> disciplined (match_addr_spec canon) node
    \<and> disciplined (match_route_addr canon) node
    \<and> disciplined match_phrase node
    \<and> disciplined (match_route_spec canon) node
    \<and> disciplined (match_mailbox canon) node
    \<and> disciplined (match_mailboxes canon) node
    \<and> disciplined (match_group canon) node
    \<and> disciplined (match_address canon) node
    \<and> settles node (match_addresses canon node)
    \<and> match_mailbox canon node =
        (if \<exists>r. match_route_spec canon node = Inr r \<and> ok r then match_route_spec canon node
         else match_addr_spec canon node)
    \<and> match_address canon node =
        (if \<exists>r. match_group canon node = Inr r \<and> ok r then match_group canon node
         else match_mailbox canon node)"
proof -
  note D = disciplinedI [OF assms]
  have 1: "disciplined match_sub_domain node"
    by (rule D, rule sub_domain_wf [OF assms], erule advanced_sub_domain,
        erule (1) sub_domain_sim [OF assms])
  have 2: "disciplined match_domain node"
    by (rule D, rule domain_wf [OF assms], erule advanced_domain,
        erule (1) domain_sim [OF assms])
  have 3: "disciplined match_route node"
    by (rule D, rule route_wf [OF assms], erule advanced_route,
        erule (1) route_sim' [OF assms])
  have 4: "disciplined match_word node"
    by (rule D, rule word_wf [OF assms], erule advanced_word,
        erule (1) word_sim [OF assms])
  have 5: "disciplined match_local_part node"
    by (rule D, rule local_part_wf [OF assms], erule advanced_local_part,
        erule (1) local_part_sim [OF assms])
  have 6: "disciplined (match_addr_spec canon) node"
    by (rule D, rule addr_spec_wf [OF assms], erule advanced_addr_spec,
        erule (1) addr_spec_sim [OF assms])
  have 7: "disciplined (match_route_addr canon) node"
    by (rule D, rule route_addr_wf [OF assms], erule advanced_route_addr,
        erule (1) route_addr_sim [OF assms])
  have 8: "disciplined match_phrase node"
    by (rule D, rule phrase_wf [OF assms], erule advanced_phrase,
        erule (1) phrase_sim [OF assms])
  have 9: "disciplined (match_route_spec canon) node"
    by (rule D, rule route_spec_wf [OF assms], erule advanced_route_spec,
        erule (1) route_spec_sim [OF assms])
  have 10: "disciplined (match_mailbox canon) node"
    by (rule D, rule mailbox_wf [OF assms], erule advanced_mailbox,
        erule (1) mailbox_sim [OF assms])
  have 11: "disciplined (match_mailboxes canon) node"
    by (rule D, rule mailboxes_wf [OF assms], erule advanced_mailboxes,
        erule (1) mailboxes_sim [OF assms])
  have 12: "disciplined (match_group canon) node"
    by (rule D, rule group_wf [OF assms], erule advanced_group,
        erule (1) group_sim [OF assms])
  have 13: "disciplined (match_address canon) node"
    by (rule D, rule address_wf [OF assms], erule advanced_address,
        erule (1) address_sim [OF assms])
  have 14: "settles node (match_addresses canon node)"
    by (rule settlesI, rule addresses_wf [OF assms], erule advanced_addresses)
  have mb: "match_mailbox canon node =
        (if \<exists>r. match_route_spec canon node = Inr r \<and> ok r then match_route_spec canon node
         else match_addr_spec canon node)"
  proof -
    from route_spec_wf [OF assms] obtain r1 where r1: "match_route_spec canon node = Inr r1"
      by blast
    show ?thesis
      using r1 or_rule_second [OF addr_spec_wf [OF assms, of canon]]
      by (simp add: match_mailbox_def)
  qed
  have ad: "match_address canon node =
        (if \<exists>r. match_group canon node = Inr r \<and> ok r then match_group canon node
         else match_mailbox canon node)"
  proof -
    from group_wf [OF assms] obtain r1 where r1: "match_group canon node = Inr r1"
      by blast
    show ?thesis
      using r1 or_rule_second [OF mailbox_wf [OF assms, of canon]]
      by (simp add: match_address_def)
  qed
  from 1 2 3 4 5 6 7 8 9 10 11 12 13 14 mb ad show ?thesis by blast
qed

lemma rule_discipline_example:
  "well_formed [\<lparr>ttype = ATOM, tstr = ''a''\<rparr>, \<lparr>ttype = EOT, tstr = []\<rparr>]
   \<and> settles [\<lparr>ttype = ATOM, tstr = ''a''\<rparr>, \<lparr>ttype = EOT, tstr = []\<rparr>]
         (match_mailbox id [\<lparr>ttype = ATOM, tstr = ''a''\<rparr>, \<lparr>ttype = EOT, tstr = []\<rparr>])
   \<and> disciplined (match_mailbox id) [\<lparr>ttype = ATOM, tstr = ''a''\<rparr>, \<lparr>ttype = EOT, tstr = []\<rparr>]"
proof -
  have wf: "well_formed [\<lparr>ttype = ATOM, tstr = ''a''\<rparr>, \<lparr>ttype = EOT, tstr = []\<rparr>]"
    by (simp add: well_formed_def)
  from rule_discipline [OF wf, of id] wf show ?thesis
    by (simp add: disciplined_def)
qed

text \<open>
  C5. Every rule should return, on success, a position past exactly what it
  has consumed. The rule \<open>addresses\<close> steps over the commas and comments that
  follow its last address, and adds these comments to its display text, but
  it returns the position where the last address ended; the rule \<open>mailboxes\<close>,
  which has the same loop, stores the new position in its result before it
  returns. On the tokens of \<^verbatim>\<open>a@b,(c)\<close> the result of \<open>addresses\<close> has the display
  text \<^verbatim>\<open>a@b (c)\<close> and the position of the comma, so the comment that it has
  already consumed lies after the position it reports.
\<close>

theorem addresses_position_not_advanced:
  "tokenize ''a@b,(c)'' =
     Some [\<lparr>ttype = ATOM, tstr = ''a''\<rparr>, \<lparr>ttype = AT, tstr = []\<rparr>,
        \<lparr>ttype = ATOM, tstr = ''b''\<rparr>, \<lparr>ttype = COMMA, tstr = []\<rparr>,
           \<lparr>ttype = COMMENT, tstr = ''(c)''\<rparr>, \<lparr>ttype = EOT, tstr = []\<rparr>]
   \<and> match_addresses id
       [\<lparr>ttype = ATOM, tstr = ''a''\<rparr>, \<lparr>ttype = AT, tstr = []\<rparr>,
        \<lparr>ttype = ATOM, tstr = ''b''\<rparr>, \<lparr>ttype = COMMA, tstr = []\<rparr>,
        \<lparr>ttype = COMMENT, tstr = ''(c)''\<rparr>, \<lparr>ttype = EOT, tstr = []\<rparr>]
     = Inr \<lparr>rnext = [\<lparr>ttype = COMMA, tstr = []\<rparr>, \<lparr>ttype = COMMENT, tstr = ''(c)''\<rparr>,
                     \<lparr>ttype = EOT, tstr = []\<rparr>],
            rstr = ''a@b (c)'', rcomment = [], raddr = ''a@b'' @ [CHR 0x0A]\<rparr>
   \<and> \<not> disciplined (match_addresses id)
       [\<lparr>ttype = ATOM, tstr = ''a''\<rparr>, \<lparr>ttype = AT, tstr = []\<rparr>,
        \<lparr>ttype = ATOM, tstr = ''b''\<rparr>, \<lparr>ttype = COMMA, tstr = []\<rparr>,
        \<lparr>ttype = COMMENT, tstr = ''(c)''\<rparr>, \<lparr>ttype = EOT, tstr = []\<rparr>]"
proof -
  let ?p = "[\<lparr>ttype = ATOM, tstr = ''a''\<rparr>, \<lparr>ttype = AT, tstr = []\<rparr>,
        \<lparr>ttype = ATOM, tstr = ''b''\<rparr>, \<lparr>ttype = COMMA, tstr = []\<rparr>,
             \<lparr>ttype = COMMENT, tstr = ''(c)''\<rparr>, \<lparr>ttype = EOT, tstr = []\<rparr>]"
  let ?q = "[\<lparr>ttype = ATOM, tstr = ''a''\<rparr>, \<lparr>ttype = AT, tstr = []\<rparr>,
        \<lparr>ttype = ATOM, tstr = ''b''\<rparr>, \<lparr>ttype = COMMA, tstr = []\<rparr>,
             \<lparr>ttype = COMMENT, tstr = ''(d)''\<rparr>, \<lparr>ttype = EOT, tstr = []\<rparr>]"
  let ?r = "\<lparr>rnext = [\<lparr>ttype = COMMA, tstr = []\<rparr>, \<lparr>ttype = COMMENT, tstr = ''(c)''\<rparr>,
                     \<lparr>ttype = EOT, tstr = []\<rparr>],
            rstr = ''a@b (c)'', rcomment = [], raddr = ''a@b'' @ [CHR 0x0A]\<rparr>"
  have t: "tokenize ''a@b,(c)'' = Some ?p" by code_simp
  have p: "match_addresses id ?p = Inr ?r" by code_simp
  have q: "match_addresses id ?q
     = Inr \<lparr>rnext = [\<lparr>ttype = COMMA, tstr = []\<rparr>, \<lparr>ttype = COMMENT, tstr = ''(d)''\<rparr>,
                     \<lparr>ttype = EOT, tstr = []\<rparr>],
            rstr = ''a@b (d)'', rcomment = [], raddr = ''a@b'' @ [CHR 0x0A]\<rparr>" by code_simp
  have wf: "well_formed ?q" by (simp add: well_formed_def)
  have s: "sim (length (rnext ?r)) ?p ?q" by (simp add: sim_def)
  have okr: "ok ?r" by (simp add: ok_def)
  have "\<not> past_consumed (match_addresses id) ?p"
  proof
    assume "past_consumed (match_addresses id) ?p"
    with p okr wf s obtain r' where "match_addresses id ?q = Inr r'" "rstr r' = rstr ?r"
      unfolding past_consumed_def by blast
    with q show False by simp
  qed
  with t p show ?thesis by (simp add: disciplined_def)
qed

end
